(* ===== verification/Prelude.thy ===== *)
theory Prelude
  imports
    Main
    "HOL-Library.Word"
    "HOL-Library.Monad_Syntax"
    "HOL-Library.Sublist"
    "HOL-Library.Char_ord"
    "HOL-Library.List_Lexorder"
    "HOL-Library.Multiset"
begin

text \<open>
  Shared vocabulary of the development: machine integers, the pieces of the Go standard
  library the state engine uses (strings, encoding/hex, integer remainder, slicing), a
  store of objects for code that works through pointers, and the generic lemmas on lists
  and folds that the component theories rest on.

  A run-time panic of the Go code is the value \<^term>\<open>None\<close> of an option; an error that
  a function returns is a value of its result.
\<close>

named_theorems path_consts \<open>values and lengths of the path constants\<close>
named_theorems go_simps \<open>evaluation rules of the Go library functions\<close>
named_theorems api_laws \<open>consequences of the laws of third-party operations\<close>

type_synonym u8 = "8 word"
type_synonym u32 = "32 word"
type_synonym u64 = "64 word"
type_synonym path = string
type_synonym err = "string option"

section \<open>Slices and strings\<close>

text \<open>Go's \<open>s[i:j]\<close> panics unless \<open>i \<le> j \<le> len(s)\<close>.\<close>

definition go_slice :: "'a list \<Rightarrow> nat \<Rightarrow> nat \<Rightarrow> 'a list option" where
  "go_slice s i j = (if i \<le> j \<and> j \<le> length s then Some (take (j - i) (drop i s)) else None)"

definition HasPrefix :: "string \<Rightarrow> string \<Rightarrow> bool" where
  "HasPrefix s p = prefix p s"

definition HasSuffix :: "string \<Rightarrow> string \<Rightarrow> bool" where
  "HasSuffix s p = suffix p s"

definition Contains :: "string \<Rightarrow> string \<Rightarrow> bool" where
  "Contains s p = sublist p s"

text \<open>\<open>strings.LastIndex(s, c)\<close> for a one-character pattern: -1 when it does not occur.\<close>

fun LastIndex :: "string \<Rightarrow> char \<Rightarrow> int" where
  "LastIndex [] c = -1"
| "LastIndex (x # xs) c =
     (let r = LastIndex xs c in if 0 \<le> r then r + 1 else if x = c then 0 else -1)"

text \<open>Go's \<open>%\<close> truncates towards zero; a zero divisor panics.\<close>

definition go_rem :: "int \<Rightarrow> int \<Rightarrow> int option" where
  "go_rem a b = (if b = 0 then None else Some (sgn a * (\<bar>a\<bar> mod \<bar>b\<bar>)))"

lemma HasSuffix_append [simp]: "HasSuffix (xs @ ys) ys"
  by (simp add: HasSuffix_def suffix_def)

lemma HasPrefix_append [simp]: "HasPrefix (xs @ ys) xs"
  by (simp add: HasPrefix_def)

lemma HasSuffix_long:
  "length p \<le> length ys \<Longrightarrow> HasSuffix (xs @ ys) p = HasSuffix ys p"
  unfolding HasSuffix_def by (metis suffixI suffix_length_suffix suffix_order.trans)

lemma LastIndex_lower: "-1 \<le> LastIndex s c"
  by (induction s) (auto simp: Let_def)

lemma LastIndex_less: "LastIndex s c < int (length s)"
  by (induction s) (auto simp: Let_def)

lemma LastIndex_neg_iff: "LastIndex s c < 0 \<longleftrightarrow> c \<notin> set s"
  by (induction s) (auto simp: Let_def)

lemma LastIndex_nth: "0 \<le> LastIndex s c \<Longrightarrow> s ! nat (LastIndex s c) = c"
  by (induction s) (auto simp: Let_def nat_add_distrib split: if_splits)

lemma LastIndex_last: "nat (LastIndex s c + 1) \<le> i \<Longrightarrow> i < length s \<Longrightarrow> s ! i \<noteq> c"
proof (induction s arbitrary: i)
  case Nil
  then show ?case by simp
next
  case (Cons x xs)
  show ?case
  proof (cases i)
    case 0
    then show ?thesis using Cons.prems LastIndex_lower [of xs c]
      by (auto simp: Let_def split: if_splits)
  next
    case (Suc j)
    then show ?thesis using Cons.prems Cons.IH [of j]
      by (auto simp: Let_def nat_add_distrib split: if_splits)
  qed
qed

lemma LastIndex_append:
  "LastIndex (xs @ ys) c =
     (if c \<in> set ys then int (length xs) + LastIndex ys c else LastIndex xs c)"
proof (induction xs)
  case Nil
  then show ?case using LastIndex_neg_iff [of ys c] LastIndex_lower [of ys c]
    by auto
next
  case (Cons x xs)
  then show ?case using LastIndex_neg_iff [of ys c]
    by (auto simp: Let_def)
qed

section \<open>Lists\<close>

lemma distinct_filter_eq: "distinct xs \<Longrightarrow> x \<in> set xs \<Longrightarrow> filter (\<lambda>y. y = x) xs = [x]"
  by (induction xs) (auto simp: filter_empty_conv)

lemma those_map: "(\<And>x. x \<in> set xs \<Longrightarrow> f x \<noteq> None) \<Longrightarrow> those (map f xs) = Some (map (\<lambda>x. the (f x)) xs)"
proof (induction xs)
  case (Cons x xs)
  moreover obtain y where "f x = Some y" using Cons.prems [of x] by auto
  ultimately show ?case by simp
qed simp

lemma those_None: "x \<in> set xs \<Longrightarrow> f x = None \<Longrightarrow> those (map f xs) = None"
  by (induction xs) (auto split: option.split)

lemma zip_map_pair: "zip (map f xs) (map g xs) = map (\<lambda>x. (f x, g x)) xs"
  by (induction xs) simp_all

text \<open>A reordering of an association list without repeated keys is the same map.\<close>

lemma map_of_reorder:
  assumes "mset xs = mset ys" "distinct (map fst ys)"
  shows "map_of xs = map_of ys"
proof -
  have "mset (map fst xs) = mset (map fst ys)" using assms(1) by simp
  then have "distinct (map fst xs)" using assms(2) by (metis mset_eq_imp_distinct_iff)
  moreover have "set xs = set ys" using assms(1) by (metis mset_eq_setD)
  ultimately show ?thesis using assms(2) map_of_inject_set by blast
qed

section \<open>Hexadecimal decoding (encoding/hex)\<close>

definition hexDigit :: "char \<Rightarrow> nat option" where
  "hexDigit c =
     (let n = of_char c :: nat in
      if 48 \<le> n \<and> n \<le> 57 then Some (n - 48)
      else if 97 \<le> n \<and> n \<le> 102 then Some (n - 87)
      else if 65 \<le> n \<and> n \<le> 70 then Some (n - 55)
      else None)"

text \<open>
  \<open>hex.DecodeString\<close>: the decoded bytes, or an error at the first invalid digit or, with
  only valid digits, for an odd length.
\<close>

fun hexDecodeString :: "string \<Rightarrow> string + u8 list" where
  "hexDecodeString [] = Inr []"
| "hexDecodeString [c] =
     (case hexDigit c of None \<Rightarrow> Inl ''invalid byte'' | Some _ \<Rightarrow> Inl ''odd length'')"
| "hexDecodeString (p # q # cs) =
     (case hexDigit p of
        None \<Rightarrow> Inl ''invalid byte''
      | Some a \<Rightarrow>
          (case hexDigit q of
             None \<Rightarrow> Inl ''invalid byte''
           | Some b \<Rightarrow>
               (case hexDecodeString cs of
                  Inl e \<Rightarrow> Inl e
                | Inr bs \<Rightarrow> Inr (of_nat (16 * a + b) # bs))))"

lemma hexDigit_bound: "hexDigit c = Some n \<Longrightarrow> n < 16"
  by (auto simp: hexDigit_def Let_def split: if_splits)

lemma hexDigit_x [simp]: "hexDigit (CHR ''x'') = None"
  by (simp add: hexDigit_def)

lemma hexDecode_0x:
  "\<exists>e. hexDecodeString (CHR ''0'' # CHR ''x'' # cs) = Inl e"
  by (simp split: option.split)

lemma hexDecode_length: "hexDecodeString s = Inr bs \<Longrightarrow> length s = 2 * length bs"
  by (induction s arbitrary: bs rule: hexDecodeString.induct)
     (auto split: option.splits sum.splits)

section \<open>Errors\<close>

text \<open>\<open>errors.Join\<close>: nil if all are nil, otherwise the messages on a line each.\<close>

definition joinErrors :: "err list \<Rightarrow> err" where
  "joinErrors es =
     (case filter (\<lambda>e. e \<noteq> None) es of
        [] \<Rightarrow> None
      | x # xs \<Rightarrow> Some (the x @ concat (map (\<lambda>y. CHR 0x0A # the y) xs)))"

lemma joinErrors_None: "joinErrors es = None \<longleftrightarrow> set es \<subseteq> {None}"
proof (cases "filter (\<lambda>e. e \<noteq> None) es")
  case Nil
  then show ?thesis by (auto simp: joinErrors_def filter_empty_conv)
next
  case (Cons e xs)
  then have "e \<in> set (filter (\<lambda>e. e \<noteq> None) es)" by simp
  then have "e \<in> set es" "e \<noteq> None" by simp_all
  then show ?thesis using Cons by (auto simp: joinErrors_def)
qed

section \<open>Objects behind pointers\<close>

text \<open>
  Cells are shared by pointer between the indexers, the writers and the execution store:
  a reference is a number, the heap maps it to the object. \<open>alloc\<close> is Go's allocation.
\<close>

type_synonym ref = nat

record 'c heap =
  cellAt :: "ref \<Rightarrow> 'c"
  nextRef :: ref

definition alloc :: "'c \<Rightarrow> 'c heap \<Rightarrow> ref \<times> 'c heap" where
  "alloc c h = (nextRef h, \<lparr>cellAt = (cellAt h)(nextRef h := c), nextRef = Suc (nextRef h)\<rparr>)"

definition upd :: "ref \<Rightarrow> ('c \<Rightarrow> 'c) \<Rightarrow> 'c heap \<Rightarrow> 'c heap" where
  "upd r f h = h\<lparr>cellAt := (cellAt h)(r := f (cellAt h r))\<rparr>"

lemma cellAt_upd [simp]: "cellAt (upd r f h) = (cellAt h)(r := f (cellAt h r))"
  by (simp add: upd_def)

lemma nextRef_upd [simp]: "nextRef (upd r f h) = nextRef h"
  by (simp add: upd_def)

lemma cellAt_alloc: "alloc c h = (r, h') \<Longrightarrow> cellAt h' = (cellAt h)(r := c)"
  by (auto simp: alloc_def)

lemma alloc_simps [simp]:
  "fst (alloc c h) = nextRef h"
  "cellAt (snd (alloc c h)) = (cellAt h)(nextRef h := c)"
  "nextRef (snd (alloc c h)) = Suc (nextRef h)"
  by (simp_all add: alloc_def)

end
