(* ===== verification/Paths.thy ===== *)
theory Paths
  imports Prelude
begin

text \<open>
  The path vocabulary of the state engine: the constants of \<open>src/common/constants.go\<close> and
  the parsing functions of \<open>src/common/path_types.go\<close>. Every state entry is addressed by a
  slash-separated path that starts with \<open>blcc://eth1.0/account/\<close> and a 42-character account
  address. The lemmas show that parsing splits a path without losing a character, that the
  index loop of \<open>GetSegmentAt\<close> computes the n-th non-empty segment, and which paths are
  routed to the Ethereum storage.
\<close>

section \<open>Constants (constants.go)\<close>

definition SYSTEM :: u64 where "SYSTEM = 2147483647"
definition MIN_READ_SIZE :: u64 where "MIN_READ_SIZE = 32"
definition MIN_WRITE_SIZE :: u64 where "MIN_WRITE_SIZE = 32"
definition LATEST_STATE_VERSION :: u64 where "LATEST_STATE_VERSION = -1"
definition ETH_PATH :: u8 where "ETH_PATH = 1"
definition ETH :: string where "ETH = ''blcc://eth1.0/''"
definition ETH_ACCOUNT_PREFIX :: string where "ETH_ACCOUNT_PREFIX = ETH @ ''account/''"
definition ETH_ACCOUNT_PREFIX_LENGTH :: nat where
  "ETH_ACCOUNT_PREFIX_LENGTH = length ETH_ACCOUNT_PREFIX"
definition ETH_ACCOUNT_LENGTH :: nat where "ETH_ACCOUNT_LENGTH = 42"
definition ETH_ACCOUNT_FULL_LENGTH :: nat where
  "ETH_ACCOUNT_FULL_LENGTH = ETH_ACCOUNT_PREFIX_LENGTH + ETH_ACCOUNT_LENGTH"
definition SHORT_CONTRACT_ADDRESS_LENGTH :: nat where "SHORT_CONTRACT_ADDRESS_LENGTH = 4"
definition SELECTOR_LENGTH :: nat where "SELECTOR_LENGTH = 4"
definition PATH_ROOT :: string where "PATH_ROOT = ''/''"
definition PATH_CODE :: string where "PATH_CODE = ''/code''"
definition PATH_NONCE :: string where "PATH_NONCE = ''/nonce''"
definition PATH_BALANCE :: string where "PATH_BALANCE = ''/balance''"
definition PATH_FUNC_PROFILE :: string where "PATH_FUNC_PROFILE = ''/profiles/''"
definition PATH_STORAGE_ROOT :: string where "PATH_STORAGE_ROOT = ''/storage/''"
definition PATH_ARCO_CONTAINER :: string where "PATH_ARCO_CONTAINER = ''container/''"
definition PATH_ETH_NATIVE :: string where "PATH_ETH_NATIVE = ''native/''"
definition PATH_STORAGE_CONTAINER :: string where
  "PATH_STORAGE_CONTAINER = PATH_STORAGE_ROOT @ PATH_ARCO_CONTAINER"
definition PATH_STORAGE_NATIVE :: string where
  "PATH_STORAGE_NATIVE = PATH_STORAGE_ROOT @ PATH_ETH_NATIVE"

lemma ETH_ACCOUNT_PREFIX_eq [path_consts]: "ETH_ACCOUNT_PREFIX = ''blcc://eth1.0/account/''"
  by (simp add: ETH_ACCOUNT_PREFIX_def ETH_def)

lemma account_lengths [path_consts]:
  "ETH_ACCOUNT_PREFIX_LENGTH = 22" "ETH_ACCOUNT_LENGTH = 42" "ETH_ACCOUNT_FULL_LENGTH = 64"
  by (simp_all add: ETH_ACCOUNT_PREFIX_LENGTH_def ETH_ACCOUNT_LENGTH_def
      ETH_ACCOUNT_FULL_LENGTH_def ETH_ACCOUNT_PREFIX_eq)

lemma length_account_prefix [simp]: "length ETH_ACCOUNT_PREFIX = 22"
  by (simp add: ETH_ACCOUNT_PREFIX_eq)

lemmas sub_path_defs =
  PATH_ROOT_def PATH_CODE_def PATH_NONCE_def PATH_BALANCE_def PATH_FUNC_PROFILE_def
  PATH_STORAGE_ROOT_def PATH_ARCO_CONTAINER_def PATH_ETH_NATIVE_def
  PATH_STORAGE_CONTAINER_def PATH_STORAGE_NATIVE_def

section \<open>Operations (path_types.go)\<close>

definition ParseAccountAddr :: "string \<Rightarrow> string \<times> string \<times> string" where
  "ParseAccountAddr acct =
     (if length acct < ETH_ACCOUNT_PREFIX_LENGTH + ETH_ACCOUNT_LENGTH then (acct, [], [])
      else (take ETH_ACCOUNT_PREFIX_LENGTH acct,
            take ETH_ACCOUNT_LENGTH (drop ETH_ACCOUNT_PREFIX_LENGTH acct),
            drop (ETH_ACCOUNT_PREFIX_LENGTH + ETH_ACCOUNT_LENGTH) acct))"

definition GetAccountAddr :: "string \<Rightarrow> string" where
  "GetAccountAddr path = (case ParseAccountAddr path of (_, addr, _) \<Rightarrow> addr)"

definition GetPathUnder :: "string \<Rightarrow> string \<Rightarrow> string" where
  "GetPathUnder key pfx =
     (if length key > ETH_ACCOUNT_PREFIX_LENGTH + ETH_ACCOUNT_LENGTH
      then let subKey = drop (ETH_ACCOUNT_PREFIX_LENGTH + ETH_ACCOUNT_LENGTH) key
           in if subKey \<noteq> pfx \<and> HasPrefix subKey pfx then drop (length pfx) subKey else []
      else [])"

text \<open>
  The loop of \<open>GetSegmentAt\<close>: \<open>i\<close> runs up to and including the length of the path, \<open>seg\<close>
  counts finished segments from -1, \<open>start\<close> is the first index of the open segment or -1.
\<close>

function getSegmentLoop :: "string \<Rightarrow> int \<Rightarrow> bool \<Rightarrow> bool \<Rightarrow> nat \<Rightarrow> int \<Rightarrow> int \<Rightarrow> string \<times> bool" where
  "getSegmentLoop path n includeLeading includeTrailing i seg start =
     (if length path < i then ([], False)
      else let fin = (i = length path \<or> path ! i = CHR ''/'') in
        if start = -1 then
          getSegmentLoop path n includeLeading includeTrailing (Suc i) seg
            (if \<not> fin then int i else start)
        else if fin then
          (if seg + 1 = n then
             (let segment = take (i - nat start) (drop (nat start) path);
                  segment = (if includeLeading then ''/'' @ segment else segment);
                  segment = (if includeTrailing then segment @ ''/'' else segment)
              in (segment, True))
           else getSegmentLoop path n includeLeading includeTrailing (Suc i) (seg + 1) (-1))
        else getSegmentLoop path n includeLeading includeTrailing (Suc i) seg start)"
  by pat_completeness auto
termination
  by (relation "measure (\<lambda>(path, n, l, t, i, seg, start). Suc (length path) - i)") auto

declare getSegmentLoop.simps [simp del]

definition GetSegmentAt :: "string \<Rightarrow> int \<Rightarrow> bool \<Rightarrow> bool \<Rightarrow> string \<times> bool" where
  "GetSegmentAt path n includeLeading includeTrailing =
     getSegmentLoop path n includeLeading includeTrailing 0 (-1) (-1)"

definition ShouldPersistToEth :: "string \<Rightarrow> bool" where
  "ShouldPersistToEth path =
     (if length path \<le> ETH_ACCOUNT_FULL_LENGTH + 1 then False
      else if HasSuffix path PATH_NONCE \<or> HasSuffix path PATH_BALANCE \<or> HasSuffix path PATH_CODE
      then True
      else if HasSuffix path ''/'' then False
      else case GetSegmentAt path 5 False True of (sub, ok) \<Rightarrow> ok \<and> sub = PATH_ETH_NATIVE)"

definition ShouldPersistToArco :: "string \<Rightarrow> bool" where
  "ShouldPersistToArco path = True"

definition GetParentPath :: "string \<Rightarrow> string \<times> string" where
  "GetParentPath key =
     (if length key = 0 \<or> key = ''/'' then (key, key)
      else let path = take (nat (LastIndex (butlast key) (CHR ''/'') + 1)) key
           in (path, drop (length path) key))"

definition IsEthAddress :: "string \<Rightarrow> bool" where
  "IsEthAddress path =
     (if \<not> HasPrefix path ''0x'' then False
      else length path = ETH_ACCOUNT_LENGTH \<or>
           length path = ETH_ACCOUNT_LENGTH + 1 \<and> path ! (length path - 1) = CHR ''/'')"

section \<open>Splitting at slashes: the reference for GetSegmentAt\<close>

fun splitSlash :: "string \<Rightarrow> string list" where
  "splitSlash [] = [[]]"
| "splitSlash (c # cs) =
     (if c = CHR ''/'' then [] # splitSlash cs
      else case splitSlash cs of [] \<Rightarrow> [[c]] | s # ss \<Rightarrow> (c # s) # ss)"

definition segments :: "string \<Rightarrow> string list" where
  "segments path = filter (\<lambda>s. s \<noteq> []) (splitSlash path)"

lemma splitSlash_not_Nil [simp]: "splitSlash s \<noteq> []"
  by (induction s) (auto split: list.split)

lemma splitSlash_no_slash: "CHR ''/'' \<notin> set s \<Longrightarrow> splitSlash s = [s]"
  by (induction s) auto

lemma splitSlash_append_slash:
  "CHR ''/'' \<notin> set s \<Longrightarrow> splitSlash (s @ CHR ''/'' # t) = s # splitSlash t"
  by (induction s) auto

text \<open>Splitting is faithful: joining the pieces with slashes gives the path back.\<close>

lemma splitSlash_join: "concat (map (\<lambda>s. s @ ''/'') (splitSlash path)) = path @ ''/''"
  by (induction path) (auto split: list.split)

lemma segments_no_slash: "s \<in> set (segments path) \<Longrightarrow> CHR ''/'' \<notin> set s"
proof -
  have "\<forall>s \<in> set (splitSlash path). CHR ''/'' \<notin> set s"
    by (induction path) (auto split: list.split)
  then show "s \<in> set (segments path) \<Longrightarrow> CHR ''/'' \<notin> set s"
    by (auto simp: segments_def)
qed

lemma segments_Nil [simp]: "segments [] = []"
  by (simp add: segments_def)

lemma segments_slash [simp]: "segments (CHR ''/'' # t) = segments t"
  by (simp add: segments_def)

lemma segments_open:
  "CHR ''/'' \<notin> set s \<Longrightarrow> s \<noteq> [] \<Longrightarrow> segments (s @ CHR ''/'' # t) = s # segments t"
  by (simp add: segments_def splitSlash_append_slash)

lemma segments_last: "CHR ''/'' \<notin> set s \<Longrightarrow> s \<noteq> [] \<Longrightarrow> segments s = [s]"
  by (simp add: segments_def splitSlash_no_slash)

text \<open>What \<open>GetSegmentAt\<close> makes of a list of segments.\<close>

definition pickSegment :: "string list \<Rightarrow> int \<Rightarrow> bool \<Rightarrow> bool \<Rightarrow> string \<times> bool" where
  "pickSegment ss n l t =
     (if 0 \<le> n \<and> n < int (length ss)
      then ((if l then ''/'' else []) @ ss ! nat n @ (if t then ''/'' else []), True)
      else ([], False))"

lemma pickSegment_Cons:
  "pickSegment (s # ss) n l t =
     (if n = 0 then ((if l then ''/'' else []) @ s @ (if t then ''/'' else []), True)
      else pickSegment ss (n - 1) l t)"
  by (auto simp: pickSegment_def nth_Cons' nat_diff_distrib)


text \<open>The loop at index \<open>i\<close> is about the suffix that starts at the open segment, if any.\<close>

definition segInv :: "string \<Rightarrow> nat \<Rightarrow> int \<Rightarrow> bool" where
  "segInv path i start \<longleftrightarrow>
     start = -1 \<or>
     (0 \<le> start \<and> nat start < i \<and> i \<le> length path \<and>
      CHR ''/'' \<notin> set (take (i - nat start) (drop (nat start) path)))"

lemma drop_split_at:
  assumes "s \<le> i" "i < length xs"
  shows "drop s xs = take (i - s) (drop s xs) @ xs ! i # drop (Suc i) xs"
  using assms id_take_nth_drop [of "i - s" "drop s xs"] by simp

lemma take_Suc_window:
  assumes "s \<le> i" "i < length xs"
  shows "take (Suc i - s) (drop s xs) = take (i - s) (drop s xs) @ [xs ! i]"
  using assms by (simp add: Suc_diff_le take_Suc_conv_app_nth)

lemma getSegmentLoop_correct:
  "segInv path i start \<Longrightarrow>
   getSegmentLoop path n l t i seg start =
     pickSegment (segments (drop (if start = -1 then i else nat start) path)) (n - seg - 1) l t"
proof (induction path n l t i seg start rule: getSegmentLoop.induct)
  case (1 path n l t i seg start)
  note IH = "1.IH" and inv = "1.prems"
  note unfold = getSegmentLoop.simps [of path n l t i seg start]
  consider (past) "length path < i" | (last) "i = length path" | (mid) "i < length path"
    by linarith
  then show ?case
  proof cases
    case past
    with inv show ?thesis by (subst unfold) (auto simp: segInv_def pickSegment_def)
  next
    case last
    show ?thesis
    proof (cases "start = -1")
      case True
      with last IH(1) show ?thesis
        by (subst unfold) (simp add: segInv_def pickSegment_def)
    next
      case False
      with inv last have s: "0 \<le> start" "nat start < length path"
        and free: "CHR ''/'' \<notin> set (drop (nat start) path)"
        by (auto simp: segInv_def)
      then have one: "segments (drop (nat start) path) = [drop (nat start) path]"
        by (intro segments_last) auto
      show ?thesis
        using False last IH(2) by (subst unfold) (auto simp: one pickSegment_Cons segInv_def pickSegment_def)
    qed
  next
    case mid
    show ?thesis
    proof (cases "start = -1")
      case True
      have ini: "drop i path = path ! i # drop (Suc i) path"
        using mid by (simp add: Cons_nth_drop_Suc)
      show ?thesis
      proof (cases "path ! i = CHR ''/''")
        case slash: True
        with True mid IH(1) show ?thesis by (subst unfold) (simp add: segInv_def ini)
      next
        case False
        have "segInv path (Suc i) (int i)"
          using mid False by (auto simp: segInv_def ini)
        with True mid False IH(1) show ?thesis by (subst unfold) simp
      qed
    next
      case False
      with inv have s: "0 \<le> start" "nat start < i"
        and free: "CHR ''/'' \<notin> set (take (i - nat start) (drop (nat start) path))"
        by (auto simp: segInv_def)
      let ?w = "take (i - nat start) (drop (nat start) path)"
      have ne: "?w \<noteq> []" using s mid by auto
      show ?thesis
      proof (cases "path ! i = CHR ''/''")
        case slash: True
        have seg: "segments (drop (nat start) path) = ?w # segments (drop (Suc i) path)"
          using segments_open [OF free ne, of "drop (Suc i) path"]
            drop_split_at [of "nat start" i path] s mid slash by simp
        show ?thesis
          using False mid slash IH(2)
          by (subst unfold) (simp add: seg pickSegment_Cons segInv_def diff_diff_eq Let_def)
      next
        case noslash: False
        have "segInv path (Suc i) start"
          using s mid free noslash by (auto simp: segInv_def take_Suc_window)
        with False mid noslash IH(3) show ?thesis by (subst unfold) simp
      qed
    qed
  qed
qed


lemma GetSegmentAt_segments: "GetSegmentAt path n l t = pickSegment (segments path) n l t"
  by (simp add: GetSegmentAt_def getSegmentLoop_correct segInv_def)

section \<open>Properties of the path functions\<close>

text \<open>
  C30. The index loop of \<open>GetSegmentAt\<close> returns the n-th non-empty piece of the path split at
  slashes, with the requested slashes around it, and reports failure exactly when there is no
  such piece (a negative index included).
\<close>
theorem GetSegmentAt_correct:
  "GetSegmentAt path n l t = pickSegment (segments path) n l t"
  by (rule GetSegmentAt_segments)

text \<open>
  \<open>ParseAccountAddr\<close> cuts an identifier into prefix, address and suffix without losing or
  reordering a character; the pieces have the fixed lengths when the identifier is long enough
  and are empty otherwise.
\<close>
theorem ParseAccountAddr_split:
  "case ParseAccountAddr acct of (p, a, s) \<Rightarrow>
     p @ a @ s = acct \<and>
     (if 64 \<le> length acct then length p = 22 \<and> length a = 42 else a = [] \<and> s = [])"
proof -
  have "take 22 acct @ take 42 (drop 22 acct) @ drop 64 acct = acct"
    by (metis append_assoc append_take_drop_id drop_drop numeral_Bit0 add.commute take_add
        numeral_plus_numeral semiring_norm(2,6,3,4,5,7,8,9,10))
  then show ?thesis
    by (simp add: ParseAccountAddr_def account_lengths)
qed

lemma GetParentPath_parts:
  assumes "key \<noteq> []" "key \<noteq> ''/''" and "GetParentPath key = (parent, child)"
  shows "parent @ child = key" "child \<noteq> []" "length parent < length key"
    "parent = [] \<or> last parent = CHR ''/''" "CHR ''/'' \<notin> set (butlast child)"
proof -
  let ?b = "butlast key" and ?i = "LastIndex (butlast key) (CHR ''/'')"
  let ?n = "nat (?i + 1)"
  have par: "parent = take ?n key" and ch: "child = drop (length parent) key"
    using assms by (auto simp: GetParentPath_def Let_def)
  have less: "?n < length key"
    using LastIndex_less [of ?b "CHR ''/''"] assms(1) length_greater_0_conv [of key]
    unfolding length_butlast by linarith
  then have len: "length parent = ?n" using par by simp
  show "parent @ child = key" using par ch len by simp
  show "child \<noteq> []" using ch len less by simp
  show "length parent < length key" using len less by simp
  show "parent = [] \<or> last parent = CHR ''/''"
  proof (cases "0 \<le> ?i")
    case True
    then have nat: "?n = Suc (nat ?i)" by simp
    then have "last parent = key ! nat ?i"
      using par less by (simp add: take_Suc_conv_app_nth)
    also have "\<dots> = ?b ! nat ?i" using nat less by (simp add: nth_butlast)
    also have "\<dots> = CHR ''/''" using True by (rule LastIndex_nth)
    finally show ?thesis ..
  next
    case False
    then show ?thesis using par by simp
  qed
  have "child ! j \<noteq> CHR ''/''" if "j < length child - 1" for j
    using that LastIndex_last [of ?b "CHR ''/''" "?n + j"] ch len less
    by (simp add: nth_butlast)
  then show "CHR ''/'' \<notin> set (butlast child)"
    by (auto simp: in_set_conv_nth nth_butlast)
qed

text \<open>A name below a directory: the parent is the directory.\<close>

lemma GetParentPath_child:
  assumes "d \<noteq> []" "last d = CHR ''/''" "q \<noteq> []" "CHR ''/'' \<notin> set (butlast q)"
  shows "GetParentPath (d @ q) = (d, q)"
proof -
  obtain e where d: "d = e @ ''/''" using assms(1,2) by (metis append_butlast_last_id)
  have "LastIndex (d @ butlast q) (CHR ''/'') = int (length e)"
    using assms(4) LastIndex_neg_iff [of "butlast q" "CHR ''/''"]
    by (simp add: d LastIndex_append Let_def)
  moreover have "d @ q \<noteq> ''/''" using assms(3) d by (auto simp: append_eq_Cons_conv)
  ultimately show ?thesis
    using assms by (simp add: GetParentPath_def Let_def butlast_append d nat_add_distrib)
qed

text \<open>
  \<open>GetParentPath\<close> of a path that is neither empty nor the root splits it into a strictly
  shorter parent, which is empty or ends in a slash, and a non-empty child name, whose only
  slash can be its last character; the two pieces concatenate to the path.
\<close>
theorem GetParentPath_correct:
  assumes "key \<noteq> []" and "key \<noteq> ''/''"
  shows "case GetParentPath key of (parent, child) \<Rightarrow>
     parent @ child = key \<and> child \<noteq> [] \<and> length parent < length key \<and>
     (parent = [] \<or> last parent = CHR ''/'') \<and> CHR ''/'' \<notin> set (butlast child)"
  using GetParentPath_parts [OF assms] by (cases "GetParentPath key") blast

text \<open>
  Walking up with \<open>GetParentPath\<close> ends: after at most as many steps as the path has
  characters the empty path or the root is reached.
\<close>
theorem GetParentPath_chain_ends:
  "\<exists>k \<le> length key. ((fst \<circ> GetParentPath) ^^ k) key = [] \<or> ((fst \<circ> GetParentPath) ^^ k) key = ''/''"
proof (induction "length key" arbitrary: key rule: less_induct)
  case less
  show ?case
  proof (cases "key = [] \<or> key = ''/''")
    case True
    then show ?thesis by (intro exI [of _ 0]) auto
  next
    case False
    let ?p = "fst (GetParentPath key)"
    have short: "length ?p < length key"
      using GetParentPath_parts(3) [of key ?p "snd (GetParentPath key)"] False by auto
    from less [OF this] obtain k where k: "k \<le> length ?p"
      "((fst \<circ> GetParentPath) ^^ k) ?p = [] \<or> ((fst \<circ> GetParentPath) ^^ k) ?p = ''/''"
      by blast
    then show ?thesis using short
      by (intro exI [of _ "Suc k"]) (simp add: funpow_Suc_right del: funpow.simps)
  qed
qed

lemma segments_account_path:
  assumes "CHR ''/'' \<notin> set addr" "addr \<noteq> []"
  shows "segments (ETH_ACCOUNT_PREFIX @ addr @ CHR ''/'' # rest) =
    [''blcc:'', ''eth1.0'', ''account'', addr] @ segments rest"
  using assms by (simp add: ETH_ACCOUNT_PREFIX_eq segments_def splitSlash_append_slash)

text \<open>
  C31. Routing: below the \<open>/storage/\<close> directory of an account, an entry goes to the Ethereum storage exactly when
  the directory it lies in is \<open>native\<close> or its path ends in \<open>/nonce\<close>, \<open>/balance\<close> or \<open>/code\<close>, wherever it lies: an
  element \<open>nonce\<close> of a container is taken for the nonce of the account.
\<close>
theorem ShouldPersistToEth_storage:
  assumes addr: "length addr = 42" "CHR ''/'' \<notin> set addr"
    and dir: "dir \<noteq> []" "CHR ''/'' \<notin> set dir"
    and nam: "nam \<noteq> []" "last nam \<noteq> CHR ''/''"
    and path: "path = ETH_ACCOUNT_PREFIX @ addr @ ''/storage/'' @ dir @ ''/'' @ nam"
  shows "ShouldPersistToEth path \<longleftrightarrow>
    dir = ''native'' \<or> HasSuffix path ''/nonce'' \<or> HasSuffix path ''/balance'' \<or> HasSuffix path ''/code''"
proof -
  have ne: "addr \<noteq> []" using addr by auto
  have "segments (''storage'' @ CHR ''/'' # dir @ CHR ''/'' # nam) = [''storage'', dir] @ segments nam"
    using dir by (simp add: segments_def splitSlash_append_slash)
  then have segs: "segments path = [''blcc:'', ''eth1.0'', ''account'', addr, ''storage'', dir] @ segments nam"
    using segments_account_path [OF addr(2) ne, of "''storage/'' @ dir @ ''/'' @ nam"] path by simp
  have five: "GetSegmentAt path 5 False True = (dir @ ''/'', True)"
    by (simp add: GetSegmentAt_segments segs pickSegment_def)
  have noslash: "\<not> HasSuffix path ''/''"
    using nam path by (auto simp: HasSuffix_def suffix_def append_eq_append_conv2 dest!: arg_cong [of _ _ last])
  have "length path > ETH_ACCOUNT_FULL_LENGTH + 1" using addr nam path by (simp add: account_lengths)
  then show ?thesis
    using noslash five by (auto simp: ShouldPersistToEth_def PATH_ETH_NATIVE_def sub_path_defs)
qed

theorem ShouldPersistToEth_storage_witness:
  "ShouldPersistToEth (ETH_ACCOUNT_PREFIX @ replicate 42 (CHR ''a'') @ ''/storage/'' @ ''native'' @ ''/'' @ ''0x01'') \<and>
   ShouldPersistToEth (ETH_ACCOUNT_PREFIX @ replicate 42 (CHR ''a'') @ ''/storage/'' @ ''container'' @ ''/'' @ ''x/nonce'') \<and>
   \<not> ShouldPersistToEth (ETH_ACCOUNT_PREFIX @ replicate 42 (CHR ''a'') @ ''/storage/'' @ ''container'' @ ''/'' @ ''x'')"
proof -
  have "ShouldPersistToEth (ETH_ACCOUNT_PREFIX @ replicate 42 (CHR ''a'') @ ''/storage/'' @ dir @ ''/'' @ nam) \<longleftrightarrow> dir = ''native'' \<or>
      HasSuffix (ETH_ACCOUNT_PREFIX @ replicate 42 (CHR ''a'') @ ''/storage/'' @ dir @ ''/'' @ nam) ''/nonce'' \<or>
      HasSuffix (ETH_ACCOUNT_PREFIX @ replicate 42 (CHR ''a'') @ ''/storage/'' @ dir @ ''/'' @ nam) ''/balance'' \<or>
      HasSuffix (ETH_ACCOUNT_PREFIX @ replicate 42 (CHR ''a'') @ ''/storage/'' @ dir @ ''/'' @ nam) ''/code''"
    if "dir \<noteq> []" "CHR ''/'' \<notin> set dir" "nam \<noteq> []" "last nam \<noteq> CHR ''/''" for dir nam
    by (rule ShouldPersistToEth_storage [OF _ _ that refl]) simp_all
  note at = this [of "''native''" "''0x01''"] this [of "''container''" "''x/nonce''"] this [of "''container''" "''x''"]
  show ?thesis using at by (simp add: HasSuffix_def suffix_def ETH_ACCOUNT_PREFIX_eq numeral_eq_Suc append_eq_Cons_conv)
qed

end
