(* ===== verification/Cells.thy ===== *)
theory Cells
  imports Paths
begin

text \<open>
  The third-party objects the committer and the writers share. A state transition is a
  \<open>statecell.StateCell\<close> of common-lib: the engine only uses its methods, so the cell type and
  the value type are type variables and the methods are the fields of the record \<open>cell_api\<close>.
  What the engine relies on is the predicate \<open>cell_law\<close>: setters and getters of different
  fields do not interfere, and \<open>slice.RemoveIf\<close> keeps the other elements in order. The last
  section gives one concrete cell type that satisfies the laws, used by the closed instances of
  the theorems.
\<close>

section \<open>Cells\<close>

text \<open>
  \<open>RemoveIf\<close> works in place: its first result is the shortened slice, the second what the old
  extent of the slice holds afterwards, which only another alias of it can see.
\<close>

record ('c, 'v) cell_api =
  GetPath :: "'c \<Rightarrow> string option"
  SetPath :: "string option \<Rightarrow> 'c \<Rightarrow> 'c"
  GetTx :: "'c \<Rightarrow> u64"
  Value :: "'c \<Rightarrow> 'v option"
  SetValue :: "'v option \<Rightarrow> 'c \<Rightarrow> 'c"
  IfSkipConflictCheck :: "'c \<Rightarrow> bool"
  IsBlockBound :: "'c \<Rightarrow> bool"
  ApplyDelta :: "'c \<Rightarrow> 'c list \<Rightarrow> 'c \<times> err"
  isCRDT :: "'v \<Rightarrow> bool"
  Preload :: "string \<Rightarrow> 'v \<Rightarrow> 'v"
  RemoveIf :: "(nat \<Rightarrow> ref \<Rightarrow> bool) \<Rightarrow> ref list \<Rightarrow> ref list \<times> ref list"

definition cell_law :: "('c, 'v) cell_api \<Rightarrow> bool" where
  "cell_law A \<longleftrightarrow>
     (\<forall>p c. GetPath A (SetPath A p c) = p \<and> GetTx A (SetPath A p c) = GetTx A c \<and>
        Value A (SetPath A p c) = Value A c \<and>
        IfSkipConflictCheck A (SetPath A p c) = IfSkipConflictCheck A c \<and>
        IsBlockBound A (SetPath A p c) = IsBlockBound A c) \<and>
     (\<forall>v c. Value A (SetValue A v c) = v \<and> GetPath A (SetValue A v c) = GetPath A c \<and>
        GetTx A (SetValue A v c) = GetTx A c \<and>
        IfSkipConflictCheck A (SetValue A v c) = IfSkipConflictCheck A c \<and>
        IsBlockBound A (SetValue A v c) = IsBlockBound A c) \<and>
     (\<forall>c cs. GetPath A (fst (ApplyDelta A c cs)) = GetPath A c) \<and>
     (\<forall>k x. isCRDT A x \<longrightarrow> isCRDT A (Preload A k x)) \<and>
     (\<forall>P xs. fst (RemoveIf A (\<lambda>_. P) xs) = filter (\<lambda>x. \<not> P x) xs) \<and>
     (\<forall>P xs. (\<forall>x \<in> set xs. \<not> P x) \<longrightarrow> snd (RemoveIf A (\<lambda>_. P) xs) = xs)"

lemma cell_law_simps [api_laws]:
  assumes "cell_law A"
  shows "GetPath A (SetPath A p c) = p" "GetTx A (SetPath A p c) = GetTx A c"
    "Value A (SetPath A p c) = Value A c"
    "IfSkipConflictCheck A (SetPath A p c) = IfSkipConflictCheck A c"
    "IsBlockBound A (SetPath A p c) = IsBlockBound A c"
    "Value A (SetValue A v c) = v" "GetPath A (SetValue A v c) = GetPath A c"
    "GetTx A (SetValue A v c) = GetTx A c"
    "IfSkipConflictCheck A (SetValue A v c) = IfSkipConflictCheck A c"
    "IsBlockBound A (SetValue A v c) = IsBlockBound A c"
    "GetPath A (fst (ApplyDelta A c cs)) = GetPath A c"
    "fst (RemoveIf A (\<lambda>_. P) xs) = filter (\<lambda>x. \<not> P x) xs"
  using assms by (auto simp: cell_law_def)

lemma RemoveIf_nothing:
  "cell_law A \<Longrightarrow> (\<And>x. x \<in> set xs \<Longrightarrow> \<not> P x) \<Longrightarrow> snd (RemoveIf A (\<lambda>_. P) xs) = xs"
  by (auto simp: cell_law_def)

text \<open>A cell whose path is nil has been reverted or merged and is skipped from then on.\<close>

abbreviation pathAt :: "('c, 'v) cell_api \<Rightarrow> 'c heap \<Rightarrow> ref \<Rightarrow> string option" where
  "pathAt A h r \<equiv> GetPath A (cellAt h r)"

abbreviation txAt :: "('c, 'v) cell_api \<Rightarrow> 'c heap \<Rightarrow> ref \<Rightarrow> u64" where
  "txAt A h r \<equiv> GetTx A (cellAt h r)"

abbreviation valueAt :: "('c, 'v) cell_api \<Rightarrow> 'c heap \<Rightarrow> ref \<Rightarrow> 'v option" where
  "valueAt A h r \<equiv> Value A (cellAt h r)"

text \<open>The type assertion \<open>Value().(crdtcommon.CRDT)\<close> succeeds on the cell, or its value is nil.\<close>

definition typedAt :: "('c, 'v) cell_api \<Rightarrow> 'c heap \<Rightarrow> ref \<Rightarrow> bool" where
  "typedAt A h r \<longleftrightarrow> (case valueAt A h r of None \<Rightarrow> True | Some x \<Rightarrow> isCRDT A x)"

section \<open>A concrete cell\<close>

text \<open>
  A cell that holds an optional integer and merges by adding up; deleting is the value None.
  It stands for the library in closed instances only.
\<close>

record icell =
  icPath :: "string option"
  icTx :: u64
  icValue :: "int option"
  icSkip :: bool
  icBlockBound :: bool

definition icApply :: "icell \<Rightarrow> icell list \<Rightarrow> icell \<times> err" where
  "icApply c cs =
     (c\<lparr>icValue := foldl (\<lambda>acc d. case (acc, icValue d) of
         (Some x, Some y) \<Rightarrow> Some (x + y) | (_, w) \<Rightarrow> w) (icValue c) cs\<rparr>, None)"

definition int_api :: "(icell, int) cell_api" where
  "int_api = \<lparr>GetPath = icPath, SetPath = (\<lambda>p. icPath_update (\<lambda>_. p)), GetTx = icTx,
     Value = icValue, SetValue = (\<lambda>v. icValue_update (\<lambda>_. v)), IfSkipConflictCheck = icSkip,
     IsBlockBound = icBlockBound, ApplyDelta = icApply, isCRDT = (\<lambda>_. True),
     Preload = (\<lambda>_ v. v),
     RemoveIf = (\<lambda>P xs. (map snd (filter (\<lambda>(i, x). \<not> P i x) (enumerate 0 xs)), xs))\<rparr>"

lemma filter_enumerate: "map snd (filter (\<lambda>(i, x). P x) (enumerate n xs)) = filter P xs"
  by (induction xs arbitrary: n) auto

lemma int_api_law: "cell_law int_api"
  by (simp add: cell_law_def int_api_def icApply_def filter_enumerate)

end
