(* ===== verification/DeltaSequences.thy ===== *)
theory DeltaSequences
  imports Cells
begin

text \<open>
  \<open>src/state/committer/delta_sequence.go\<close>: the transitions of one path, brought into
  transaction order and merged into the first of them. \<open>sort.SliceStable\<close> is modelled by its
  insertion pass, which is all it runs on up to 20 elements; longer slices are merged from
  insertion-sorted blocks of 20, which gives the same result whenever the comparison is a strict
  weak order, that is, with at most one SYSTEM transition in the sequence.
\<close>

section \<open>sort.SliceStable\<close>

text \<open>One step of the insertion pass: the prefix is given back to front, the new element moves
  towards the front while it is less than its neighbour.\<close>

fun sink :: "('a \<Rightarrow> 'a \<Rightarrow> bool) \<Rightarrow> 'a \<Rightarrow> 'a list \<Rightarrow> 'a list" where
  "sink lt x [] = [x]"
| "sink lt x (y # ys) = (if lt x y then y # sink lt x ys else x # y # ys)"

definition SliceStable :: "('a \<Rightarrow> 'a \<Rightarrow> bool) \<Rightarrow> 'a list \<Rightarrow> 'a list" where
  "SliceStable lt xs = rev (fold (sink lt) xs [])"

lemma mset_sink [simp]: "mset (sink lt x ys) = add_mset x (mset ys)"
  by (induction ys) auto

lemma mset_fold_sink: "mset (fold (sink lt) xs ys) = mset xs + mset ys"
  by (induction xs arbitrary: ys) auto

lemma mset_SliceStable [simp]: "mset (SliceStable lt xs) = mset xs"
  by (simp add: SliceStable_def mset_fold_sink)

lemma set_SliceStable [simp]: "set (SliceStable lt xs) = set xs"
  by (metis mset_SliceStable set_mset_mset)

lemma length_SliceStable [simp]: "length (SliceStable lt xs) = length xs"
  by (metis mset_SliceStable size_mset)

lemma distinct_SliceStable [simp]: "distinct (SliceStable lt xs) = distinct xs"
  by (metis mset_SliceStable mset_eq_imp_distinct_iff)

section \<open>Operations (delta_sequence.go)\<close>

definition txLess :: "('c, 'v) cell_api \<Rightarrow> 'c heap \<Rightarrow> ref \<Rightarrow> ref \<Rightarrow> bool" where
  "txLess A h i j =
     (if txAt A h i = SYSTEM then True
      else if txAt A h j = SYSTEM then False
      else txAt A h i < txAt A h j)"

definition sortSeq :: "('c, 'v) cell_api \<Rightarrow> 'c heap \<Rightarrow> ref list \<Rightarrow> ref list" where
  "sortSeq A h this = (if length this \<le> 1 then this else SliceStable (txLess A h) this)"

definition clearPaths :: "('c, 'v) cell_api \<Rightarrow> ref list \<Rightarrow> 'c heap \<Rightarrow> 'c heap" where
  "clearPaths A rs h = fold (\<lambda>r. upd r (SetPath A None)) rs h"

text \<open>
  \<open>Finalize\<close>: the local slice header \<open>trans\<close> is compacted, \<open>this\<close> keeps its length and sees
  what the compaction left in the shared array. The result is None for a panic; otherwise the
  merged cell, if any, and the heap.
\<close>

definition seqFinalize ::
  "('c, 'v) cell_api \<Rightarrow> ref list \<Rightarrow> 'c heap \<Rightarrow> (ref option \<times> 'c heap) option" where
  "seqFinalize A this h =
     (let this = snd (RemoveIf A (\<lambda>_ v. pathAt A h v = None) this) in
      if length this = 0 then Some (None, h)
      else case sortSeq A h this of
             [] \<Rightarrow> None
           | r # rs \<Rightarrow>
               (case ApplyDelta A (cellAt h r) (map (cellAt h) rs) of
                  (_, Some e) \<Rightarrow> None
                | (c, None) \<Rightarrow> Some (Some r, clearPaths A rs (upd r (\<lambda>_. c) h))))"

definition seqFinalized :: "ref list \<Rightarrow> ref option" where
  "seqFinalized this = (case this of [] \<Rightarrow> None | r # _ \<Rightarrow> Some r)"

definition seqsFinalized :: "('c, 'v) cell_api \<Rightarrow> 'c heap \<Rightarrow> ref list list \<Rightarrow> 'v list option" where
  "seqsFinalized A h seqs =
     those (map (\<lambda>s. do {
        r \<leftarrow> seqFinalized s;
        v \<leftarrow> valueAt A h r;
        if isCRDT A v then Some v else None
      }) seqs)"

definition seqsKeys :: "('c, 'v) cell_api \<Rightarrow> 'c heap \<Rightarrow> ref list list \<Rightarrow> string option list option" where
  "seqsKeys A h seqs =
     those (map (\<lambda>s. do { r \<leftarrow> seqFinalized s; Some (pathAt A h r) }) seqs)"

section \<open>Order of the merge\<close>

lemma sink_not_less: "(\<And>y. y \<in> set ys \<Longrightarrow> \<not> lt x y) \<Longrightarrow> sink lt x ys = x # ys"
  by (cases ys) auto

lemma sink_all_less: "(\<And>y. y \<in> set ys \<Longrightarrow> lt x y) \<Longrightarrow> sink lt x ys = ys @ [x]"
  by (induction ys) auto

lemma sink_append:
  "(\<And>z. z \<in> set zs \<Longrightarrow> \<not> lt x z) \<Longrightarrow> sink lt x (ys @ zs) = sink lt x ys @ zs"
  by (induction ys) (auto simp: sink_not_less)

lemma sink_cong:
  "(\<And>y. y \<in> set ys \<Longrightarrow> lt x y = lt' x y) \<Longrightarrow> sink lt x ys = sink lt' x ys"
  by (induction ys) auto

lemma set_sink: "set (sink lt x ys) = insert x (set ys)"
  by (metis mset_sink set_mset_add_mset_insert set_mset_mset)

lemma fold_sink_cong:
  "(\<And>x y. x \<in> set xs \<Longrightarrow> y \<in> set xs \<union> set ys \<Longrightarrow> lt x y = lt' x y) \<Longrightarrow>
   fold (sink lt) xs ys = fold (sink lt') xs ys"
proof (induction xs arbitrary: ys)
  case Nil
  then show ?case by simp
next
  case (Cons x xs)
  have "sink lt x ys = sink lt' x ys" using Cons.prems by (intro sink_cong) auto
  moreover have "fold (sink lt) xs (sink lt' x ys) = fold (sink lt') xs (sink lt' x ys)"
    using Cons.prems by (intro Cons.IH) (auto simp: set_sink)
  ultimately show ?case by simp
qed

text \<open>Insertion by a key is the stable library sort.\<close>

lemma rev_sink_insort:
  fixes f :: "'a \<Rightarrow> 'b :: linorder"
  shows "sorted (map f (rev ys)) \<Longrightarrow> sorted (map f (rev (sink (\<lambda>x y. f x < f y) x ys)))"
proof (induction ys)
  case Nil
  then show ?case by simp
next
  case (Cons y ys)
  then show ?case by (auto simp: sorted_append set_sink)
qed

lemma filter_sink:
  fixes f :: "'a \<Rightarrow> 'b :: linorder"
  shows "filter (\<lambda>z. f k = f z) (rev (sink (\<lambda>x y. f x < f y) x ys)) =
    filter (\<lambda>z. f k = f z) (rev ys) @ filter (\<lambda>z. f k = f z) [x]"
  by (induction ys) auto

lemma fold_sink_key:
  fixes f :: "'a \<Rightarrow> 'b :: linorder"
  shows "sorted (map f (rev ys)) \<Longrightarrow>
    sorted (map f (rev (fold (sink (\<lambda>x y. f x < f y)) xs ys))) \<and>
    filter (\<lambda>z. f k = f z) (rev (fold (sink (\<lambda>x y. f x < f y)) xs ys)) =
      filter (\<lambda>z. f k = f z) (rev ys) @ filter (\<lambda>z. f k = f z) xs"
proof (induction xs arbitrary: ys)
  case Nil
  then show ?case by simp
next
  case (Cons x xs)
  from Cons.IH [OF rev_sink_insort [OF Cons.prems]] show ?case
    by (simp add: filter_sink)
qed

lemma SliceStable_key:
  fixes f :: "'a \<Rightarrow> 'b :: linorder"
  shows "SliceStable (\<lambda>x y. f x < f y) xs = sort_key f xs"
  unfolding SliceStable_def
  by (rule properties_for_sort_key [symmetric])
     (use fold_sink_key [of f "[]" xs] in \<open>auto simp: mset_fold_sink\<close>)

text \<open>SYSTEM transitions sink to the very front, the others stop behind them.\<close>

lemma fold_sink_system:
  assumes "\<And>x. x \<in> set ss \<Longrightarrow> txAt A h x = SYSTEM" "\<And>x. x \<in> set ns \<Longrightarrow> txAt A h x \<noteq> SYSTEM"
  shows "fold (sink (txLess A h)) xs (ns @ ss) =
    fold (sink (\<lambda>x y. txAt A h x < txAt A h y)) (filter (\<lambda>x. txAt A h x \<noteq> SYSTEM) xs) ns @ ss @
    filter (\<lambda>x. txAt A h x = SYSTEM) xs"
  using assms
proof (induction xs arbitrary: ns ss)
  case Nil
  then show ?case by simp
next
  case (Cons x xs)
  show ?case
  proof (cases "txAt A h x = SYSTEM")
    case True
    then have "sink (txLess A h) x (ns @ ss) = ns @ (ss @ [x])"
      by (simp add: sink_all_less txLess_def)
    moreover have "fold (sink (txLess A h)) xs (ns @ (ss @ [x])) =
        fold (sink (\<lambda>x y. txAt A h x < txAt A h y)) (filter (\<lambda>x. txAt A h x \<noteq> SYSTEM) xs) ns @
        (ss @ [x]) @ filter (\<lambda>x. txAt A h x = SYSTEM) xs"
      by (rule Cons.IH) (use Cons.prems True in auto)
    ultimately show ?thesis using True by simp
  next
    case False
    let ?n = "sink (\<lambda>x y. txAt A h x < txAt A h y) x ns"
    have "sink (txLess A h) x (ns @ ss) = sink (txLess A h) x ns @ ss"
      using Cons.prems(1) False by (intro sink_append) (auto simp: txLess_def)
    also have "sink (txLess A h) x ns = ?n"
      using Cons.prems(2) False by (intro sink_cong) (auto simp: txLess_def)
    finally have step: "sink (txLess A h) x (ns @ ss) = ?n @ ss" .
    have "fold (sink (txLess A h)) xs (?n @ ss) =
        fold (sink (\<lambda>x y. txAt A h x < txAt A h y)) (filter (\<lambda>x. txAt A h x \<noteq> SYSTEM) xs) ?n @
        ss @ filter (\<lambda>x. txAt A h x = SYSTEM) xs"
      by (intro Cons.IH) (use Cons.prems False in \<open>auto simp: set_sink\<close>)
    with step False show ?thesis by simp
  qed
qed

lemma sortSeq_by_tx:
  "sortSeq A h this =
     rev (filter (\<lambda>r. txAt A h r = SYSTEM) this) @
     sort_key (txAt A h) (filter (\<lambda>r. txAt A h r \<noteq> SYSTEM) this)"
proof -
  have "SliceStable (txLess A h) this =
     rev (filter (\<lambda>r. txAt A h r = SYSTEM) this) @
     SliceStable (\<lambda>x y. txAt A h x < txAt A h y) (filter (\<lambda>r. txAt A h r \<noteq> SYSTEM) this)"
    using fold_sink_system [of "[]" A h "[]" this] by (simp add: SliceStable_def)
  also have "\<dots> = rev (filter (\<lambda>r. txAt A h r = SYSTEM) this) @
     sort_key (txAt A h) (filter (\<lambda>r. txAt A h r \<noteq> SYSTEM) this)"
    by (simp add: SliceStable_key)
  finally show ?thesis
    by (cases this rule: remdups_adj.cases) (auto simp: sortSeq_def)
qed

text \<open>
  C24. The order in which the transitions of one path are merged: SYSTEM transitions come first,
  the last imported of them at the very front because the comparison calls every SYSTEM element
  less than every other, and the rest follow by transaction number, transitions of the same
  transaction in the order in which they were imported. With several SYSTEM transitions this is
  claimed for up to 20 transitions of a path, which \<open>sort.SliceStable\<close> sorts by insertion alone.
\<close>
theorem sortSeq_order:
  assumes "length this \<le> 20 \<or> length (filter (\<lambda>r. txAt A h r = SYSTEM) this) \<le> 1"
  shows "sortSeq A h this =
     rev (filter (\<lambda>r. txAt A h r = SYSTEM) this) @
     sort_key (txAt A h) (filter (\<lambda>r. txAt A h r \<noteq> SYSTEM) this)"
  by (rule sortSeq_by_tx)

lemma mset_sortSeq [simp]: "mset (sortSeq A h this) = mset this"
  by (simp add: sortSeq_def)

lemma set_sortSeq [simp]: "set (sortSeq A h this) = set this"
  by (metis mset_sortSeq set_mset_mset)

lemma distinct_sortSeq [simp]: "distinct (sortSeq A h this) = distinct this"
  by (metis mset_sortSeq mset_eq_imp_distinct_iff)

lemma cellAt_clearPaths:
  "distinct rs \<Longrightarrow> cellAt (clearPaths A rs h) r =
     (if r \<in> set rs then SetPath A None (cellAt h r) else cellAt h r)"
  unfolding clearPaths_def by (induction rs arbitrary: h) auto

lemma nextRef_clearPaths [simp]: "nextRef (clearPaths A rs h) = nextRef h"
  unfolding clearPaths_def by (induction rs arbitrary: h) auto

text \<open>What \<open>Finalize\<close> does to a non-empty sequence of live transitions, cell by cell.\<close>

definition mergedCell :: "('c, 'v) cell_api \<Rightarrow> 'c heap \<Rightarrow> ref list \<Rightarrow> 'c \<times> err" where
  "mergedCell A h this =
     ApplyDelta A (cellAt h (hd (sortSeq A h this))) (map (cellAt h) (tl (sortSeq A h this)))"

lemma sortSeq_ne: "this \<noteq> [] \<Longrightarrow> sortSeq A h this \<noteq> []"
  by (metis mset_sortSeq mset_zero_iff)

lemma sortSeq_cong:
  "(\<And>r. r \<in> set this \<Longrightarrow> cellAt h r = cellAt h' r) \<Longrightarrow> sortSeq A h this = sortSeq A h' this"
  using fold_sink_cong [of this "[]" "txLess A h" "txLess A h'"]
  by (simp add: sortSeq_def SliceStable_def txLess_def)

lemma mergedCell_cong:
  assumes "\<And>r. r \<in> set this \<Longrightarrow> cellAt h r = cellAt h' r" "this \<noteq> []"
  shows "mergedCell A h this = mergedCell A h' this"
proof -
  have s: "sortSeq A h this = sortSeq A h' this" using assms(1) by (rule sortSeq_cong)
  have "set (sortSeq A h' this) = set this" "sortSeq A h' this \<noteq> []" using assms(2) by (auto simp: sortSeq_ne)
  then have "hd (sortSeq A h' this) \<in> set this" "set (tl (sortSeq A h' this)) \<subseteq> set this"
    by (metis hd_in_set, metis list.set_sel(2) subsetI)
  then have "map (cellAt h) (tl (sortSeq A h' this)) = map (cellAt h') (tl (sortSeq A h' this))"
    and "cellAt h (hd (sortSeq A h' this)) = cellAt h' (hd (sortSeq A h' this))"
    using assms(1) by (meson map_cong subsetD)+
  then show ?thesis by (simp only: mergedCell_def s)
qed

lemma seqFinalize_live:
  assumes "cell_law A" "this \<noteq> []" "distinct this" "\<And>r. r \<in> set this \<Longrightarrow> pathAt A h r \<noteq> None"
    and "snd (mergedCell A h this) = None"
  obtains h' where "seqFinalize A this h = Some (Some (hd (sortSeq A h this)), h')"
    "\<And>r. cellAt h' r =
       (if r = hd (sortSeq A h this) then fst (mergedCell A h this)
        else if r \<in> set this then SetPath A None (cellAt h r) else cellAt h r)"
    "nextRef h' = nextRef h"
proof -
  obtain r rs where s: "sortSeq A h this = r # rs"
    using sortSeq_ne [OF assms(2)] by (cases "sortSeq A h this") auto
  obtain c where c: "ApplyDelta A (cellAt h r) (map (cellAt h) rs) = (c, None)"
    using assms(5) s by (cases "ApplyDelta A (cellAt h r) (map (cellAt h) rs)") (auto simp: mergedCell_def)
  have "snd (RemoveIf A (\<lambda>_ v. pathAt A h v = None) this) = this"
    using RemoveIf_nothing [OF assms(1), of this "\<lambda>v. pathAt A h v = None"] assms(4) by blast
  then have "seqFinalize A this h = Some (Some r, clearPaths A rs (upd r (\<lambda>_. c) h))"
    using assms(2) s c by (simp add: seqFinalize_def)
  moreover have "distinct (r # rs)" "set (r # rs) = set this"
    using s assms(3) by (metis distinct_sortSeq, metis set_sortSeq)
  ultimately show ?thesis
    by (intro that [of "clearPaths A rs (upd r (\<lambda>_. c) h)"])
       (auto simp: s mergedCell_def c cellAt_clearPaths)
qed

text \<open>
  C23. Finalizing a non-empty sequence of live transitions either panics, exactly when applying
  the deltas reports an error, or leaves one live cell: the first in merge order now holds the
  merged state and keeps its path, all others have lost their path, and no other cell changes.
\<close>
theorem seqFinalize_merges:
  assumes "cell_law A" and "this \<noteq> []" and "distinct this"
    and "\<And>r. r \<in> set this \<Longrightarrow> pathAt A h r \<noteq> None"
  shows "if snd (mergedCell A h this) = None
    then \<exists>h'. seqFinalize A this h = Some (Some (hd (sortSeq A h this)), h') \<and>
      cellAt h' (hd (sortSeq A h this)) = fst (mergedCell A h this) \<and>
      filter (\<lambda>r. pathAt A h' r \<noteq> None) this = [hd (sortSeq A h this)] \<and>
      (\<forall>r. r \<notin> set this \<longrightarrow> cellAt h' r = cellAt h r)
    else seqFinalize A this h = None"
proof (cases "snd (mergedCell A h this) = None")
  case True
  let ?r = "hd (sortSeq A h this)"
  have mem: "?r \<in> set this"
    using sortSeq_ne [OF assms(2)] by (metis hd_in_set set_sortSeq)
  obtain h' where h': "seqFinalize A this h = Some (Some ?r, h')"
    "\<And>r. cellAt h' r = (if r = ?r then fst (mergedCell A h this)
       else if r \<in> set this then SetPath A None (cellAt h r) else cellAt h r)"
    using seqFinalize_live [OF assms True] by blast
  have live: "pathAt A h' r \<noteq> None \<longleftrightarrow> r = ?r" if "r \<in> set this" for r
    using that h'(2) [of r] assms(4) [OF mem] api_laws [OF assms(1)]
    by (auto simp: mergedCell_def cell_law_simps [OF assms(1)])
  then have "filter (\<lambda>r. pathAt A h' r \<noteq> None) this = filter (\<lambda>r. r = ?r) this"
    by (intro filter_cong) auto
  also have "\<dots> = [?r]" using assms(3) mem by (simp add: distinct_filter_eq)
  finally show ?thesis using True h' mem by auto
next
  case False
  obtain r rs where s: "sortSeq A h this = r # rs"
    using sortSeq_ne [OF assms(2)] by (cases "sortSeq A h this") auto
  have "snd (RemoveIf A (\<lambda>_ v. pathAt A h v = None) this) = this"
    using RemoveIf_nothing [OF assms(1), of this "\<lambda>v. pathAt A h v = None"] assms(4) by blast
  with False s assms(2) show ?thesis
    by (auto simp: seqFinalize_def mergedCell_def split: prod.split option.split)
qed

definition icellOf :: "string \<Rightarrow> u64 \<Rightarrow> int \<Rightarrow> icell" where
  "icellOf p t v = \<lparr>icPath = Some p, icTx = t, icValue = Some v, icSkip = False, icBlockBound = False\<rparr>"

text \<open>Three transitions of one path, imported as transactions 5, 2 and 7.\<close>

definition sampleHeap :: "icell heap" where
  "sampleHeap = \<lparr>cellAt = (\<lambda>r. icellOf ''a'' (if r = 2 then 5 else if r = 3 then 2 else 7) (int r + 10)),
     nextRef = 5\<rparr>"

theorem seqFinalize_merges_witness:
  "sortSeq int_api sampleHeap [2, 3, 4] = [3, 2, 4] \<and>
   (\<exists>h'. seqFinalize int_api [2, 3, 4] sampleHeap = Some (Some 3, h') \<and>
      cellAt h' 3 = icellOf ''a'' 2 39)"
proof -
  have ord: "sortSeq int_api sampleHeap [2, 3, 4] = [3, 2, 4]"
    by code_simp
  have merged: "mergedCell int_api sampleHeap [2, 3, 4] = (icellOf ''a'' 2 39, None)"
    unfolding mergedCell_def ord by (simp add: int_api_def icApply_def sampleHeap_def icellOf_def)
  show ?thesis
    using seqFinalize_merges [OF int_api_law, of "[2, 3, 4]" sampleHeap]
    unfolding ord merged by (auto simp: int_api_def sampleHeap_def icellOf_def)
qed

text \<open>Two SYSTEM transitions, imported first and third, between two others.\<close>

definition systemHeap :: "icell heap" where
  "systemHeap = \<lparr>cellAt = (\<lambda>r. icellOf ''a'' (if r = 2 \<or> r = 4 then SYSTEM else if r = 3 then 9 else 7) 0), nextRef = 6\<rparr>"

theorem sortSeq_order_witness: "sortSeq int_api systemHeap [2, 3, 4, 5] = [4, 2, 5, 3]"
proof -
  have "sortSeq int_api systemHeap [2, 3, 4, 5] =
     rev (filter (\<lambda>r. txAt int_api systemHeap r = SYSTEM) [2, 3, 4, 5]) @
     sort_key (txAt int_api systemHeap) (filter (\<lambda>r. txAt int_api systemHeap r \<noteq> SYSTEM) [2, 3, 4, 5])"
    by (rule sortSeq_order) simp
  also have "\<dots> = [4, 2, 5, 3]" by code_simp
  finally show ?thesis .
qed

end
