(* ===== verification/Indexers.thy ===== *)
theory Indexers
  imports DeltaSequences
begin

text \<open>
  \<open>src/state/committer/indexer.go\<close>: the two indexes the committer builds over imported
  transitions, by path and by transaction. Both are instances of common-lib's
  \<open>UnorderedIndexer\<close>, a parameter here (\<open>indexer_api\<close>) with its contract \<open>indexer_law\<close>:
  importing visits the transitions in order and initialises or extends the entry of their key,
  the parallel traversal visits every entry once in some order, clearing empties it. The closures
  may change cells and may panic, so they take and return the heap in an option.

  The lemmas say what an index holds after an import, and reduce a traversal whose closures
  touch disjoint sets of cells to a statement about single cells, whatever the order was.
\<close>

section \<open>The indexer library\<close>

record ('k, 'p, 'h) indexer_api =
  uiImport :: "('h \<Rightarrow> ref \<Rightarrow> ('k \<times> bool) option) \<Rightarrow>
     ('k \<Rightarrow> ref \<Rightarrow> 'h \<Rightarrow> ('p \<times> 'h) option) \<Rightarrow>
     ('k \<Rightarrow> ref \<Rightarrow> 'p \<Rightarrow> 'h \<Rightarrow> ('p \<times> 'h) option) \<Rightarrow>
     ref list \<Rightarrow> ('k \<rightharpoonup> 'p) \<times> 'h \<Rightarrow> (('k \<rightharpoonup> 'p) \<times> 'h) option"
  uiForeach :: "('k \<Rightarrow> 'p \<Rightarrow> 'h \<Rightarrow> ('p \<times> 'h) option) \<Rightarrow>
     ('k \<rightharpoonup> 'p) \<times> 'h \<Rightarrow> (('k \<rightharpoonup> 'p) \<times> 'h) option"
  uiValues :: "('k \<rightharpoonup> 'p) \<Rightarrow> 'p list"
  uiClear :: "('k \<rightharpoonup> 'p) \<Rightarrow> ('k \<rightharpoonup> 'p)"

fun importSpec where
  "importSpec key ini ext [] (m, h) = Some (m, h)"
| "importSpec key ini ext (t # ts) (m, h) = do {
     (k, ok) \<leftarrow> key h t;
     if \<not> ok then importSpec key ini ext ts (m, h)
     else case m k of
            None \<Rightarrow> do { (v, h') \<leftarrow> ini k t h; importSpec key ini ext ts (m(k \<mapsto> v), h') }
          | Some w \<Rightarrow> do { (v, h') \<leftarrow> ext k t w h; importSpec key ini ext ts (m(k \<mapsto> v), h') }
   }"

lemma importSpec_keeps:
  assumes "\<And>k t h v h'. ini k t h = Some (v, h') \<Longrightarrow> g h' = g h" "\<And>k t w h v h'. ext k t w h = Some (v, h') \<Longrightarrow> g h' = g h"
  shows "importSpec key ini ext ts (m, h) = Some (m', h') \<Longrightarrow> g h' = g h"
proof (induction ts arbitrary: m h)
  case (Cons t ts)
  then show ?case using assms by (force simp: bind_eq_Some_conv split: if_splits option.splits)
qed simp

fun foreachSpec where
  "foreachSpec f [] (m, h) = Some (m, h)"
| "foreachSpec f (k # ks) (m, h) = do {
     (v, h') \<leftarrow> f k (the (m k)) h;
     foreachSpec f ks (m(k \<mapsto> v), h')
   }"

definition indexer_law :: "('k, 'p, 'h) indexer_api \<Rightarrow> bool" where
  "indexer_law I \<longleftrightarrow>
     (\<forall>key ini ext ts mh. uiImport I key ini ext ts mh = importSpec key ini ext ts mh) \<and>
     (\<forall>f m h. finite (dom m) \<longrightarrow>
        (\<exists>ks. distinct ks \<and> set ks = dom m \<and> uiForeach I f (m, h) = foreachSpec f ks (m, h))) \<and>
     (\<forall>m. finite (dom m) \<longrightarrow>
        (\<exists>ks. distinct ks \<and> set ks = dom m \<and> uiValues I m = map (\<lambda>k. the (m k)) ks)) \<and>
     (\<forall>m. uiClear I m = Map.empty)"

lemma indexer_law_import: "indexer_law I \<Longrightarrow> uiImport I key ini ext ts mh = importSpec key ini ext ts mh"
proof -
  assume "indexer_law I"
  then have "\<forall>key ini ext ts mh. uiImport I key ini ext ts mh = importSpec key ini ext ts mh"
    unfolding indexer_law_def by (elim conjE) assumption
  then show ?thesis by (elim allE)
qed

lemma indexer_law_foreach:
  assumes "indexer_law I" "finite (dom m)"
  obtains ks where "distinct ks" "set ks = dom m" "uiForeach I f (m, h) = foreachSpec f ks (m, h)"
proof -
  have "\<forall>f m h. finite (dom m) \<longrightarrow>
      (\<exists>ks. distinct ks \<and> set ks = dom m \<and> uiForeach I f (m, h) = foreachSpec f ks (m, h))"
    using assms(1) by (simp add: indexer_law_def)
  with assms(2) that show thesis by metis
qed

lemma indexer_law_values:
  assumes "indexer_law I" "finite (dom m)"
  obtains ks where "distinct ks" "set ks = dom m" "uiValues I m = map (\<lambda>k. the (m k)) ks"
proof -
  have "\<forall>m. finite (dom m) \<longrightarrow>
      (\<exists>ks. distinct ks \<and> set ks = dom m \<and> uiValues I m = map (\<lambda>k. the (m k)) ks)"
    using assms(1) by (simp add: indexer_law_def)
  with assms(2) that show thesis by metis
qed

text \<open>A traversal that only rewrites the entries.\<close>

lemma foreachSpec_pure:
  "distinct ks \<Longrightarrow> (\<And>k p. f k p h = Some (g k p, h)) \<Longrightarrow>
   foreachSpec f ks (m, h) = Some (\<lambda>k. if k \<in> set ks then Some (g k (the (m k))) else m k, h)"
proof (induction ks arbitrary: m)
  case (Cons k ks)
  then have "foreachSpec f ks (m(k \<mapsto> g k (the (m k))), h) =
      Some (\<lambda>k'. if k' \<in> set ks then Some (g k' (the ((m(k \<mapsto> g k (the (m k)))) k'))) else (m(k \<mapsto> g k (the (m k)))) k', h)"
    by simp
  then show ?case using Cons.prems by (auto simp: fun_eq_iff)
qed simp

section \<open>The committer's indexes (indexer.go)\<close>

definition pathKey :: "('c, 'v) cell_api \<Rightarrow> 'c heap \<Rightarrow> ref \<Rightarrow> (string \<times> bool) option" where
  "pathKey A h v = (case pathAt A h v of None \<Rightarrow> None | Some p \<Rightarrow> Some (p, True))"

definition pathInit ::
  "('c, 'v) cell_api \<Rightarrow> string \<Rightarrow> ref \<Rightarrow> 'c heap \<Rightarrow> (ref list \<times> 'c heap) option" where
  "pathInit A k v h =
     (case valueAt A h v of
        None \<Rightarrow> Some ([v], h)
      | Some x \<Rightarrow>
          if isCRDT A x then Some ([v], upd v (SetValue A (Some (Preload A k x))) h) else None)"

definition appendRef :: "'k \<Rightarrow> ref \<Rightarrow> ref list \<Rightarrow> 'h \<Rightarrow> (ref list \<times> 'h) option" where
  "appendRef k v vals h = Some (vals @ [v], h)"

definition txKey :: "('c, 'v) cell_api \<Rightarrow> 'c heap \<Rightarrow> ref \<Rightarrow> (u64 \<times> bool) option" where
  "txKey A h v =
     (if \<not> IfSkipConflictCheck A (cellAt h v) then Some (txAt A h v, True)
      else Some (4294967295, False))"

definition txInit :: "u64 \<Rightarrow> ref \<Rightarrow> 'h \<Rightarrow> (ref list \<times> 'h) option" where
  "txInit k v h = Some ([v], h)"

definition PathIndexer_Import ::
  "('c, 'v) cell_api \<Rightarrow> (string, ref list, 'c heap) indexer_api \<Rightarrow> ref list \<Rightarrow>
   (string \<rightharpoonup> ref list) \<times> 'c heap \<Rightarrow> ((string \<rightharpoonup> ref list) \<times> 'c heap) option" where
  "PathIndexer_Import A I ts mh = uiImport I (pathKey A) (pathInit A) appendRef ts mh"

definition TxIndexer_Import ::
  "('c, 'v) cell_api \<Rightarrow> (u64, ref list, 'c heap) indexer_api \<Rightarrow> ref list \<Rightarrow>
   (u64 \<rightharpoonup> ref list) \<times> 'c heap \<Rightarrow> ((u64 \<rightharpoonup> ref list) \<times> 'c heap) option" where
  "TxIndexer_Import A I ts mh = uiImport I (txKey A) txInit appendRef ts mh"

section \<open>What an index holds\<close>

text \<open>The reference: the transitions grouped by a key, in import order.\<close>

definition groupBy :: "(ref \<Rightarrow> 'k option) \<Rightarrow> ref list \<Rightarrow> ('k \<rightharpoonup> ref list)" where
  "groupBy key ts k =
     (let g = filter (\<lambda>r. key r = Some k) ts in if g = [] then None else Some g)"

definition txKeyOf :: "('c, 'v) cell_api \<Rightarrow> 'c heap \<Rightarrow> ref \<Rightarrow> u64 option" where
  "txKeyOf A h r = (if IfSkipConflictCheck A (cellAt h r) then None else Some (txAt A h r))"

text \<open>Two heaps agree on everything but the values of the cells.\<close>

definition sameMeta :: "('c, 'v) cell_api \<Rightarrow> 'c heap \<Rightarrow> 'c heap \<Rightarrow> bool" where
  "sameMeta A h h' \<longleftrightarrow>
     (\<forall>r. pathAt A h' r = pathAt A h r \<and> txAt A h' r = txAt A h r \<and>
        IfSkipConflictCheck A (cellAt h' r) = IfSkipConflictCheck A (cellAt h r) \<and>
        IsBlockBound A (cellAt h' r) = IsBlockBound A (cellAt h r))"

lemma sameMeta_refl [simp]: "sameMeta A h h"
  by (simp add: sameMeta_def)

lemma sameMeta_sym: "sameMeta A h h' \<Longrightarrow> sameMeta A h' h"
  by (simp add: sameMeta_def)

lemma sameMeta_trans [trans]: "sameMeta A h h' \<Longrightarrow> sameMeta A h' h'' \<Longrightarrow> sameMeta A h h''"
  by (simp add: sameMeta_def)

lemma groupBy_Nil [simp]: "groupBy key [] = Map.empty"
  by (rule ext) (simp add: groupBy_def)

lemma groupBy_snoc:
  "groupBy key (ts @ [t]) =
     (case key t of None \<Rightarrow> groupBy key ts
      | Some k \<Rightarrow> (groupBy key ts)(k \<mapsto> (case groupBy key ts k of None \<Rightarrow> [t] | Some w \<Rightarrow> w @ [t])))"
  by (rule ext) (auto simp: groupBy_def Let_def split: option.split)

lemma groupBy_None_iff: "groupBy key ts k = None \<longleftrightarrow> (\<forall>r \<in> set ts. key r \<noteq> Some k)"
  by (auto simp: groupBy_def Let_def filter_empty_conv)

lemma dom_groupBy: "dom (groupBy key ts) = {k. \<exists>r \<in> set ts. key r = Some k}"
  by (auto simp: dom_def groupBy_None_iff)

lemma finite_dom_groupBy [simp]: "finite (dom (groupBy key ts))"
proof -
  have "dom (groupBy key ts) \<subseteq> (\<lambda>r. the (key r)) ` set ts"
    unfolding dom_groupBy by (auto simp: image_iff) (metis option.sel)
  then show ?thesis by (rule finite_subset) simp
qed

lemma the_groupBy:
  "k \<in> dom (groupBy key ts) \<Longrightarrow> the (groupBy key ts k) = filter (\<lambda>r. key r = Some k) ts"
  by (auto simp: groupBy_def Let_def split: if_splits)

lemma groupBy_cong: "(\<And>r. r \<in> set ts \<Longrightarrow> key r = key' r) \<Longrightarrow> groupBy key ts = groupBy key' ts"
  by (rule ext) (simp add: groupBy_def cong: filter_cong)

text \<open>Preloading keeps the metadata of every cell; it fails only on a raw value.\<close>

lemma pathInit_ok:
  assumes "cell_law A" "typedAt A h v"
  obtains h' where "pathInit A k v h = Some ([v], h')" "sameMeta A h h'" "typedAt A h' v"
    "\<And>r. r \<noteq> v \<Longrightarrow> cellAt h' r = cellAt h r"
proof (cases "valueAt A h v")
  case None
  then show ?thesis by (intro that [of h]) (auto simp: pathInit_def typedAt_def)
next
  case (Some x)
  then have "isCRDT A x" using assms(2) by (simp add: typedAt_def)
  moreover from this have "isCRDT A (Preload A k x)" using assms(1) by (simp add: cell_law_def)
  ultimately show ?thesis using Some
    by (intro that [of "upd v (SetValue A (Some (Preload A k x))) h"])
       (auto simp: pathInit_def sameMeta_def typedAt_def cell_law_simps [OF assms(1)])
qed

lemma PathIndexer_Import_groups:
  assumes "cell_law A" "indexer_law I" "distinct (ts0 @ ts)"
    and "\<And>r. r \<in> set ts \<Longrightarrow> pathAt A h r \<noteq> None"
    and "\<And>r. r \<in> set ts \<Longrightarrow> typedAt A h r"
  shows "\<exists>h'. PathIndexer_Import A I ts (groupBy (pathAt A h) ts0, h) =
      Some (groupBy (pathAt A h) (ts0 @ ts), h') \<and> sameMeta A h h' \<and>
      (\<forall>r \<in> set ts. typedAt A h' r) \<and> (\<forall>r. r \<notin> set ts \<longrightarrow> cellAt h' r = cellAt h r)"
proof -
  have "\<exists>h'. importSpec (pathKey A) (pathInit A) appendRef ts (groupBy (pathAt A h) ts0, h) =
      Some (groupBy (pathAt A h) (ts0 @ ts), h') \<and> sameMeta A h h' \<and>
      (\<forall>r \<in> set ts. typedAt A h' r) \<and> (\<forall>r. r \<notin> set ts \<longrightarrow> cellAt h' r = cellAt h r)"
    using assms(3-)
  proof (induction ts arbitrary: ts0 h)
    case Nil
    then show ?case by (intro exI [of _ h]) simp
  next
    case (Cons t ts)
    obtain p where p: "pathAt A h t = Some p" using Cons.prems(2) by fastforce
    obtain h1 where ini: "pathInit A p t h = Some ([t], h1)" "sameMeta A h h1" "typedAt A h1 t"
      "\<And>r. r \<noteq> t \<Longrightarrow> cellAt h1 r = cellAt h r"
      using pathInit_ok [OF assms(1), of h t p] Cons.prems(3) [of t] by auto
    define h2 where "h2 = (if groupBy (pathAt A h) ts0 p = None then h1 else h)"
    have meta: "sameMeta A h h2" and typed: "typedAt A h2 t" and frame: "\<And>r. r \<noteq> t \<Longrightarrow> cellAt h2 r = cellAt h r"
      using ini Cons.prems(3) [of t] by (auto simp: h2_def)
    have keys: "pathAt A h2 = pathAt A h" using meta by (auto simp: sameMeta_def)
    have step: "importSpec (pathKey A) (pathInit A) appendRef (t # ts) (groupBy (pathAt A h) ts0, h) =
        importSpec (pathKey A) (pathInit A) appendRef ts (groupBy (pathAt A h2) (ts0 @ [t]), h2)"
      unfolding keys groupBy_snoc p using p ini(1)
      by (cases "groupBy (pathAt A h) ts0 p") (simp_all add: pathKey_def appendRef_def h2_def)
    have vals: "cellAt h2 r = cellAt h r" if "r \<in> set ts" for r
      using that frame [of r] Cons.prems(1) by auto
    have "\<exists>h'. importSpec (pathKey A) (pathInit A) appendRef ts
          (groupBy (pathAt A h2) (ts0 @ [t]), h2) =
        Some (groupBy (pathAt A h2) ((ts0 @ [t]) @ ts), h') \<and> sameMeta A h2 h' \<and>
        (\<forall>r \<in> set ts. typedAt A h' r) \<and> (\<forall>r. r \<notin> set ts \<longrightarrow> cellAt h' r = cellAt h2 r)"
      using Cons.prems vals by (intro Cons.IH) (auto simp: typedAt_def)
    then obtain h' where h': "importSpec (pathKey A) (pathInit A) appendRef ts
          (groupBy (pathAt A h2) (ts0 @ [t]), h2) =
        Some (groupBy (pathAt A h2) ((ts0 @ [t]) @ ts), h')" "sameMeta A h2 h'"
        "\<forall>r \<in> set ts. typedAt A h' r" "\<forall>r. r \<notin> set ts \<longrightarrow> cellAt h' r = cellAt h2 r"
      by blast
    moreover have "typedAt A h' t" using h'(4) typed Cons.prems(1) by (simp add: typedAt_def)
    ultimately show ?case using step keys meta frame
      by (intro exI [of _ h']) (auto intro: sameMeta_trans)
  qed
  then show ?thesis using assms(2) by (simp add: PathIndexer_Import_def indexer_law_def)
qed

lemma TxIndexer_Import_groups:
  assumes "indexer_law I"
  shows "TxIndexer_Import A I ts (groupBy (txKeyOf A h) ts0, h) =
      Some (groupBy (txKeyOf A h) (ts0 @ ts), h)"
proof -
  have "importSpec (txKey A) txInit appendRef ts (groupBy (txKeyOf A h) ts0, h) =
      Some (groupBy (txKeyOf A h) (ts0 @ ts), h)"
  proof (induction ts arbitrary: ts0)
    case Nil
    then show ?case by simp
  next
    case (Cons t ts)
    have "importSpec (txKey A) txInit appendRef (t # ts) (groupBy (txKeyOf A h) ts0, h) =
        importSpec (txKey A) txInit appendRef ts (groupBy (txKeyOf A h) (ts0 @ [t]), h)"
      by (simp add: txKey_def txInit_def appendRef_def txKeyOf_def groupBy_snoc split: option.split)
    with Cons.IH [of "ts0 @ [t]"] show ?case by simp
  qed
  then show ?thesis using assms by (simp add: TxIndexer_Import_def indexer_law_def)
qed

section \<open>Traversals with disjoint footprints\<close>

lemma foreachSpec_pointwise:
  assumes "distinct ks"
    and "\<And>k k'. k \<in> set ks \<Longrightarrow> k' \<in> set ks \<Longrightarrow> k \<noteq> k' \<Longrightarrow> foot k \<inter> foot k' = {}"
    and "\<And>k h. k \<in> set ks \<Longrightarrow> (\<And>r. r \<in> foot k \<Longrightarrow> cellAt h r = orig r) \<Longrightarrow>
        \<exists>v h'. f k (the (morig k)) h = Some (v, h') \<and>
          (\<forall>r. cellAt h' r = (if r \<in> foot k then e k r else cellAt h r))"
    and "\<And>k r. k \<in> set ks \<Longrightarrow> r \<in> foot k \<Longrightarrow> cellAt h r = orig r"
    and "\<And>k. k \<in> set ks \<Longrightarrow> m k = morig k"
  shows "\<exists>m' h'. foreachSpec f ks (m, h) = Some (m', h') \<and>
    (\<forall>k \<in> set ks. \<forall>r \<in> foot k. cellAt h' r = e k r) \<and>
    (\<forall>r. (\<forall>k \<in> set ks. r \<notin> foot k) \<longrightarrow> cellAt h' r = cellAt h r)"
  using assms
proof (induction ks arbitrary: m h)
  case Nil
  then show ?case by simp
next
  case (Cons k ks)
  obtain v h1 where s: "f k (the (morig k)) h = Some (v, h1)"
    "\<And>r. cellAt h1 r = (if r \<in> foot k then e k r else cellAt h r)"
    using Cons.prems(3) [of k h] Cons.prems(4) [of k] by auto
  have fresh: "k \<notin> set ks" using Cons.prems(1) by simp
  have keep: "cellAt h1 r = orig r" if "k' \<in> set ks" "r \<in> foot k'" for k' r
    using that s(2) [of r] Cons.prems(2) [of k k'] Cons.prems(4) [of k' r] fresh by auto
  have "\<exists>m' h'. foreachSpec f ks (m(k \<mapsto> v), h1) = Some (m', h') \<and>
    (\<forall>k \<in> set ks. \<forall>r \<in> foot k. cellAt h' r = e k r) \<and>
    (\<forall>r. (\<forall>k \<in> set ks. r \<notin> foot k) \<longrightarrow> cellAt h' r = cellAt h1 r)"
  proof (rule Cons.IH)
    show "distinct ks" using Cons.prems(1) by simp
    show "foot a \<inter> foot b = {}" if "a \<in> set ks" "b \<in> set ks" "a \<noteq> b" for a b
      using that Cons.prems(2) by simp
    show "\<exists>v h'. f a (the (morig a)) g = Some (v, h') \<and>
        (\<forall>r. cellAt h' r = (if r \<in> foot a then e a r else cellAt g r))"
      if "a \<in> set ks" "\<And>r. r \<in> foot a \<Longrightarrow> cellAt g r = orig r" for a g
      using Cons.prems(3) [of a g] that by simp
    show "(m(k \<mapsto> v)) a = morig a" if "a \<in> set ks" for a
      using that Cons.prems(5) [of a] fresh by auto
  qed (rule keep)
  then obtain m' h' where ih: "foreachSpec f ks (m(k \<mapsto> v), h1) = Some (m', h')"
    "\<forall>k \<in> set ks. \<forall>r \<in> foot k. cellAt h' r = e k r"
    "\<forall>r. (\<forall>k \<in> set ks. r \<notin> foot k) \<longrightarrow> cellAt h' r = cellAt h1 r"
    by blast
  have "cellAt h' r = e k r" if "r \<in> foot k" for r
    using that ih(3) s(2) [of r] Cons.prems(2) [of k] fresh by (metis disjoint_iff list.set_intros)
  with ih s show ?case
    by (intro exI [of _ m'] exI [of _ h']) (auto simp: Cons.prems(5))
qed

lemma uiForeach_pointwise:
  assumes "indexer_law I" and "finite (dom m)"
    and "\<And>k k'. k \<in> dom m \<Longrightarrow> k' \<in> dom m \<Longrightarrow> k \<noteq> k' \<Longrightarrow> foot k \<inter> foot k' = {}"
    and "\<And>k h'. k \<in> dom m \<Longrightarrow> (\<And>r. r \<in> foot k \<Longrightarrow> cellAt h' r = cellAt h r) \<Longrightarrow>
        \<exists>v h''. f k (the (m k)) h' = Some (v, h'') \<and>
          (\<forall>r. cellAt h'' r = (if r \<in> foot k then e k r else cellAt h' r))"
  shows "\<exists>m' h'. uiForeach I f (m, h) = Some (m', h') \<and>
    (\<forall>k \<in> dom m. \<forall>r \<in> foot k. cellAt h' r = e k r) \<and>
    (\<forall>r. (\<forall>k \<in> dom m. r \<notin> foot k) \<longrightarrow> cellAt h' r = cellAt h r)"
proof -
  obtain ks where ks: "distinct ks" "set ks = dom m" "uiForeach I f (m, h) = foreachSpec f ks (m, h)"
    by (rule indexer_law_foreach [OF assms(1,2)])
  show ?thesis
    unfolding ks(3) ks(2) [symmetric]
    by (rule foreachSpec_pointwise [where orig = "cellAt h" and morig = m])
       (use ks(1,2) assms(3,4) in auto)
qed


section \<open>A concrete indexer\<close>

text \<open>The contract is satisfiable: an indexer that visits its entries in key order.\<close>

definition keyOrderIndexer :: "('k :: linorder, 'p, 'h) indexer_api" where
  "keyOrderIndexer = \<lparr>uiImport = importSpec,
     uiForeach = (\<lambda>f (m, h). foreachSpec f (sorted_list_of_set (dom m)) (m, h)),
     uiValues = (\<lambda>m. map (\<lambda>k. the (m k)) (sorted_list_of_set (dom m))),
     uiClear = (\<lambda>_. Map.empty)\<rparr>"

lemma keyOrderIndexer_law: "indexer_law (keyOrderIndexer :: ('k :: linorder, 'p, 'h) indexer_api)"
proof -
  have "\<exists>ks. distinct ks \<and> set ks = dom m \<and>
      foreachSpec f (sorted_list_of_set (dom m)) (m, h) = foreachSpec f ks (m, h)"
    if "finite (dom m)" for f :: "'k \<Rightarrow> 'p \<Rightarrow> 'h \<Rightarrow> ('p \<times> 'h) option" and m h
    using that by (intro exI [of _ "sorted_list_of_set (dom m)"]) simp
  moreover have "\<exists>ks. distinct ks \<and> set ks = dom m \<and>
      map (\<lambda>k. the (m k)) (sorted_list_of_set (dom m)) = map (\<lambda>k. the (m k)) ks"
    if "finite (dom m)" for m :: "'k \<rightharpoonup> 'p"
    using that by (intro exI [of _ "sorted_list_of_set (dom m)"]) simp
  ultimately show ?thesis by (simp add: indexer_law_def keyOrderIndexer_def)
qed

end
