(* ===== verification/Committer.thy ===== *)
theory Committer
  imports Indexers
begin

text \<open>
  \<open>src/state/committer/committer.go\<close>: the StateCommitter imports transitions into its two
  indexes and into every writer, reverts the transitions of transactions that are not on the
  whitelist by clearing their paths, merges the surviving transitions of every path into one
  cell, and drives the writers through the synchronous and asynchronous precommit and commit.
  All of this works on cells shared by pointer: the writers see a reverted or merged cell
  through its cleared path.

  A writer is a value of the type variable \<open>'w\<close> behind the Go interface \<open>StoreWriter\<close>, the record
  \<open>StoreWriter\<close>; the writer objects are addressed by number because \<open>writers\<close>, \<open>syncWriters\<close>
  and \<open>asyncWriters\<close> hold pointers to the same objects.
\<close>

section \<open>State and third-party helpers\<close>

record ('w, 'c) StoreWriter =
  wImport :: "ref list \<Rightarrow> 'c heap \<Rightarrow> 'w \<Rightarrow> ('w \<times> 'c heap) option"
  wPrecommit :: "bool \<Rightarrow> 'c heap \<Rightarrow> 'w \<Rightarrow> ('w \<times> err) option"
  wCommit :: "u64 \<Rightarrow> 'c heap \<Rightarrow> 'w \<Rightarrow> ('w \<times> err) option"
  wIsSync :: "'w \<Rightarrow> bool"
  wIsEth :: "'w \<Rightarrow> bool"
  wIsExec :: "'w \<Rightarrow> bool"

record 'w StateCommitter =
  wobj :: "nat \<Rightarrow> 'w"
  writers :: "nat list"
  syncWriters :: "nat list"
  asyncWriters :: "nat list"
  byPath :: "string \<rightharpoonup> ref list"
  byTxID :: "u64 \<rightharpoonup> ref list"

text \<open>
  \<open>MoveIf\<close> splits a slice in place: the moved elements, the rest, and what the old extent of
  the slice holds afterwards. \<open>ParallelForeach\<close> runs a closure on every element, in some order.
\<close>

record ('w, 'c, 'v) committer_lib =
  lCell :: "('c, 'v) cell_api"
  lByPath :: "(string, ref list, 'c heap) indexer_api"
  lByTx :: "(u64, ref list, 'c heap) indexer_api"
  FromSlice :: "u64 list \<Rightarrow> (u64 \<Rightarrow> bool) \<Rightarrow> (u64 \<rightharpoonup> bool)"
  MoveIf :: "(nat \<Rightarrow> bool) \<Rightarrow> nat list \<Rightarrow> nat list \<times> nat list \<times> nat list"
  ParallelForeach :: "(nat \<Rightarrow> (nat \<Rightarrow> 'w) \<Rightarrow> (nat \<Rightarrow> 'w) option) \<Rightarrow> nat list \<Rightarrow>
     (nat \<Rightarrow> 'w) \<Rightarrow> (nat \<Rightarrow> 'w) option"

fun foldM :: "('a \<Rightarrow> 's \<Rightarrow> 's option) \<Rightarrow> 'a list \<Rightarrow> 's \<Rightarrow> 's option" where
  "foldM f [] s = Some s"
| "foldM f (x # xs) s = do { s' \<leftarrow> f x s; foldM f xs s' }"

definition committer_law :: "('w, 'c, 'v) committer_lib \<Rightarrow> bool" where
  "committer_law L \<longleftrightarrow>
     cell_law (lCell L) \<and> indexer_law (lByPath L) \<and> indexer_law (lByTx L) \<and>
     (\<forall>xs f k. FromSlice L xs f k = (if k \<in> set xs then Some (f k) else None)) \<and>
     (\<forall>P xs. \<exists>old. MoveIf L P xs = (filter P xs, filter (\<lambda>x. \<not> P x) xs, old) \<and>
        length old = length xs) \<and>
     (\<forall>f xs s. \<exists>ys. mset ys = mset xs \<and> ParallelForeach L f xs s = foldM f ys s)"

text \<open>
  The committer keeps the slice of writers that it hands to \<open>slice.MoveIf\<close> by pointer. That \<open>MoveIf\<close> leaves the array of its
  argument as it was is an assumption of its own.
\<close>

definition moveif_keeps :: "('w, 'c, 'v) committer_lib \<Rightarrow> bool" where
  "moveif_keeps L \<longleftrightarrow> (\<forall>P xs. snd (snd (MoveIf L P xs)) = xs)"

section \<open>Operations (committer.go)\<close>

definition NewStateCommitter ::
  "('w, 'c, 'v) committer_lib \<Rightarrow> ('w, 'c) StoreWriter \<Rightarrow> nat list \<Rightarrow> (nat \<Rightarrow> 'w) \<Rightarrow>
   'w StateCommitter" where
  "NewStateCommitter L W ws objs =
     (let (sync, async, old) = MoveIf L (\<lambda>i. wIsSync W (objs i)) ws
      in \<lparr>wobj = objs, writers = old, syncWriters = sync, asyncWriters = async,
          byPath = Map.empty, byTxID = Map.empty\<rparr>)"

fun importWriters ::
  "('w, 'c) StoreWriter \<Rightarrow> ref list \<Rightarrow> nat list \<Rightarrow> (nat \<Rightarrow> 'w) \<times> 'c heap \<Rightarrow>
   ((nat \<Rightarrow> 'w) \<times> 'c heap) option" where
  "importWriters W ts [] s = Some s"
| "importWriters W ts (i # is) (objs, h) = do {
     (w, h') \<leftarrow> wImport W ts h (objs i);
     importWriters W ts is (objs(i := w), h')
   }"

definition Import ::
  "('w, 'c, 'v) committer_lib \<Rightarrow> ('w, 'c) StoreWriter \<Rightarrow> ref list \<Rightarrow>
   'w StateCommitter \<times> 'c heap \<Rightarrow> ('w StateCommitter \<times> 'c heap) option" where
  "Import L W transitions s = (case s of (this, h) \<Rightarrow> do {
     (bp, h1) \<leftarrow> PathIndexer_Import (lCell L) (lByPath L) transitions (byPath this, h);
     (bt, h2) \<leftarrow> TxIndexer_Import (lCell L) (lByTx L) transitions (byTxID this, h1);
     (objs, h3) \<leftarrow> importWriters W transitions (writers this) (wobj this, h2);
     Some (this\<lparr>byPath := bp, byTxID := bt, wobj := objs\<rparr>, h3)
   })"

definition whitelistDo ::
  "('c, 'v) cell_api \<Rightarrow> (u64 \<rightharpoonup> bool) \<Rightarrow> u64 \<Rightarrow> ref list \<Rightarrow> 'c heap \<Rightarrow> (ref list \<times> 'c heap) option" where
  "whitelistDo A dict txid vec h =
     (if dict txid = None then Some (vec, clearPaths A vec h) else Some (vec, h))"

definition whitelist ::
  "('w, 'c, 'v) committer_lib \<Rightarrow> u64 list \<Rightarrow> 'w StateCommitter \<times> 'c heap \<Rightarrow>
   ('w StateCommitter \<times> 'c heap) option" where
  "whitelist L txs s = (case s of (this, h) \<Rightarrow>
     if length txs = 0 then Some (this, h)
     else do {
       let dict = FromSlice L txs (\<lambda>_. True);
       (bt, h') \<leftarrow> uiForeach (lByTx L) (whitelistDo (lCell L) dict) (byTxID this, h);
       Some (this\<lparr>byTxID := bt\<rparr>, h')
     })"

definition finalizeDo ::
  "('c, 'v) cell_api \<Rightarrow> string \<Rightarrow> ref list \<Rightarrow> 'c heap \<Rightarrow> (ref list \<times> 'c heap) option" where
  "finalizeDo A p v h =
     (let v' = fst (RemoveIf A (\<lambda>_ r. pathAt A h r = None) v) in
      if length v' > 0
      then do { (_, h') \<leftarrow> seqFinalize A v' h; Some (sortSeq A h v', h') }
      else Some (v', h))"

definition Finalize ::
  "('w, 'c, 'v) committer_lib \<Rightarrow> u64 list \<Rightarrow> 'w StateCommitter \<times> 'c heap \<Rightarrow>
   ('w StateCommitter \<times> 'c heap) option" where
  "Finalize L txs s = do {
     (this, h) \<leftarrow> whitelist L txs s;
     (bp, h') \<leftarrow> uiForeach (lByPath L) (finalizeDo (lCell L)) (byPath this, h);
     Some (this\<lparr>byPath := uiClear (lByPath L) bp, byTxID := uiClear (lByTx L) (byTxID this)\<rparr>, h')
   }"

definition SyncPrecommit ::
  "('w, 'c, 'v) committer_lib \<Rightarrow> ('w, 'c) StoreWriter \<Rightarrow> 'c heap \<Rightarrow> 'w StateCommitter \<Rightarrow>
   'w StateCommitter option" where
  "SyncPrecommit L W h this = do {
     objs \<leftarrow> ParallelForeach L
       (\<lambda>i objs. if \<not> wIsEth W (objs i)
                 then do { (w, _) \<leftarrow> wPrecommit W True h (objs i); Some (objs(i := w)) }
                 else Some objs)
       (writers this) (wobj this);
     Some (this\<lparr>wobj := objs\<rparr>)
   }"

definition AsyncPrecommit ::
  "('w, 'c, 'v) committer_lib \<Rightarrow> ('w, 'c) StoreWriter \<Rightarrow> 'c heap \<Rightarrow> 'w StateCommitter \<Rightarrow>
   'w StateCommitter option" where
  "AsyncPrecommit L W h this = do {
     objs \<leftarrow> ParallelForeach L
       (\<lambda>i objs. if \<not> wIsExec W (objs i)
                 then do { (w, _) \<leftarrow> wPrecommit W False h (objs i); Some (objs(i := w)) }
                 else Some objs)
       (writers this) (wobj this);
     Some (this\<lparr>wobj := objs\<rparr>)
   }"

definition SyncCommit ::
  "('w, 'c, 'v) committer_lib \<Rightarrow> ('w, 'c) StoreWriter \<Rightarrow> u64 \<Rightarrow> 'c heap \<Rightarrow> 'w StateCommitter \<Rightarrow>
   'w StateCommitter option" where
  "SyncCommit L W blockNum h this = do {
     objs \<leftarrow> ParallelForeach L
       (\<lambda>i objs. do { (w, _) \<leftarrow> wCommit W blockNum h (objs i); Some (objs(i := w)) })
       (syncWriters this) (wobj this);
     Some (this\<lparr>wobj := objs\<rparr>)
   }"

definition AsyncCommit ::
  "('w, 'c, 'v) committer_lib \<Rightarrow> ('w, 'c) StoreWriter \<Rightarrow> u64 \<Rightarrow> 'c heap \<Rightarrow> 'w StateCommitter \<Rightarrow>
   'w StateCommitter option" where
  "AsyncCommit L W blockNum h this = do {
     objs \<leftarrow> ParallelForeach L
       (\<lambda>i objs. do { (w, _) \<leftarrow> wCommit W blockNum h (objs i); Some (objs(i := w)) })
       (asyncWriters this) (wobj this);
     Some (this\<lparr>wobj := objs\<rparr>)
   }"

definition DebugPrecommit ::
  "('w, 'c, 'v) committer_lib \<Rightarrow> ('w, 'c) StoreWriter \<Rightarrow> u64 list \<Rightarrow>
   'w StateCommitter \<times> 'c heap \<Rightarrow> ('w StateCommitter \<times> 'c heap) option" where
  "DebugPrecommit L W txs s = do {
     (this, h) \<leftarrow> Finalize L txs s;
     this \<leftarrow> SyncPrecommit L W h this;
     this \<leftarrow> AsyncPrecommit L W h this;
     Some (this, h)
   }"

definition DebugCommit ::
  "('w, 'c, 'v) committer_lib \<Rightarrow> ('w, 'c) StoreWriter \<Rightarrow> u64 \<Rightarrow> 'c heap \<Rightarrow> 'w StateCommitter \<Rightarrow>
   'w StateCommitter option" where
  "DebugCommit L W blockNum h this = do {
     this \<leftarrow> SyncCommit L W blockNum h this;
     AsyncCommit L W blockNum h this
   }"

section \<open>What Finalize leaves\<close>

text \<open>Kept transitions: exempt from the conflict check, or of a whitelisted transaction; an
  empty whitelist keeps everything.\<close>

definition kept :: "('c, 'v) cell_api \<Rightarrow> 'c heap \<Rightarrow> u64 list \<Rightarrow> ref \<Rightarrow> bool" where
  "kept A h txs r \<longleftrightarrow> txs = [] \<or> IfSkipConflictCheck A (cellAt h r) \<or> txAt A h r \<in> set txs"

definition survivors :: "('c, 'v) cell_api \<Rightarrow> 'c heap \<Rightarrow> u64 list \<Rightarrow> ref list \<Rightarrow> string \<Rightarrow> ref list" where
  "survivors A h txs ts p = filter (\<lambda>r. pathAt A h r = Some p \<and> kept A h txs r) ts"

text \<open>The committer's indexes describe the imported transitions \<open>ts\<close>.\<close>

definition indexed :: "('c, 'v) cell_api \<Rightarrow> ref list \<Rightarrow> 'w StateCommitter \<times> 'c heap \<Rightarrow> bool" where
  "indexed A ts s \<longleftrightarrow> (case s of (this, h) \<Rightarrow>
     distinct ts \<and> (\<forall>r \<in> set ts. pathAt A h r \<noteq> None) \<and>
     byPath this = groupBy (pathAt A h) ts \<and> byTxID this = groupBy (txKeyOf A h) ts)"

lemma whitelistDo_pointwise:
  assumes "distinct vec" "set vec = F" "\<And>r. r \<in> F \<Longrightarrow> cellAt h' r = cellAt h r"
  shows "\<exists>v h''. whitelistDo A dict k vec h' = Some (v, h'') \<and>
    (\<forall>r. cellAt h'' r = (if r \<in> F then (if dict k = None then SetPath A None (cellAt h r) else cellAt h r)
                         else cellAt h' r))"
  using assms by (auto simp: whitelistDo_def cellAt_clearPaths)

lemma whitelist_reverts:
  assumes law: "committer_law L" and idx: "indexed (lCell L) ts (this, h)"
  shows "\<exists>bt h'. whitelist L txs (this, h) = Some (this\<lparr>byTxID := bt\<rparr>, h') \<and>
    (\<forall>r. cellAt h' r = (if r \<in> set ts \<and> \<not> kept (lCell L) h txs r
                        then SetPath (lCell L) None (cellAt h r) else cellAt h r))"
proof (cases "txs = []")
  case True
  then show ?thesis
    by (intro exI [of _ "byTxID this"] exI [of _ h]) (simp add: whitelist_def kept_def)
next
  case False
  let ?A = "lCell L" and ?key = "txKeyOf (lCell L) h"
  let ?dict = "FromSlice L txs (\<lambda>_. True)"
  let ?foot = "\<lambda>k. {r \<in> set ts. ?key r = Some k}"
  let ?e = "\<lambda>k r. if ?dict k = None then SetPath ?A None (cellAt h r) else cellAt h r"
  have bt: "byTxID this = groupBy ?key ts" and dist: "distinct ts"
    using idx by (auto simp: indexed_def)
  have dict: "?dict k = None \<longleftrightarrow> k \<notin> set txs" for k
    using law by (simp add: committer_law_def)
  have "\<exists>m' h'. uiForeach (lByTx L) (whitelistDo ?A ?dict) (groupBy ?key ts, h) = Some (m', h') \<and>
    (\<forall>k \<in> dom (groupBy ?key ts). \<forall>r \<in> ?foot k. cellAt h' r = ?e k r) \<and>
    (\<forall>r. (\<forall>k \<in> dom (groupBy ?key ts). r \<notin> ?foot k) \<longrightarrow> cellAt h' r = cellAt h r)"
  proof (rule uiForeach_pointwise)
    show "indexer_law (lByTx L)" using law by (simp add: committer_law_def)
    show "\<exists>v h''. whitelistDo ?A ?dict k (the (groupBy ?key ts k)) h' = Some (v, h'') \<and>
        (\<forall>r. cellAt h'' r = (if r \<in> ?foot k then ?e k r else cellAt h' r))"
      if "k \<in> dom (groupBy ?key ts)" "\<And>r. r \<in> ?foot k \<Longrightarrow> cellAt h' r = cellAt h r" for k h'
      unfolding the_groupBy [OF that(1)]
      by (rule whitelistDo_pointwise) (use dist that(2) in auto)
  qed auto
  then obtain m' h' where fe: "uiForeach (lByTx L) (whitelistDo ?A ?dict) (groupBy ?key ts, h) = Some (m', h')"
    and inside: "\<And>k r. k \<in> dom (groupBy ?key ts) \<Longrightarrow> r \<in> ?foot k \<Longrightarrow> cellAt h' r = ?e k r"
    and outside: "\<And>r. (\<And>k. k \<in> dom (groupBy ?key ts) \<Longrightarrow> r \<notin> ?foot k) \<Longrightarrow> cellAt h' r = cellAt h r"
    by blast
  have cells: "cellAt h' r = (if r \<in> set ts \<and> \<not> kept ?A h txs r
                        then SetPath ?A None (cellAt h r) else cellAt h r)" for r
  proof (cases "r \<in> set ts \<and> \<not> IfSkipConflictCheck ?A (cellAt h r)")
    case True
    then have "?key r = Some (txAt ?A h r)" by (simp add: txKeyOf_def)
    moreover from this have "txAt ?A h r \<in> dom (groupBy ?key ts)"
      using True by (auto simp: dom_groupBy)
    ultimately have "cellAt h' r = ?e (txAt ?A h r) r" using inside True by blast
    with True False show ?thesis by (simp add: dict kept_def)
  next
    case none: False
    then have "cellAt h' r = cellAt h r" by (intro outside) (auto simp: txKeyOf_def)
    with none show ?thesis by (auto simp: kept_def)
  qed
  with fe False bt show ?thesis
    by (intro exI [of _ m'] exI [of _ h']) (simp add: whitelist_def)
qed


text \<open>The state of one group after merging, cell by cell.\<close>

definition mergeEffect :: "('c, 'v) cell_api \<Rightarrow> 'c heap \<Rightarrow> ref list \<Rightarrow> ref \<Rightarrow> 'c" where
  "mergeEffect A h g r =
     (let live = filter (\<lambda>r. pathAt A h r \<noteq> None) g in
      if live = [] then cellAt h r
      else if r = hd (sortSeq A h live) then fst (mergedCell A h live)
      else if r \<in> set live then SetPath A None (cellAt h r)
      else cellAt h r)"

lemma finalizeDo_pointwise:
  assumes law: "cell_law A" and g: "distinct g" "set g = F"
    and agree: "\<And>r. r \<in> F \<Longrightarrow> cellAt h' r = cellAt h r"
    and ok: "filter (\<lambda>r. pathAt A h r \<noteq> None) g \<noteq> [] \<Longrightarrow>
        snd (mergedCell A h (filter (\<lambda>r. pathAt A h r \<noteq> None) g)) = None"
  shows "\<exists>v h''. finalizeDo A p g h' = Some (v, h'') \<and>
    (\<forall>r. cellAt h'' r = (if r \<in> F then mergeEffect A h g r else cellAt h' r))"
proof -
  let ?live = "filter (\<lambda>r. pathAt A h r \<noteq> None) g"
  have live: "filter (\<lambda>r. pathAt A h' r \<noteq> None) g = ?live"
    using agree g(2) by (intro filter_cong) auto
  show ?thesis
  proof (cases "?live = []")
    case True
    then show ?thesis using agree live
      by (intro exI [of _ "[]"] exI [of _ h'])
         (auto simp: finalizeDo_def mergeEffect_def cell_law_simps [OF law])
  next
    case False
    have cells: "cellAt h' r = cellAt h r" if "r \<in> set ?live" for r using that agree g(2) by auto
    have same: "sortSeq A h' ?live = sortSeq A h ?live" "mergedCell A h' ?live = mergedCell A h ?live"
      using sortSeq_cong [of ?live h' h] mergedCell_cong [of ?live h' h] cells False by auto
    have head: "hd (sortSeq A h ?live) \<in> set ?live"
      using sortSeq_ne [OF False] by (metis hd_in_set set_sortSeq)
    have paths: "pathAt A h' r \<noteq> None" if "r \<in> set ?live" for r using cells [OF that] that by simp
    have dist: "distinct ?live" using g(1) by simp
    have noerr: "snd (mergedCell A h' ?live) = None" using same ok [OF False] by simp
    obtain h'' where h'': "seqFinalize A ?live h' = Some (Some (hd (sortSeq A h ?live)), h'')"
      "\<And>r. cellAt h'' r = (if r = hd (sortSeq A h ?live) then fst (mergedCell A h ?live)
        else if r \<in> set ?live then SetPath A None (cellAt h' r) else cellAt h' r)"
      using seqFinalize_live [OF law False dist paths noerr, unfolded same] by blast
    have "cellAt h'' r = (if r \<in> F then mergeEffect A h g r else cellAt h' r)" for r
      using h''(2) [of r] head agree [of r] g(2) False by (auto simp: mergeEffect_def Let_def)
    then show ?thesis using h''(1) live False
      by (auto simp: finalizeDo_def cell_law_simps [OF law])
  qed
qed

lemma Finalize_pointwise:
  assumes law: "committer_law L" and idx: "indexed (lCell L) ts (this, h)"
    and ok: "\<And>p. survivors (lCell L) h txs ts p \<noteq> [] \<Longrightarrow>
        snd (mergedCell (lCell L) h (survivors (lCell L) h txs ts p)) = None"
  shows "\<exists>h'. Finalize L txs (this, h) =
      Some (this\<lparr>byPath := Map.empty, byTxID := Map.empty\<rparr>, h') \<and>
    (\<forall>r. r \<notin> set ts \<longrightarrow> cellAt h' r = cellAt h r) \<and>
    (\<forall>p. \<forall>r \<in> set ts. pathAt (lCell L) h r = Some p \<longrightarrow>
       cellAt h' r =
         (if \<not> kept (lCell L) h txs r then SetPath (lCell L) None (cellAt h r)
          else if r = hd (sortSeq (lCell L) h (survivors (lCell L) h txs ts p))
          then fst (mergedCell (lCell L) h (survivors (lCell L) h txs ts p))
          else SetPath (lCell L) None (cellAt h r)))"
proof -
  let ?A = "lCell L" and ?m = "groupBy (pathAt (lCell L) h) ts"
  have cl: "cell_law ?A" using law by (simp add: committer_law_def)
  note laws = cell_law_simps [OF cl]
  have bp: "byPath this = ?m" and dist: "distinct ts" and paths: "\<And>r. r \<in> set ts \<Longrightarrow> pathAt ?A h r \<noteq> None"
    using idx by (auto simp: indexed_def)
  obtain bt h1 where wl: "whitelist L txs (this, h) = Some (this\<lparr>byTxID := bt\<rparr>, h1)"
    and c1: "\<And>r. cellAt h1 r = (if r \<in> set ts \<and> \<not> kept ?A h txs r
        then SetPath ?A None (cellAt h r) else cellAt h r)"
    using whitelist_reverts [OF law idx, of txs] by blast
  let ?g = "\<lambda>p. filter (\<lambda>r. pathAt ?A h r = Some p) ts"
  have live: "filter (\<lambda>r. pathAt ?A h1 r \<noteq> None) (?g p) = survivors ?A h txs ts p" for p
    using c1 paths unfolding survivors_def filter_filter by (intro filter_cong) (auto simp: laws)
  have srt: "sortSeq ?A h1 (survivors ?A h txs ts p) = sortSeq ?A h (survivors ?A h txs ts p)" for p
    by (rule sortSeq_cong) (auto simp: c1 survivors_def)
  have mrg: "mergedCell ?A h1 (survivors ?A h txs ts p) = mergedCell ?A h (survivors ?A h txs ts p)"
    if "survivors ?A h txs ts p \<noteq> []" for p
    using that by (intro mergedCell_cong) (auto simp: c1 survivors_def)
  have "\<exists>m' h'. uiForeach (lByPath L) (finalizeDo ?A) (?m, h1) = Some (m', h') \<and>
    (\<forall>p \<in> dom ?m. \<forall>r \<in> set (?g p). cellAt h' r = mergeEffect ?A h1 (?g p) r) \<and>
    (\<forall>r. (\<forall>p \<in> dom ?m. r \<notin> set (?g p)) \<longrightarrow> cellAt h' r = cellAt h1 r)"
  proof (rule uiForeach_pointwise)
    show "indexer_law (lByPath L)" using law by (simp add: committer_law_def)
    show "\<exists>v h''. finalizeDo ?A p (the (?m p)) h' = Some (v, h'') \<and>
        (\<forall>r. cellAt h'' r = (if r \<in> set (?g p) then mergeEffect ?A h1 (?g p) r else cellAt h' r))"
      if "p \<in> dom ?m" "\<And>r. r \<in> set (?g p) \<Longrightarrow> cellAt h' r = cellAt h1 r" for p h'
      unfolding the_groupBy [OF that(1)]
    proof (rule finalizeDo_pointwise [OF cl])
      show "snd (mergedCell ?A h1 (filter (\<lambda>r. pathAt ?A h1 r \<noteq> None) (?g p))) = None"
        if "filter (\<lambda>r. pathAt ?A h1 r \<noteq> None) (?g p) \<noteq> []"
        using that ok [of p] mrg [of p] unfolding live by simp
    qed (use dist that(2) in auto)
  qed auto
  then obtain m' h' where fe: "uiForeach (lByPath L) (finalizeDo ?A) (?m, h1) = Some (m', h')"
    and inside: "\<And>p r. p \<in> dom ?m \<Longrightarrow> r \<in> set (?g p) \<Longrightarrow> cellAt h' r = mergeEffect ?A h1 (?g p) r"
    and outside: "\<And>r. (\<And>p. p \<in> dom ?m \<Longrightarrow> r \<notin> set (?g p)) \<Longrightarrow> cellAt h' r = cellAt h1 r"
    by blast
  have fin: "Finalize L txs (this, h) = Some (this\<lparr>byPath := Map.empty, byTxID := Map.empty\<rparr>, h')"
    using wl fe bp law by (simp add: Finalize_def committer_law_def indexer_law_def)
  have out: "cellAt h' r = cellAt h r" if "r \<notin> set ts" for r
    using outside [of r] c1 [of r] that by auto
  have cells: "cellAt h' r =
         (if \<not> kept ?A h txs r then SetPath ?A None (cellAt h r)
          else if r = hd (sortSeq ?A h (survivors ?A h txs ts p))
          then fst (mergedCell ?A h (survivors ?A h txs ts p))
          else SetPath ?A None (cellAt h r))" if r: "r \<in> set ts" "pathAt ?A h r = Some p" for r p
  proof -
    let ?S = "survivors ?A h txs ts p"
    have "p \<in> dom ?m" using r by (auto simp: dom_groupBy)
    then have "cellAt h' r = mergeEffect ?A h1 (?g p) r" using r by (intro inside) auto
    then have eff: "cellAt h' r = (if ?S = [] then cellAt h1 r
        else if r = hd (sortSeq ?A h ?S) then fst (mergedCell ?A h1 ?S)
        else if r \<in> set ?S then SetPath ?A None (cellAt h1 r) else cellAt h1 r)"
      unfolding mergeEffect_def live Let_def srt .
    have mem: "r \<in> set ?S \<longleftrightarrow> kept ?A h txs r" using r by (auto simp: survivors_def)
    show ?thesis
    proof (cases "?S = []")
      case True
      then show ?thesis using eff mem c1 [of r] r by simp
    next
      case False
      have "hd (sortSeq ?A h ?S) \<in> set ?S" using sortSeq_ne [OF False] by (metis hd_in_set set_sortSeq)
      then have "kept ?A h txs (hd (sortSeq ?A h ?S))" by (auto simp: survivors_def)
      then show ?thesis using eff mem c1 [of r] r False
        by (auto simp: mrg)
    qed
  qed
  show ?thesis using fin out cells by blast
qed


lemma Finalize_live_refs:
  assumes law: "committer_law L" and idx: "indexed (lCell L) ts (this, h)"
    and cells: "\<forall>p. \<forall>r \<in> set ts. pathAt (lCell L) h r = Some p \<longrightarrow>
       cellAt h' r =
         (if \<not> kept (lCell L) h txs r then SetPath (lCell L) None (cellAt h r)
          else if r = hd (sortSeq (lCell L) h (survivors (lCell L) h txs ts p))
          then fst (mergedCell (lCell L) h (survivors (lCell L) h txs ts p))
          else SetPath (lCell L) None (cellAt h r))"
  shows "filter (\<lambda>r. pathAt (lCell L) h' r = Some p) ts =
    (let g = survivors (lCell L) h txs ts p in
     if g = [] then [] else [hd (sortSeq (lCell L) h g)])"
proof -
  let ?A = "lCell L" and ?S = "\<lambda>p. survivors (lCell L) h txs ts p"
  have cl: "cell_law ?A" using law by (simp add: committer_law_def)
  have dist: "distinct ts" and paths: "\<And>r. r \<in> set ts \<Longrightarrow> pathAt ?A h r \<noteq> None"
    using idx by (auto simp: indexed_def)
  have head: "hd (sortSeq ?A h (?S q)) \<in> set (?S q)" if "?S q \<noteq> []" for q
    using sortSeq_ne [OF that] by (metis hd_in_set set_sortSeq)
  have live: "pathAt ?A h' r = Some p \<longleftrightarrow> ?S p \<noteq> [] \<and> r = hd (sortSeq ?A h (?S p))"
    if r: "r \<in> set ts" for r
  proof -
    obtain q where q: "pathAt ?A h r = Some q" using paths [OF r] by blast
    have mem: "r \<in> set (?S q) \<longleftrightarrow> kept ?A h txs r" using r q by (auto simp: survivors_def)
    have mp: "GetPath ?A (fst (mergedCell ?A h (?S q))) = Some q" if "r \<in> set (?S q)"
    proof -
      have "?S q \<noteq> []" using that by auto
      from head [OF this] show ?thesis
        by (simp add: mergedCell_def cell_law_simps [OF cl] survivors_def)
    qed
    have "pathAt ?A h' r = Some p \<longleftrightarrow> q = p \<and> r \<in> set (?S q) \<and> r = hd (sortSeq ?A h (?S q))"
      using cells r q mp mem by (auto simp: cell_law_simps [OF cl])
    moreover have "q = p \<and> r \<in> set (?S q)" if "?S p \<noteq> []" "r = hd (sortSeq ?A h (?S p))"
      using head [OF that(1)] that(2) q by (auto simp: survivors_def)
    ultimately show ?thesis by auto
  qed
  show ?thesis
  proof (cases "?S p = []")
    case True
    then show ?thesis using live by (auto simp: filter_empty_conv)
  next
    case False
    have "filter (\<lambda>r. pathAt ?A h' r = Some p) ts = filter (\<lambda>r. r = hd (sortSeq ?A h (?S p))) ts"
      using live False by (intro filter_cong) auto
    also have "\<dots> = [hd (sortSeq ?A h (?S p))]"
      using head [OF False] dist by (intro distinct_filter_eq) (auto simp: survivors_def)
    finally show ?thesis using False by simp
  qed
qed

text \<open>
  C2. Finalizing a generation. If the committer's indexes describe the imported transitions and
  merging reports no error, \<open>Finalize\<close> succeeds whatever order the parallel traversals take, and
  for every path at most one of the imported cells stays live: the first, in merge order, of the
  transitions of that path that belong to whitelisted transactions or are exempt from the
  conflict check, and it holds the merge of exactly those. Cells that were not imported are
  untouched and both indexes are empty again.
\<close>
theorem Finalize_one_cell_per_path:
  assumes "committer_law L" and "indexed (lCell L) ts (this, h)"
    and "\<And>p. survivors (lCell L) h txs ts p \<noteq> [] \<Longrightarrow>
        snd (mergedCell (lCell L) h (survivors (lCell L) h txs ts p)) = None"
  shows "\<exists>h'. Finalize L txs (this, h) =
      Some (this\<lparr>byPath := Map.empty, byTxID := Map.empty\<rparr>, h') \<and>
    (\<forall>r. r \<notin> set ts \<longrightarrow> cellAt h' r = cellAt h r) \<and>
    (\<forall>p. filter (\<lambda>r. pathAt (lCell L) h' r = Some p) ts =
       (let g = survivors (lCell L) h txs ts p in
        if g = [] then [] else [hd (sortSeq (lCell L) h g)])) \<and>
    (\<forall>p. survivors (lCell L) h txs ts p \<noteq> [] \<longrightarrow>
       cellAt h' (hd (sortSeq (lCell L) h (survivors (lCell L) h txs ts p))) =
         fst (mergedCell (lCell L) h (survivors (lCell L) h txs ts p)))"
proof -
  let ?A = "lCell L" and ?S = "\<lambda>p. survivors (lCell L) h txs ts p"
  obtain h' where fin: "Finalize L txs (this, h) =
      Some (this\<lparr>byPath := Map.empty, byTxID := Map.empty\<rparr>, h')"
    and out: "\<forall>r. r \<notin> set ts \<longrightarrow> cellAt h' r = cellAt h r"
    and cells: "\<forall>p. \<forall>r \<in> set ts. pathAt ?A h r = Some p \<longrightarrow>
       cellAt h' r = (if \<not> kept ?A h txs r then SetPath ?A None (cellAt h r)
          else if r = hd (sortSeq ?A h (?S p)) then fst (mergedCell ?A h (?S p))
          else SetPath ?A None (cellAt h r))"
    using Finalize_pointwise [OF assms] by blast
  have "cellAt h' (hd (sortSeq ?A h (?S p))) = fst (mergedCell ?A h (?S p))" if "?S p \<noteq> []" for p
  proof -
    have "hd (sortSeq ?A h (?S p)) \<in> set (?S p)"
      using sortSeq_ne [OF that] by (metis hd_in_set set_sortSeq)
    then show ?thesis using cells by (auto simp: survivors_def)
  qed
  then show ?thesis using fin out Finalize_live_refs [OF assms(1,2) cells] by blast
qed


text \<open>The helpers run their loops one element after the other.\<close>

definition seq_lib :: "('c, 'v) cell_api \<Rightarrow> ('w, 'c, 'v) committer_lib" where
  "seq_lib A = \<lparr>lCell = A, lByPath = keyOrderIndexer, lByTx = keyOrderIndexer,
     FromSlice = (\<lambda>xs f k. if k \<in> set xs then Some (f k) else None),
     MoveIf = (\<lambda>P xs. (filter P xs, filter (\<lambda>x. \<not> P x) xs, xs)),
     ParallelForeach = foldM\<rparr>"

lemma seq_lib_sel [simp]: "lCell (seq_lib A) = A"
  by (simp add: seq_lib_def)

lemma seq_lib_law: "cell_law A \<Longrightarrow> committer_law (seq_lib A)"
  by (auto simp: committer_law_def seq_lib_def keyOrderIndexer_law)

abbreviation int_lib :: "('w, icell, int) committer_lib" where
  "int_lib \<equiv> seq_lib int_api"

lemmas int_lib_law = seq_lib_law [OF int_api_law]

text \<open>A committer whose indexes describe the given transitions.\<close>

definition sampleCommitter :: "ref list \<Rightarrow> icell heap \<Rightarrow> unit StateCommitter" where
  "sampleCommitter ts h = \<lparr>wobj = (\<lambda>_. ()), writers = [], syncWriters = [], asyncWriters = [],
     byPath = groupBy (pathAt int_api h) ts, byTxID = groupBy (txKeyOf int_api h) ts\<rparr>"

text \<open>Transactions 5 and 2 are whitelisted, transaction 7 is reverted.\<close>

theorem Finalize_one_cell_per_path_witness:
  "\<exists>h'. Finalize int_lib [5, 2] (sampleCommitter [2, 3, 4] sampleHeap, sampleHeap) =
      Some ((sampleCommitter [2, 3, 4] sampleHeap)\<lparr>byPath := Map.empty, byTxID := Map.empty\<rparr>, h') \<and>
    filter (\<lambda>r. pathAt int_api h' r = Some ''a'') [2, 3, 4] = [3] \<and> cellAt h' 3 = icellOf ''a'' 2 25"
proof -
  have lib: "lCell int_lib = int_api" by (simp add: seq_lib_def)
  have idx: "indexed (lCell int_lib) [2, 3, 4] (sampleCommitter [2, 3, 4] sampleHeap, sampleHeap)"
    by (simp add: indexed_def sampleCommitter_def lib) (simp add: int_api_def sampleHeap_def icellOf_def)
  have sa: "survivors int_api sampleHeap [5, 2] [2, 3, 4] ''a'' = [2, 3]" by code_simp
  have srt: "sortSeq int_api sampleHeap [2, 3] = [3, 2]" by code_simp
  have mrg: "mergedCell int_api sampleHeap [2, 3] = (icellOf ''a'' 2 25, None)"
    unfolding mergedCell_def srt by (simp add: int_api_def icApply_def sampleHeap_def icellOf_def)
  have ok: "snd (mergedCell (lCell int_lib) sampleHeap g) = None" for g
    by (simp add: lib mergedCell_def) (simp add: int_api_def icApply_def)
  obtain h' where h': "Finalize int_lib [5, 2] (sampleCommitter [2, 3, 4] sampleHeap, sampleHeap) =
      Some ((sampleCommitter [2, 3, 4] sampleHeap)\<lparr>byPath := Map.empty, byTxID := Map.empty\<rparr>, h')"
    "\<forall>p. filter (\<lambda>r. pathAt int_api h' r = Some p) [2, 3, 4] =
       (let g = survivors int_api sampleHeap [5, 2] [2, 3, 4] p in
        if g = [] then [] else [hd (sortSeq int_api sampleHeap g)])"
    "\<forall>p. survivors int_api sampleHeap [5, 2] [2, 3, 4] p \<noteq> [] \<longrightarrow>
       cellAt h' (hd (sortSeq int_api sampleHeap (survivors int_api sampleHeap [5, 2] [2, 3, 4] p))) =
         fst (mergedCell int_api sampleHeap (survivors int_api sampleHeap [5, 2] [2, 3, 4] p))"
    using Finalize_one_cell_per_path [OF int_lib_law idx ok, of "[5, 2]"] unfolding lib by blast
  have "filter (\<lambda>r. pathAt int_api h' r = Some ''a'') [2, 3, 4] = [3]"
    using spec [OF h'(2), of "''a''"] unfolding sa by (simp only: srt Let_def) simp
  moreover have "cellAt h' 3 = icellOf ''a'' 2 25"
    using spec [OF h'(3), of "''a''"] unfolding sa srt mrg by simp
  ultimately show ?thesis using h'(1) by blast
qed

section \<open>Import\<close>

text \<open>The two indexes are filled before the writers see the transitions.\<close>

lemma Import_run:
  assumes "committer_law L" and "indexed (lCell L) ts0 (this, h)"
    and "distinct (ts0 @ ts)"
    and "\<And>r. r \<in> set ts \<Longrightarrow> pathAt (lCell L) h r \<noteq> None"
    and "\<And>r. r \<in> set ts \<Longrightarrow> typedAt (lCell L) h r"
  obtains h1 where "sameMeta (lCell L) h h1" "\<forall>r \<in> set ts. typedAt (lCell L) h1 r"
    "\<forall>r. r \<notin> set ts \<longrightarrow> cellAt h1 r = cellAt h r"
    "Import L W ts (this, h) = do {
       (objs, h3) \<leftarrow> importWriters W ts (writers this) (wobj this, h1);
       Some (this\<lparr>byPath := groupBy (pathAt (lCell L) h) (ts0 @ ts),
                  byTxID := groupBy (txKeyOf (lCell L) h) (ts0 @ ts), wobj := objs\<rparr>, h3) }"
proof -
  let ?A = "lCell L"
  have laws: "cell_law ?A" "indexer_law (lByPath L)" "indexer_law (lByTx L)"
    using assms(1) by (auto simp: committer_law_def)
  have ix: "byPath this = groupBy (pathAt ?A h) ts0" "byTxID this = groupBy (txKeyOf ?A h) ts0"
    using assms(2) by (auto simp: indexed_def)
  obtain h1 where p: "PathIndexer_Import ?A (lByPath L) ts (byPath this, h) =
      Some (groupBy (pathAt ?A h) (ts0 @ ts), h1)" "sameMeta ?A h h1" "\<forall>r \<in> set ts. typedAt ?A h1 r"
    "\<forall>r. r \<notin> set ts \<longrightarrow> cellAt h1 r = cellAt h r"
    using PathIndexer_Import_groups [OF laws(1,2) assms(3-5)] unfolding ix by blast
  have keys: "txKeyOf ?A h1 = txKeyOf ?A h"
    using p(2) by (auto simp: sameMeta_def txKeyOf_def)
  have t: "TxIndexer_Import ?A (lByTx L) ts (byTxID this, h1) = Some (groupBy (txKeyOf ?A h) (ts0 @ ts), h1)"
    using TxIndexer_Import_groups [OF laws(3), of ?A ts h1 ts0] unfolding ix keys .
  show ?thesis using p(2-4) by (intro that [of h1]) (simp_all add: Import_def p(1) t)
qed

lemma indexed_cong:
  "sameMeta A h h' \<Longrightarrow> byPath this = groupBy (pathAt A h) ts \<Longrightarrow> byTxID this = groupBy (txKeyOf A h) ts \<Longrightarrow>
   distinct ts \<Longrightarrow> (\<And>r. r \<in> set ts \<Longrightarrow> pathAt A h r \<noteq> None) \<Longrightarrow> indexed A ts (this, h')"
proof -
  assume a: "sameMeta A h h'" "byPath this = groupBy (pathAt A h) ts" "byTxID this = groupBy (txKeyOf A h) ts"
    "distinct ts" "\<And>r. r \<in> set ts \<Longrightarrow> pathAt A h r \<noteq> None"
  then have "pathAt A h' = pathAt A h" "txKeyOf A h' = txKeyOf A h" "\<And>r. pathAt A h' r = pathAt A h r"
    by (auto simp: sameMeta_def txKeyOf_def)
  then show ?thesis using a by (simp add: indexed_def)
qed

text \<open>
  C7. The indexes of the committer. Importing transitions that carry paths and typed values panics exactly when the
  import of some writer does, for whatever writers there are. Before the writers see the transitions, the two indexes
  describe exactly what has been imported so far, grouped by path and by transaction in import order, no cell's path,
  transaction or flag has changed and the values are still typed; and if the writers leave paths, transactions and flags
  alone, the indexes describe it afterwards as well. Transitions exempt from the conflict check appear in the
  index by path only.
\<close>
theorem Import_indexes:
  assumes "committer_law L" and "indexed (lCell L) ts0 (this, h)" and "distinct (ts0 @ ts)"
    and "\<And>r. r \<in> set ts \<Longrightarrow> pathAt (lCell L) h r \<noteq> None"
    and "\<And>r. r \<in> set ts \<Longrightarrow> typedAt (lCell L) h r"
  shows "\<exists>h1. sameMeta (lCell L) h h1 \<and> (\<forall>r \<in> set ts. typedAt (lCell L) h1 r) \<and>
    (\<forall>r. r \<notin> set ts \<longrightarrow> cellAt h1 r = cellAt h r) \<and>
    (case importWriters W ts (writers this) (wobj this, h1) of
       None \<Rightarrow> Import L W ts (this, h) = None
     | Some (objs, h3) \<Rightarrow> \<exists>this'. Import L W ts (this, h) = Some (this', h3) \<and> wobj this' = objs \<and> writers this' = writers this \<and>
         syncWriters this' = syncWriters this \<and> asyncWriters this' = asyncWriters this \<and>
         indexed (lCell L) (ts0 @ ts) (this', h1) \<and> (sameMeta (lCell L) h1 h3 \<longrightarrow> indexed (lCell L) (ts0 @ ts) (this', h3)))"
proof -
  let ?A = "lCell L"
  obtain h1 where 1: "sameMeta ?A h h1" "\<forall>r \<in> set ts. typedAt ?A h1 r"
    "\<forall>r. r \<notin> set ts \<longrightarrow> cellAt h1 r = cellAt h r"
    "Import L W ts (this, h) = do {
       (objs, h3) \<leftarrow> importWriters W ts (writers this) (wobj this, h1);
       Some (this\<lparr>byPath := groupBy (pathAt ?A h) (ts0 @ ts),
                  byTxID := groupBy (txKeyOf ?A h) (ts0 @ ts), wobj := objs\<rparr>, h3) }"
    by (rule Import_run [OF assms, where W = W])
  have paths: "pathAt ?A h r \<noteq> None" if "r \<in> set (ts0 @ ts)" for r
    using that assms(2,4) by (auto simp: indexed_def)
  have idx: "indexed ?A (ts0 @ ts) (this\<lparr>byPath := groupBy (pathAt ?A h) (ts0 @ ts), byTxID := groupBy (txKeyOf ?A h) (ts0 @ ts),
      wobj := objs\<rparr>, g)" if "sameMeta ?A h g" for objs g
    by (rule indexed_cong [OF that]) (use assms(3) paths in simp_all)
  show ?thesis using 1 idx [OF 1(1)] idx [OF sameMeta_trans [OF 1(1)]]
    by (intro exI [of _ h1]) (auto split: option.split)
qed

definition idleWriter :: "(unit, 'c) StoreWriter" where
  "idleWriter = \<lparr>wImport = (\<lambda>ts h w. Some (w, h)), wPrecommit = (\<lambda>b h w. Some (w, None)),
     wCommit = (\<lambda>v h w. Some (w, None)), wIsSync = (\<lambda>_. True), wIsEth = (\<lambda>_. False),
     wIsExec = (\<lambda>_. False)\<rparr>"

abbreviation unit_lib :: "(unit, icell, int) committer_lib" where
  "unit_lib \<equiv> int_lib"

theorem Import_indexes_witness:
  "\<exists>this' h'. Import unit_lib idleWriter [2, 3, 4] (sampleCommitter [] sampleHeap, sampleHeap) = Some (this', h') \<and>
     indexed (lCell unit_lib) ([] @ [2, 3, 4]) (this', h') \<and> sameMeta (lCell unit_lib) sampleHeap h'"
proof -
  have start: "indexed (lCell unit_lib) [] (sampleCommitter [] sampleHeap, sampleHeap)" "distinct ([] @ [2, 3, 4 :: nat])"
    "writers (sampleCommitter [] sampleHeap) = []"
    by (simp_all add: indexed_def sampleCommitter_def)
  have ts: "r \<in> set [2, 3, 4] \<Longrightarrow> pathAt (lCell unit_lib) sampleHeap r \<noteq> None"
    "r \<in> set [2, 3, 4] \<Longrightarrow> typedAt (lCell unit_lib) sampleHeap r" for r
    by (auto simp: seq_lib_def int_api_def sampleHeap_def icellOf_def typedAt_def)
  show ?thesis using Import_indexes [OF int_lib_law start(1,2) ts, of idleWriter] start(3) by auto
qed

section \<open>Driving the writers\<close>

lemma foldM_pointwise:
  assumes "distinct ys" "\<And>i. i \<in> set ys \<Longrightarrow> step (objs i) \<noteq> None"
  shows "foldM (\<lambda>i objs. do { w \<leftarrow> step (objs i); Some (objs(i := w)) }) ys objs =
    Some (\<lambda>i. if i \<in> set ys then the (step (objs i)) else objs i)"
  using assms
proof (induction ys arbitrary: objs)
  case Nil
  then show ?case by simp
next
  case (Cons i ys)
  obtain w where w: "step (objs i) = Some w" using Cons.prems(2) [of i] by auto
  have "foldM (\<lambda>i objs. do { w \<leftarrow> step (objs i); Some (objs(i := w)) }) ys (objs(i := w)) =
    Some (\<lambda>j. if j \<in> set ys then the (step ((objs(i := w)) j)) else (objs(i := w)) j)"
    using Cons.prems by (intro Cons.IH) auto
  also have "(\<lambda>j. if j \<in> set ys then the (step ((objs(i := w)) j)) else (objs(i := w)) j) =
    (\<lambda>j. if j \<in> set (i # ys) then the (step (objs j)) else objs j)"
    using Cons.prems(1) w by (auto simp: fun_eq_iff)
  finally show ?case using w by simp
qed

text \<open>Every order of the parallel loop gives the same writers.\<close>

lemma ParallelForeach_pointwise:
  assumes "committer_law L" "distinct xs" "\<And>i. i \<in> set xs \<Longrightarrow> step (objs i) \<noteq> None"
  shows "ParallelForeach L (\<lambda>i objs. do { w \<leftarrow> step (objs i); Some (objs(i := w)) }) xs objs =
    Some (\<lambda>i. if i \<in> set xs then the (step (objs i)) else objs i)"
proof -
  obtain ys where ys: "mset ys = mset xs"
    "ParallelForeach L (\<lambda>i objs. do { w \<leftarrow> step (objs i); Some (objs(i := w)) }) xs objs =
     foldM (\<lambda>i objs. do { w \<leftarrow> step (objs i); Some (objs(i := w)) }) ys objs"
    using assms(1) unfolding committer_law_def by blast
  have "distinct ys" "set ys = set xs"
    using ys(1) assms(2) by (metis mset_eq_imp_distinct_iff, metis mset_eq_setD)
  then show ?thesis using ys(2) foldM_pointwise [of ys step objs] assms(3) by simp
qed

definition syncStep :: "('w, 'c) StoreWriter \<Rightarrow> 'c heap \<Rightarrow> 'w \<Rightarrow> 'w option" where
  "syncStep W h w = (if \<not> wIsEth W w then map_option fst (wPrecommit W True h w) else Some w)"

definition asyncStep :: "('w, 'c) StoreWriter \<Rightarrow> 'c heap \<Rightarrow> 'w \<Rightarrow> 'w option" where
  "asyncStep W h w = (if \<not> wIsExec W w then map_option fst (wPrecommit W False h w) else Some w)"

definition commitStep :: "('w, 'c) StoreWriter \<Rightarrow> u64 \<Rightarrow> 'c heap \<Rightarrow> 'w \<Rightarrow> 'w option" where
  "commitStep W v h w = map_option fst (wCommit W v h w)"

definition onWriters :: "nat list \<Rightarrow> ('w \<Rightarrow> 'w option) \<Rightarrow> (nat \<Rightarrow> 'w) \<Rightarrow> nat \<Rightarrow> 'w" where
  "onWriters ws step objs = (\<lambda>i. if i \<in> set ws then the (step (objs i)) else objs i)"

lemma drive_ok:
  assumes "committer_law L" "distinct ws"
    and "\<And>i. i \<in> set ws \<Longrightarrow> step (wobj this i) \<noteq> None"
    and "body = (\<lambda>i objs. do { w \<leftarrow> step (objs i); Some (objs(i := w)) })"
  shows "do { objs \<leftarrow> ParallelForeach L body ws (wobj this); Some (this\<lparr>wobj := objs\<rparr>) } =
    Some (this\<lparr>wobj := onWriters ws step (wobj this)\<rparr>)"
  unfolding assms(4) onWriters_def
  using ParallelForeach_pointwise [of L ws step "wobj this"] assms(1-3) by simp

lemma SyncPrecommit_ok:
  assumes "committer_law L" "distinct (writers this)"
    and "\<And>i. i \<in> set (writers this) \<Longrightarrow> syncStep W h (wobj this i) \<noteq> None"
  shows "SyncPrecommit L W h this = Some (this\<lparr>wobj := onWriters (writers this) (syncStep W h) (wobj this)\<rparr>)"
  unfolding SyncPrecommit_def using assms
  by (rule drive_ok) (auto simp: fun_eq_iff syncStep_def split: option.split bind_splits prod.split)

lemma AsyncPrecommit_ok:
  assumes "committer_law L" "distinct (writers this)"
    and "\<And>i. i \<in> set (writers this) \<Longrightarrow> asyncStep W h (wobj this i) \<noteq> None"
  shows "AsyncPrecommit L W h this = Some (this\<lparr>wobj := onWriters (writers this) (asyncStep W h) (wobj this)\<rparr>)"
  unfolding AsyncPrecommit_def using assms
  by (rule drive_ok) (auto simp: fun_eq_iff asyncStep_def split: option.split bind_splits prod.split)

lemma SyncCommit_ok:
  assumes "committer_law L" "distinct (syncWriters this)"
    and "\<And>i. i \<in> set (syncWriters this) \<Longrightarrow> commitStep W v h (wobj this i) \<noteq> None"
  shows "SyncCommit L W v h this = Some (this\<lparr>wobj := onWriters (syncWriters this) (commitStep W v h) (wobj this)\<rparr>)"
  unfolding SyncCommit_def using assms
  by (rule drive_ok) (auto simp: fun_eq_iff commitStep_def split: option.split bind_splits prod.split)

lemma AsyncCommit_ok:
  assumes "committer_law L" "distinct (asyncWriters this)"
    and "\<And>i. i \<in> set (asyncWriters this) \<Longrightarrow> commitStep W v h (wobj this i) \<noteq> None"
  shows "AsyncCommit L W v h this = Some (this\<lparr>wobj := onWriters (asyncWriters this) (commitStep W v h) (wobj this)\<rparr>)"
  unfolding AsyncCommit_def using assms
  by (rule drive_ok) (auto simp: fun_eq_iff commitStep_def split: option.split bind_splits prod.split)

lemma NewStateCommitter_keeps: "moveif_keeps L \<Longrightarrow> writers (NewStateCommitter L W ws objs) = ws"
  by (simp add: moveif_keeps_def NewStateCommitter_def case_prod_beta)

text \<open>If it moved the remaining elements to the front of the array instead, the committer would lose the synchronous writers
  and see some of the others twice: with the cache writer in front of two asynchronous writers, those would be left.\<close>

lemma NewStateCommitter_compacted:
  assumes "\<And>P xs. MoveIf L P xs = (filter P xs, filter (\<lambda>x. \<not> P x) xs,
      filter (\<lambda>x. \<not> P x) xs @ drop (length (filter (\<lambda>x. \<not> P x) xs)) xs)"
    and "wIsSync W (objs 0)" "\<not> wIsSync W (objs 1)" "\<not> wIsSync W (objs 2)"
  shows "writers (NewStateCommitter L W [0, 1, 2] objs) = [1, 2, 2]"
  using assms(2-4) by (simp add: NewStateCommitter_def assms(1))

lemma NewStateCommitter_writers:
  assumes "committer_law L"
  shows "syncWriters (NewStateCommitter L W ws objs) = filter (\<lambda>i. wIsSync W (objs i)) ws"
    "asyncWriters (NewStateCommitter L W ws objs) = filter (\<lambda>i. \<not> wIsSync W (objs i)) ws"
    "wobj (NewStateCommitter L W ws objs) = objs"
proof -
  obtain old where "MoveIf L (\<lambda>i. wIsSync W (objs i)) ws =
      (filter (\<lambda>i. wIsSync W (objs i)) ws, filter (\<lambda>i. \<not> wIsSync W (objs i)) ws, old)"
    using assms unfolding committer_law_def by blast
  then show "syncWriters (NewStateCommitter L W ws objs) = filter (\<lambda>i. wIsSync W (objs i)) ws"
    "asyncWriters (NewStateCommitter L W ws objs) = filter (\<lambda>i. \<not> wIsSync W (objs i)) ws"
    "wobj (NewStateCommitter L W ws objs) = objs"
    by (simp_all add: NewStateCommitter_def)
qed

lemma DebugCommit_split:
  assumes "committer_law L" "distinct ws"
    and "syncWriters this = filter P ws" "asyncWriters this = filter (\<lambda>i. \<not> P i) ws"
    and "\<And>i. i \<in> set ws \<Longrightarrow> wCommit W v h (wobj this i) \<noteq> None"
  shows "DebugCommit L W v h this =
    Some (this\<lparr>wobj := \<lambda>i. if i \<in> set ws then fst (the (wCommit W v h (wobj this i))) else wobj this i\<rparr>)"
proof -
  let ?syn = "filter P ws" and ?asyn = "filter (\<lambda>i. \<not> P i) ws"
  let ?mid = "this\<lparr>wobj := onWriters ?syn (commitStep W v h) (wobj this)\<rparr>"
  have step: "commitStep W v h (wobj this i) \<noteq> None" if "i \<in> set ws" for i
    using assms(5) [OF that] by (auto simp: commitStep_def)
  have s: "SyncCommit L W v h this = Some ?mid"
    using SyncCommit_ok [OF assms(1), of this W v h] assms(2) step by (simp add: assms(3))
  have a: "AsyncCommit L W v h ?mid =
      Some (?mid\<lparr>wobj := onWriters ?asyn (commitStep W v h) (onWriters ?syn (commitStep W v h) (wobj this))\<rparr>)"
    using AsyncCommit_ok [OF assms(1), of ?mid W v h] assms(2) step by (simp add: assms(4) onWriters_def)
  have "onWriters ?asyn (commitStep W v h) (onWriters ?syn (commitStep W v h) (wobj this)) =
    (\<lambda>i. if i \<in> set ws then fst (the (wCommit W v h (wobj this i))) else wobj this i)"
    using assms(5) by (auto simp: onWriters_def commitStep_def fun_eq_iff option.map_sel)
  with s a show ?thesis by (simp add: DebugCommit_def)
qed

lemma DebugCommit_run:
  assumes "committer_law L" "distinct ws"
    and "\<And>i. i \<in> set ws \<Longrightarrow> wCommit W v h (objs i) \<noteq> None"
  shows "map_option wobj (DebugCommit L W v h (NewStateCommitter L W ws objs)) =
    Some (\<lambda>i. if i \<in> set ws then fst (the (wCommit W v h (objs i))) else objs i)"
proof -
  note new = NewStateCommitter_writers [OF assms(1), of W ws objs]
  show ?thesis
    using DebugCommit_split [OF assms(1,2) new(1,2), of W v h, unfolded new(3), OF assms(3)] by simp
qed

text \<open>
  C27. A committer built from distinct writers whose commits do not panic commits every one of
  them exactly once for the given block, whatever order the parallel loops choose: the
  synchronous writers first, then the asynchronous ones, no writer twice and none left out.
\<close>
theorem DebugCommit_once:
  assumes "committer_law L" "distinct ws"
    and "\<And>i. i \<in> set ws \<Longrightarrow> wCommit W v h (objs i) \<noteq> None"
  shows "map_option wobj (DebugCommit L W v h (NewStateCommitter L W ws objs)) =
    Some (\<lambda>i. if i \<in> set ws then fst (the (wCommit W v h (objs i))) else objs i)"
  using assms by (rule DebugCommit_run)

text \<open>A writer that remembers the blocks it has committed.\<close>

definition logWriter :: "(u64 list, 'c) StoreWriter" where
  "logWriter = \<lparr>wImport = (\<lambda>ts h w. Some (w, h)), wPrecommit = (\<lambda>b h w. Some ((if b then 1 else 2) # w, None)),
     wCommit = (\<lambda>v h w. Some (v # w, None)), wIsSync = (\<lambda>w. w = [7]), wIsEth = (\<lambda>w. w = [8]),
     wIsExec = (\<lambda>_. False)\<rparr>"

theorem DebugCommit_once_witness:
  "map_option wobj (DebugCommit (int_lib :: (u64 list, icell, int) committer_lib) logWriter 9 sampleHeap
     (NewStateCommitter int_lib logWriter [2, 3] (\<lambda>i. if i = 2 then [7] else []))) =
   Some (\<lambda>i. if i = 2 then [9, 7] else if i = 3 then [9] else [])"
proof -
  have "map_option wobj (DebugCommit (int_lib :: (u64 list, icell, int) committer_lib) logWriter 9 sampleHeap
     (NewStateCommitter int_lib logWriter [2, 3] (\<lambda>i. if i = 2 then [7] else []))) =
    Some (\<lambda>i. if i \<in> set [2, 3] then fst (the (wCommit logWriter 9 sampleHeap ((\<lambda>i. if i = 2 then [7] else []) i)))
      else (\<lambda>i. if i = 2 then [7] else []) i)"
    by (rule DebugCommit_once [OF int_lib_law]) (simp_all add: logWriter_def)
  also have "\<dots> = Some (\<lambda>i. if i = 2 then [9, 7] else if i = 3 then [9] else [])"
    by (simp add: logWriter_def fun_eq_iff)
  finally show ?thesis .
qed

lemma DebugPrecommit_run:
  assumes "committer_law L" and "Finalize L txs s = Some (this, h)" and "distinct (writers this)"
    and "\<And>i. i \<in> set (writers this) \<Longrightarrow> do { w \<leftarrow> syncStep W h (wobj this i); asyncStep W h w } \<noteq> None"
  shows "DebugPrecommit L W txs s = Some (this\<lparr>wobj := (\<lambda>i. if i \<in> set (writers this)
      then the (do { w \<leftarrow> syncStep W h (wobj this i); asyncStep W h w }) else wobj this i)\<rparr>, h)"
proof -
  let ?mid = "this\<lparr>wobj := onWriters (writers this) (syncStep W h) (wobj this)\<rparr>"
  have s: "SyncPrecommit L W h this = Some ?mid"
  proof (rule SyncPrecommit_ok [OF assms(1,3)])
    show "syncStep W h (wobj this i) \<noteq> None" if "i \<in> set (writers this)" for i
      using assms(4) [OF that] by (cases "syncStep W h (wobj this i)") auto
  qed
  have "asyncStep W h (wobj ?mid i) \<noteq> None" if "i \<in> set (writers ?mid)" for i
    using assms(4) [of i] that by (cases "syncStep W h (wobj this i)") (simp_all add: onWriters_def)
  then have a: "AsyncPrecommit L W h ?mid =
      Some (?mid\<lparr>wobj := onWriters (writers this) (asyncStep W h) (onWriters (writers this) (syncStep W h) (wobj this))\<rparr>)"
    using AsyncPrecommit_ok [OF assms(1), of ?mid W h] assms(3) by simp
  have "onWriters (writers this) (asyncStep W h) (onWriters (writers this) (syncStep W h) (wobj this)) =
    (\<lambda>i. if i \<in> set (writers this)
      then the (do { w \<leftarrow> syncStep W h (wobj this i); asyncStep W h w }) else wobj this i)"
  proof
    fix i
    show "onWriters (writers this) (asyncStep W h) (onWriters (writers this) (syncStep W h) (wobj this)) i =
      (if i \<in> set (writers this)
       then the (do { w \<leftarrow> syncStep W h (wobj this i); asyncStep W h w }) else wobj this i)"
      using assms(4) [of i] by (cases "syncStep W h (wobj this i)") (auto simp: onWriters_def)
  qed
  with s a assms(2) show ?thesis by (simp add: DebugPrecommit_def)
qed

text \<open>
  C26. When neither phase panics, precommitting drives every writer through \<open>Precommit(true)\<close> and then
  \<open>Precommit(false)\<close>, whatever order the parallel loops choose, except that the Ethereum writer
  skips the first phase and the execution cache writer the second; the indexes and the lists of
  writers do not change, and both phases read the same finalized cells.
\<close>
theorem DebugPrecommit_phases:
  assumes "committer_law L" and "Finalize L txs s = Some (this, h)" and "distinct (writers this)"
    and "\<And>i. i \<in> set (writers this) \<Longrightarrow> do { w \<leftarrow> syncStep W h (wobj this i); asyncStep W h w } \<noteq> None"
  shows "DebugPrecommit L W txs s = Some (this\<lparr>wobj := (\<lambda>i. if i \<in> set (writers this)
      then the (do { w \<leftarrow> syncStep W h (wobj this i); asyncStep W h w }) else wobj this i)\<rparr>, h)"
  using assms by (rule DebugPrecommit_run)

theorem DebugPrecommit_phases_witness:
  "\<exists>h. DebugPrecommit (int_lib :: (u64 list, icell, int) committer_lib) logWriter []
      (NewStateCommitter int_lib logWriter [2, 3] (\<lambda>i. if i = 2 then [8] else []), sampleHeap) =
    Some ((NewStateCommitter int_lib logWriter [2, 3] (\<lambda>i. if i = 2 then [8] else []))\<lparr>wobj :=
      (\<lambda>i. if i = 2 then [2, 8] else if i = 3 then [2, 1] else [])\<rparr>, h)"
proof -
  let ?L = "int_lib :: (u64 list, icell, int) committer_lib"
  let ?new = "NewStateCommitter ?L logWriter [2, 3] (\<lambda>i. if i = 2 then [8] else [])"
  have new: "writers ?new = [2, 3]" "wobj ?new = (\<lambda>i. if i = 2 then [8] else [])"
    "byPath ?new = Map.empty" "byTxID ?new = Map.empty"
    by (simp_all add: NewStateCommitter_def seq_lib_def)
  have fin: "Finalize ?L [] (?new, sampleHeap) = Some (?new, sampleHeap)"
    by (simp add: Finalize_def whitelist_def NewStateCommitter_def seq_lib_def keyOrderIndexer_def)
  let ?run = "\<lambda>i. do { w \<leftarrow> syncStep logWriter sampleHeap (wobj ?new i); asyncStep logWriter sampleHeap w }"
  have two: "?run 2 = Some [2, 8]" and three: "?run 3 = Some [2, 1]"
    by (simp_all only: new) (simp_all add: syncStep_def asyncStep_def logWriter_def)
  have "DebugPrecommit ?L logWriter [] (?new, sampleHeap) =
    Some (?new\<lparr>wobj := \<lambda>i. if i \<in> set (writers ?new) then the (?run i) else wobj ?new i\<rparr>, sampleHeap)"
  proof (rule DebugPrecommit_phases [OF int_lib_law fin])
    show "?run i \<noteq> None" if "i \<in> set (writers ?new)" for i
    proof -
      from that consider "i = 2" | "i = 3" by (auto simp: new(1))
      then show ?thesis by cases (simp_all only: two three, simp_all)
    qed
  qed (simp add: new)
  moreover have "(\<lambda>i. if i \<in> set (writers ?new) then the (?run i) else wobj ?new i) =
    (\<lambda>i. if i = 2 then [2, 8] else if i = 3 then [2, 1] else [])"
  proof
    fix i :: nat
    consider "i = 2" | "i = 3" | "i \<noteq> 2" "i \<noteq> 3" by blast
    then show "(if i \<in> set (writers ?new) then the (?run i) else wobj ?new i) =
      (if i = 2 then [2, 8] else if i = 3 then [2, 1] else [])"
      by cases (simp_all only: two three, simp_all add: new)
  qed
  ultimately show ?thesis by (intro exI) simp
qed

end
