(* ===== verification/Platform.thy ===== *)
theory Platform
  imports Paths
begin

text \<open>
  The platform layer: the built-in paths of an account (\<open>src/common/platform.go\<close>), their
  creation (\<open>CreateDefaultPaths\<close> of \<open>src/common/utils.go\<close>) and the path builder
  (\<open>src/common/path_builder.go\<close>, the parsing half of \<open>utils.go\<close>).

  Third-party code is a parameter: the type identifiers of the CRDT packages, the map and
  slice helpers of common-lib, the hexadecimal encoder of go-ethereum. What the engine relies
  on is stated as the predicates \<open>kvs_law\<close>, \<open>sort1st_law\<close> and \<open>ids_law\<close>.
\<close>

section \<open>Platform (platform.go)\<close>

text \<open>The type identifiers of \<open>crdt/commutative\<close> and \<open>crdt/noncommutative\<close>.\<close>

record type_ids =
  idPATH :: u8
  idUINT64 :: u8
  idUINT256 :: u8
  idBYTES :: u8
  idSTRING :: u8
  idINT64 :: u8

text \<open>A Go \<open>switch\<close> over constants does not compile with two equal cases.\<close>

definition ids_law :: "type_ids \<Rightarrow> bool" where
  "ids_law T \<longleftrightarrow> distinct [idPATH T, idUINT64 T, idUINT256 T, idBYTES T, idSTRING T, idINT64 T]"

record Platform =
  defaultPaths :: "string \<rightharpoonup> u8"

definition NewPlatform :: "type_ids \<Rightarrow> Platform" where
  "NewPlatform T = \<lparr>defaultPaths =
     [PATH_ROOT \<mapsto> idPATH T, PATH_CODE \<mapsto> idBYTES T, PATH_NONCE \<mapsto> idUINT64 T,
      PATH_BALANCE \<mapsto> idUINT256 T, PATH_FUNC_PROFILE \<mapsto> idPATH T,
      PATH_STORAGE_ROOT \<mapsto> idPATH T, PATH_STORAGE_CONTAINER \<mapsto> idPATH T,
      PATH_STORAGE_NATIVE \<mapsto> idPATH T]\<rparr>"

definition ETHAccountShard :: "(char \<Rightarrow> int) \<Rightarrow> int \<Rightarrow> string \<Rightarrow> int option" where
  "ETHAccountShard Hex2int numOfShard key =
     (if length key < 24 then None
      else go_rem (Hex2int (key ! 22) * 16 + Hex2int (key ! 23)) numOfShard)"

text \<open>\<open>mapi.KVs\<close> lists the entries of a map in some order, \<open>slice.SortBy1st\<close> sorts two
  parallel slices by the first.\<close>

type_synonym kvs_fun = "(string \<rightharpoonup> u8) \<Rightarrow> string list \<times> u8 list"
type_synonym sort1st_fun =
  "string list \<Rightarrow> u8 list \<Rightarrow> (string \<Rightarrow> string \<Rightarrow> bool) \<Rightarrow> string list \<times> u8 list"

definition kvs_law :: "kvs_fun \<Rightarrow> bool" where
  "kvs_law KVs \<longleftrightarrow>
     (\<forall>m. finite (dom m) \<longrightarrow>
        (case KVs m of (ks, vs) \<Rightarrow>
           distinct ks \<and> set ks = dom m \<and> map Some vs = map m ks))"

definition sort1st_law :: "sort1st_fun \<Rightarrow> bool" where
  "sort1st_law SortBy1st \<longleftrightarrow>
     (\<forall>ks vs. length ks = length vs \<longrightarrow>
        (case SortBy1st ks vs (\<lambda>x y. x < y) of (ks', vs') \<Rightarrow>
           length ks' = length vs' \<and> sorted ks' \<and> mset (zip ks' vs') = mset (zip ks vs)))"

definition GetDefault ::
  "kvs_fun \<Rightarrow> sort1st_fun \<Rightarrow> Platform \<Rightarrow> string \<Rightarrow> string list \<times> u8 list" where
  "GetDefault KVs SortBy1st this acct =
     (let (paths, typeIds) = KVs (defaultPaths this);
          (paths, typeIds) = SortBy1st paths typeIds (\<lambda>lhv rhv. lhv < rhv)
      in (map (\<lambda>path. ETH_ACCOUNT_PREFIX @ acct @ path) paths, typeIds))"

definition IsSysPath :: "Platform \<Rightarrow> string \<Rightarrow> bool" where
  "IsSysPath this path =
     (if length path \<le> ETH_ACCOUNT_FULL_LENGTH then True
      else defaultPaths this (drop ETH_ACCOUNT_FULL_LENGTH path) \<noteq> None)"

definition IsContainerPath :: "string \<Rightarrow> bool" where
  "IsContainerPath path = HasSuffix path ''/container/''"

definition IsImmediateChildOfSysPath :: "Platform \<Rightarrow> string \<Rightarrow> bool" where
  "IsImmediateChildOfSysPath this path =
     (if IsSysPath this path then True
      else let (parent, _) = GetParentPath path
           in if IsContainerPath parent then False
              else IsSysPath this parent \<or> \<not> Contains parent ''/'')"

section \<open>Creating the built-in paths (utils.go)\<close>

text \<open>The initial values, one constructor per type.\<close>

record 'v init_values =
  newPath :: 'v
  newString :: 'v
  newUnboundedU256 :: 'v
  newUnboundedUint64 :: 'v
  newInt64 :: 'v
  newBytes :: 'v

definition defaultValue :: "type_ids \<Rightarrow> 'v init_values \<Rightarrow> u8 \<Rightarrow> 'v option" where
  "defaultValue T iv tid =
     (if tid = idPATH T then Some (newPath iv)
      else if tid = idSTRING T then Some (newString iv)
      else if tid = idUINT256 T then Some (newUnboundedU256 iv)
      else if tid = idUINT64 T then Some (newUnboundedUint64 iv)
      else if tid = idINT64 T then Some (newInt64 iv)
      else if tid = idBYTES T then Some (newBytes iv)
      else None)"

text \<open>
  The store is an interface with \<open>Has\<close> and \<open>Write\<close>; the loop writes what is missing, collects
  a transition for it and stops at the first write error. A panic of the store is None.
\<close>

fun createLoop ::
  "(string \<Rightarrow> 's \<Rightarrow> bool) \<Rightarrow> (u64 \<Rightarrow> string \<Rightarrow> 'v option \<Rightarrow> 's \<Rightarrow> (('n \<times> err) \<times> 's) option) \<Rightarrow>
   (u64 \<Rightarrow> string \<Rightarrow> 'v option \<Rightarrow> 'c) \<Rightarrow> (u8 \<Rightarrow> 'v option) \<Rightarrow> u64 \<Rightarrow>
   (string \<times> u8) list \<Rightarrow> 'c list \<Rightarrow> 's \<Rightarrow> (('c list \<times> err) \<times> 's) option" where
  "createLoop has wr newCell dv tx [] cells s = Some ((cells, None), s)"
| "createLoop has wr newCell dv tx ((path, tid) # rest) cells s =
     (let v = dv tid in
      if \<not> has path s then
        (let cells' = cells @ [newCell tx path v] in
         do {
           ((_, e), s') \<leftarrow> wr tx path v s;
           case e of
             Some e \<Rightarrow> Some (([], Some e), s')
           | None \<Rightarrow> createLoop has wr newCell dv tx rest cells' s'
         })
      else createLoop has wr newCell dv tx rest cells s)"

definition CreateDefaultPaths ::
  "kvs_fun \<Rightarrow> sort1st_fun \<Rightarrow> type_ids \<Rightarrow> 'v init_values \<Rightarrow>
   (u64 \<Rightarrow> string \<Rightarrow> 'v option \<Rightarrow> 'c) \<Rightarrow>
   (string \<Rightarrow> 's \<Rightarrow> bool) \<Rightarrow> (u64 \<Rightarrow> string \<Rightarrow> 'v option \<Rightarrow> 's \<Rightarrow> (('n \<times> err) \<times> 's) option) \<Rightarrow>
   u64 \<Rightarrow> string \<Rightarrow> 's \<Rightarrow> (('c list \<times> err) \<times> 's) option" where
  "CreateDefaultPaths KVs SortBy1st T iv newCell has wr tx acct s =
     (let (paths, typeids) = GetDefault KVs SortBy1st (NewPlatform T) acct
      in createLoop has wr newCell (defaultValue T iv) tx (zip paths typeids) [] s)"

section \<open>Path builder (path_builder.go) and address parsing (utils.go)\<close>

record PathBuilder =
  pbSender :: "u8 list"
  pbAddress :: "u8 list"
  pbSelector :: "u8 list"
  pbPlatform :: u8

definition NewContainerPathBuilder :: "u8 \<Rightarrow> PathBuilder" where
  "NewContainerPathBuilder platform =
     \<lparr>pbSender = replicate 20 0, pbAddress = replicate 20 0, pbSelector = replicate 4 0,
      pbPlatform = platform\<rparr>"

definition NewEthPathBuilder :: PathBuilder where
  "NewEthPathBuilder =
     \<lparr>pbSender = replicate 20 0, pbAddress = replicate 20 0, pbSelector = replicate 4 0,
      pbPlatform = ETH_PATH\<rparr>"

definition DeriveEthCalleeUID :: "(u8 list \<Rightarrow> u64) \<Rightarrow> u8 list \<Rightarrow> u8 list \<Rightarrow> u64" where
  "DeriveEthCalleeUID FromBytes addr selector =
     FromBytes (take SHORT_CONTRACT_ADDRESS_LENGTH addr @ selector)"

definition DeriveUID :: "(u8 list \<Rightarrow> u64) \<Rightarrow> PathBuilder \<Rightarrow> u64" where
  "DeriveUID FromBytes this = DeriveEthCalleeUID FromBytes (pbAddress this) (pbSelector this)"

text \<open>Go's \<open>copy(dst[:], src)\<close> into a fixed array.\<close>

definition copyInto :: "u8 list \<Rightarrow> u8 list \<Rightarrow> u8 list" where
  "copyInto dst src = take (length dst) src @ drop (length src) dst"

definition ParseAddressSubString :: "string \<Rightarrow> string" where
  "ParseAddressSubString path =
     (if length path \<ge> ETH_ACCOUNT_FULL_LENGTH
      then take ETH_ACCOUNT_LENGTH (drop ETH_ACCOUNT_PREFIX_LENGTH path) else [])"

definition ParseAddressAndSelector :: "string \<Rightarrow> u8 list \<times> u8 list \<times> err" where
  "ParseAddressAndSelector path =
     (let acct = (if length path \<ge> ETH_ACCOUNT_FULL_LENGTH
                  then take ETH_ACCOUNT_LENGTH (drop ETH_ACCOUNT_PREFIX_LENGTH path) else []);
          from = ETH_ACCOUNT_FULL_LENGTH + length PATH_FUNC_PROFILE;
          selector = (if length path \<ge> from + SELECTOR_LENGTH
                      then take SELECTOR_LENGTH (drop from path) else []);
          Address = replicate 20 0; Selector = replicate 4 0
      in case hexDecodeString acct of
           Inl _ \<Rightarrow> (Address, Selector, Some (''Invalid eth account address: '' @ acct))
         | Inr addrBytes \<Rightarrow>
             (case hexDecodeString selector of
                Inl _ \<Rightarrow> (copyInto Address addrBytes, Selector,
                           Some (''Invalid eth account selector: '' @ selector))
              | Inr selectorBytes \<Rightarrow>
                  (copyInto Address addrBytes, copyInto Selector selectorBytes, None)))"

definition NewPathBuilderFromPath :: "string \<Rightarrow> PathBuilder \<times> err" where
  "NewPathBuilderFromPath path =
     (case ParseAddressAndSelector path of (addr, selector, e) \<Rightarrow>
        (\<lparr>pbSender = replicate 20 0, pbAddress = addr, pbSelector = selector,
          pbPlatform = ETH_PATH\<rparr>, e))"

definition DeriveUIDFromPath :: "(u8 list \<Rightarrow> u64) \<Rightarrow> string \<Rightarrow> PathBuilder \<Rightarrow> u64 \<times> PathBuilder" where
  "DeriveUIDFromPath FromBytes path this =
     (case ParseAddressAndSelector path of
        (_, _, Some _) \<Rightarrow> (0, this)
      | (addr, selector, None) \<Rightarrow>
          (let this' = this\<lparr>pbAddress := addr, pbSelector := selector\<rparr>
           in (DeriveUID FromBytes this', this')))"

definition ProfileField :: "(u8 list \<Rightarrow> string) \<Rightarrow> string \<Rightarrow> PathBuilder \<Rightarrow> string" where
  "ProfileField hexEncode field this =
     ETH_ACCOUNT_PREFIX @ hexEncode (pbAddress this) @ PATH_FUNC_PROFILE @
     hexEncode (pbSelector this) @ ''/'' @ field"

definition UnderSenderPath :: "(u8 list \<Rightarrow> string) \<Rightarrow> string \<Rightarrow> PathBuilder \<Rightarrow> string" where
  "UnderSenderPath hexEncode subpath this =
     ETH_ACCOUNT_PREFIX @ hexEncode (pbSender this) @ subpath"


section \<open>Properties\<close>

definition builtinPaths :: "string list" where
  "builtinPaths = [PATH_ROOT, PATH_BALANCE, PATH_CODE, PATH_NONCE, PATH_FUNC_PROFILE,
     PATH_STORAGE_ROOT, PATH_STORAGE_CONTAINER, PATH_STORAGE_NATIVE]"

lemma builtinPaths_eq [path_consts]:
  "builtinPaths = [''/'', ''/balance'', ''/code'', ''/nonce'', ''/profiles/'', ''/storage/'',
     ''/storage/container/'', ''/storage/native/'']"
  by (simp add: builtinPaths_def sub_path_defs)

lemma builtinPaths_sorted: "sorted builtinPaths" "distinct builtinPaths"
  by code_simp+

lemma defaultPaths_entries:
  "defaultPaths (NewPlatform T) =
     map_of (zip builtinPaths [idPATH T, idUINT256 T, idBYTES T, idUINT64 T, idPATH T, idPATH T,
       idPATH T, idPATH T])"
  by (rule ext) (simp add: NewPlatform_def builtinPaths_def sub_path_defs)

lemma defaultPaths_values:
  "map (the \<circ> defaultPaths (NewPlatform T)) builtinPaths =
     [idPATH T, idUINT256 T, idBYTES T, idUINT64 T, idPATH T, idPATH T, idPATH T, idPATH T]"
  by (simp add: defaultPaths_entries builtinPaths_eq)

lemma dom_defaultPaths: "dom (defaultPaths (NewPlatform T)) = set builtinPaths"
  by (auto simp: NewPlatform_def builtinPaths_def)

lemma zip_eq_by_fst:
  assumes "length ks = length vs" and "\<And>k v. (k, v) \<in> set (zip ks vs) \<Longrightarrow> f k = v"
  shows "vs = map f ks"
  using assms by (induction ks vs rule: list_induct2) auto

lemma sorted_entries:
  assumes kvs: "kvs_law KVs" and srt: "sort1st_law SortBy1st" and fin: "finite (dom m)"
    and eq: "KVs m = (ks, vs)" "SortBy1st ks vs (\<lambda>x y. x < y) = (ks', vs')"
  shows "ks' = sorted_list_of_set (dom m)" "vs' = map (the \<circ> m) ks'"
proof -
  have ks: "distinct ks" "set ks = dom m" "map Some vs = map m ks"
    using kvs [unfolded kvs_law_def, rule_format, OF fin] eq(1) by simp_all
  then have len: "length ks = length vs" by (metis length_map)
  have s: "length ks' = length vs'" "sorted ks'" "mset (zip ks' vs') = mset (zip ks vs)"
    using srt [unfolded sort1st_law_def, rule_format, OF len] eq(2) by simp_all
  have "mset ks' = image_mset fst (mset (zip ks' vs'))" using s(1) by (simp flip: mset_map)
  also have "\<dots> = mset ks" using s(3) len by (simp flip: mset_map)
  finally have mks: "mset ks' = mset ks" .
  then have "distinct ks'" "set ks' = dom m"
    using ks by (metis mset_eq_imp_distinct_iff, metis mset_eq_setD)
  then show "ks' = sorted_list_of_set (dom m)"
    using s(2) by (simp add: sorted_list_of_set.idem_if_sorted_distinct flip: \<open>set ks' = dom m\<close>)
  have "(the \<circ> m) k = v" if "(k, v) \<in> set (zip ks' vs')" for k v
  proof -
    have "(k, v) \<in> set (zip ks vs)" using that s(3) by (metis set_mset_mset)
    then obtain i where "i < length ks" "k = ks ! i" "v = vs ! i"
      by (auto simp: in_set_zip len)
    then have "map m ks ! i = Some v" using ks(3) len by (metis nth_map)
    with \<open>i < length ks\<close> \<open>k = ks ! i\<close> show ?thesis by simp
  qed
  with s(1) show "vs' = map (the \<circ> m) ks'" by (rule zip_eq_by_fst)
qed

lemma GetDefault_list:
  assumes "kvs_law KVs" and "sort1st_law SortBy1st"
  shows "GetDefault KVs SortBy1st (NewPlatform T) acct =
    (map (\<lambda>p. ETH_ACCOUNT_PREFIX @ acct @ p)
       [''/'', ''/balance'', ''/code'', ''/nonce'', ''/profiles/'', ''/storage/'',
        ''/storage/container/'', ''/storage/native/''],
     [idPATH T, idUINT256 T, idBYTES T, idUINT64 T, idPATH T, idPATH T, idPATH T, idPATH T])"
proof -
  let ?m = "defaultPaths (NewPlatform T)"
  obtain ks vs where kv: "KVs ?m = (ks, vs)" by fastforce
  obtain ks' vs' where st: "SortBy1st ks vs (\<lambda>x y. x < y) = (ks', vs')" by fastforce
  have fin: "finite (dom ?m)" by (simp add: dom_defaultPaths)
  note se = sorted_entries [OF assms fin kv st]
  have "ks' = builtinPaths"
    using se(1) builtinPaths_sorted
    by (simp add: dom_defaultPaths sorted_list_of_set.idem_if_sorted_distinct)
  with se(2) have "vs' = [idPATH T, idUINT256 T, idBYTES T, idUINT64 T, idPATH T, idPATH T, idPATH T, idPATH T]"
    by (simp only: defaultPaths_values)
  with \<open>ks' = builtinPaths\<close> show ?thesis
    by (simp add: GetDefault_def kv st builtinPaths_eq)
qed

text \<open>
  C32. Whatever order the map of built-in paths is enumerated in, \<open>GetDefault\<close> returns the same
  eight paths of the account in ascending order, each with its own type identifier.
\<close>
theorem GetDefault_exact:
  assumes "kvs_law KVs" and "sort1st_law SortBy1st"
  shows "GetDefault KVs SortBy1st (NewPlatform T) acct =
    (map (\<lambda>p. ETH_ACCOUNT_PREFIX @ acct @ p)
       [''/'', ''/balance'', ''/code'', ''/nonce'', ''/profiles/'', ''/storage/'',
        ''/storage/container/'', ''/storage/native/''],
     [idPATH T, idUINT256 T, idBYTES T, idUINT64 T, idPATH T, idPATH T, idPATH T, idPATH T])"
  using assms by (rule GetDefault_list)

text \<open>The reference enumeration and sorter that the laws describe.\<close>

definition KVs_sorted :: kvs_fun where
  "KVs_sorted m = (sorted_list_of_set (dom m), map (the \<circ> m) (sorted_list_of_set (dom m)))"

definition SortBy1st_ins :: sort1st_fun where
  "SortBy1st_ins ks vs lt =
     (let ps = sort_key fst (zip ks vs) in (map fst ps, map snd ps))"

lemma KVs_sorted_law: "kvs_law KVs_sorted"
  by (auto simp: kvs_law_def KVs_sorted_def)

lemma SortBy1st_ins_law: "sort1st_law SortBy1st_ins"
  by (auto simp: sort1st_law_def SortBy1st_ins_def Let_def zip_map_fst_snd)

definition sample_ids :: type_ids where
  "sample_ids = \<lparr>idPATH = 101, idUINT64 = 102, idUINT256 = 103, idBYTES = 104, idSTRING = 105,
     idINT64 = 106\<rparr>"

theorem GetDefault_exact_witness:
  "snd (GetDefault KVs_sorted SortBy1st_ins (NewPlatform sample_ids) ''0xab'') =
     [101, 103, 104, 102, 101, 101, 101, 101]"
  by (subst GetDefault_exact [OF KVs_sorted_law SortBy1st_ins_law]) (simp add: sample_ids_def)

lemma IsSysPath_account:
  "length acct = 42 \<Longrightarrow> p \<noteq> [] \<Longrightarrow>
   IsSysPath (NewPlatform T) (ETH_ACCOUNT_PREFIX @ acct @ p) = (p \<in> set builtinPaths)"
  using dom_defaultPaths [of T] by (auto simp: IsSysPath_def account_lengths)

lemma builtin_parents:
  "GetParentPath (X @ ''/balance'') = (X @ ''/'', ''balance'')"
  "GetParentPath (X @ ''/code'') = (X @ ''/'', ''code'')"
  "GetParentPath (X @ ''/nonce'') = (X @ ''/'', ''nonce'')"
  "GetParentPath (X @ ''/profiles/'') = (X @ ''/'', ''profiles/'')"
  "GetParentPath (X @ ''/storage/'') = (X @ ''/'', ''storage/'')"
  "GetParentPath (X @ ''/storage/container/'') = (X @ ''/storage/'', ''container/'')"
  "GetParentPath (X @ ''/storage/native/'') = (X @ ''/storage/'', ''native/'')"
  using GetParentPath_child [of "X @ ''/''"] GetParentPath_child [of "X @ ''/storage/''"] by simp_all

text \<open>
  The order of \<open>GetDefault\<close> creates directories before what lies in them: apart from the
  account root itself, whose parent is the common prefix, the parent of every built-in path of
  an account is an earlier element of the list, and all of them are system paths.
\<close>
theorem GetDefault_parents_first:
  assumes "kvs_law KVs" and "sort1st_law SortBy1st" and "length acct = 42"
    and "CHR ''/'' \<notin> set acct"
    and "fst (GetDefault KVs SortBy1st (NewPlatform T) acct) = paths"
  shows "length paths = 8 \<and> fst (GetParentPath (paths ! 0)) = ETH_ACCOUNT_PREFIX \<and>
    (\<forall>i \<in> {1..<8}. fst (GetParentPath (paths ! i)) \<in> set (take i paths)) \<and>
    (\<forall>p \<in> set paths. IsSysPath (NewPlatform T) p)"
proof -
  have paths: "paths = map (\<lambda>p. (ETH_ACCOUNT_PREFIX @ acct) @ p)
       [''/'', ''/balance'', ''/code'', ''/nonce'', ''/profiles/'', ''/storage/'',
        ''/storage/container/'', ''/storage/native/'']"
    using assms(5) GetDefault_list [OF assms(1,2), of T acct] by simp
  define X where "X = ETH_ACCOUNT_PREFIX @ acct"
  have idx: "{1..<8::nat} = {1, 2, 3, 4, 5, 6, 7}" by auto
  have root: "GetParentPath ((ETH_ACCOUNT_PREFIX @ acct) @ ''/'') = (ETH_ACCOUNT_PREFIX, acct @ ''/'')"
    using GetParentPath_child [of ETH_ACCOUNT_PREFIX "acct @ ''/''"] assms(3,4)
    by (simp add: ETH_ACCOUNT_PREFIX_eq)
  have "\<forall>p \<in> set paths. IsSysPath (NewPlatform T) p"
    using assms(3) IsSysPath_account [of acct _ T] by (simp add: paths builtinPaths_eq)
  moreover have "\<forall>i \<in> {1..<8}. fst (GetParentPath (paths ! i)) \<in> set (take i paths)"
    unfolding idx paths X_def [symmetric] by (simp add: builtin_parents)
  ultimately show ?thesis using root by (simp add: paths)
qed

theorem GetDefault_parents_first_witness:
  "\<exists>paths. fst (GetDefault KVs_sorted SortBy1st_ins (NewPlatform sample_ids) (replicate 42 (CHR ''a''))) = paths \<and>
     length paths = 8 \<and> fst (GetParentPath (paths ! 0)) = ETH_ACCOUNT_PREFIX"
  using GetDefault_parents_first [OF KVs_sorted_law SortBy1st_ins_law, of "replicate 42 (CHR ''a'')"]
  by simp

lemma account_dir_parent:
  assumes "nam \<noteq> []" "CHR ''/'' \<notin> set (butlast nam)" "d \<noteq> []" "last d = CHR ''/''"
  shows "GetParentPath (ETH_ACCOUNT_PREFIX @ addr @ d @ nam) = (ETH_ACCOUNT_PREFIX @ addr @ d, nam)"
  using GetParentPath_child [of "ETH_ACCOUNT_PREFIX @ addr @ d" nam] assms by simp

text \<open>
  Which entries skip the membership check: an entry directly below the account root, the
  function profiles, the storage root or the native storage counts as an immediate child of a
  system path, while every entry of the container directory, at its top or inside one of its
  containers, does not, so its presence is looked up in its parent's own record.
\<close>
theorem IsImmediateChildOfSysPath_by_directory:
  assumes "length addr = 42" and "CHR ''/'' \<notin> set addr"
    and "nam \<noteq> []" and "CHR ''/'' \<notin> set (butlast nam)"
    and "box \<noteq> []" and "CHR ''/'' \<notin> set box"
  shows "IsImmediateChildOfSysPath (NewPlatform T) (ETH_ACCOUNT_PREFIX @ addr @ ''/'' @ nam) \<and>
    IsImmediateChildOfSysPath (NewPlatform T) (ETH_ACCOUNT_PREFIX @ addr @ ''/profiles/'' @ nam) \<and>
    IsImmediateChildOfSysPath (NewPlatform T) (ETH_ACCOUNT_PREFIX @ addr @ ''/storage/'' @ nam) \<and>
    IsImmediateChildOfSysPath (NewPlatform T) (ETH_ACCOUNT_PREFIX @ addr @ ''/storage/native/'' @ nam) \<and>
    \<not> IsImmediateChildOfSysPath (NewPlatform T) (ETH_ACCOUNT_PREFIX @ addr @ ''/storage/container/'' @ nam) \<and>
    \<not> IsImmediateChildOfSysPath (NewPlatform T)
        (ETH_ACCOUNT_PREFIX @ addr @ ''/storage/container/'' @ box @ ''/'' @ nam)"
proof -
  note par = account_dir_parent [OF assms(3,4)] and sys = IsSysPath_account [OF assms(1)]
  have cont: "IsContainerPath (ETH_ACCOUNT_PREFIX @ addr @ d) = HasSuffix (addr @ d) ''/container/''" for d
    using HasSuffix_long [of "''/container/''" "addr @ d" ETH_ACCOUNT_PREFIX] assms(1)
    by (simp add: IsContainerPath_def)
  have rev_cont: "HasSuffix t ''/container/'' = prefix ''/reniatnoc/'' (rev t)" for t
    by (simp add: HasSuffix_def suffix_to_prefix)
  have "\<not> prefix ''reniatnoc/'' (rev addr)"
    using assms(2) set_mono_prefix [of "''reniatnoc/''" "rev addr"] by auto
  then have plain: "\<not> HasSuffix (addr @ d) ''/container/''"
    if "d \<in> {''/'', ''/profiles/'', ''/storage/'', ''/storage/native/''}" for d
    using that by (auto simp: rev_cont)
  have direct: "IsImmediateChildOfSysPath (NewPlatform T) (ETH_ACCOUNT_PREFIX @ addr @ d @ nam)"
    if "d \<in> {''/'', ''/profiles/'', ''/storage/'', ''/storage/native/''}" for d
    using that plain [OF that] sys [of d T] par [of d addr]
    by (auto simp: IsImmediateChildOfSysPath_def cont builtinPaths_eq)
  have nosys: "\<not> IsSysPath (NewPlatform T) (ETH_ACCOUNT_PREFIX @ addr @ ''/storage/container/'' @ q)"
    if "q \<noteq> []" for q
    using that sys [of "''/storage/container/'' @ q" T] by (simp add: builtinPaths_eq)
  have top: "\<not> IsImmediateChildOfSysPath (NewPlatform T) (ETH_ACCOUNT_PREFIX @ addr @ ''/storage/container/'' @ nam)"
    using nosys [OF assms(3)] par [of "''/storage/container/''" addr]
    by (simp add: IsImmediateChildOfSysPath_def cont rev_cont)
  have "Contains (ETH_ACCOUNT_PREFIX @ x) ''/''" for x
    by (simp add: Contains_def ETH_ACCOUNT_PREFIX_eq sublist_Cons_right)
  then have inner: "\<not> IsImmediateChildOfSysPath (NewPlatform T)
      (ETH_ACCOUNT_PREFIX @ addr @ ''/storage/container/'' @ box @ ''/'' @ nam)"
    using nosys [of "box @ ''/'' @ nam"] nosys [of "box @ ''/''"]
      par [of "''/storage/container/'' @ box @ ''/''" addr]
    by (simp add: IsImmediateChildOfSysPath_def)
  show ?thesis using direct top inner by blast
qed

text \<open>
  Accounts in paths carry the prefix \<open>0x\<close>, which \<open>hex.DecodeString\<close> rejects: for every
  path of such an account \<open>ParseAddressAndSelector\<close> returns an error and zero values, and
  \<open>DeriveUIDFromPath\<close> returns 0 and leaves the builder as it was.
\<close>
theorem ParseAddressAndSelector_rejects_0x:
  assumes "path = ETH_ACCOUNT_PREFIX @ ''0x'' @ rest" and "64 \<le> length path"
  shows "(\<exists>msg. ParseAddressAndSelector path = (replicate 20 0, replicate 4 0, Some msg)) \<and>
    DeriveUIDFromPath FromBytes path b = (0, b)"
proof -
  have "take 42 (drop 22 path) = CHR ''0'' # CHR ''x'' # take 40 rest"
    using assms(1) by (simp add: numeral_eq_Suc)
  moreover obtain e where "hexDecodeString (CHR ''0'' # CHR ''x'' # take 40 rest) = Inl e"
    using hexDecode_0x by blast
  ultimately show ?thesis
    using assms(2)
    by (simp add: DeriveUIDFromPath_def ParseAddressAndSelector_def account_lengths Let_def)
qed

theorem ParseAddressAndSelector_rejects_0x_witness:
  "\<exists>msg. ParseAddressAndSelector (ETH_ACCOUNT_PREFIX @ ''0x'' @ replicate 40 (CHR ''a'')) =
     (replicate 20 0, replicate 4 0, Some msg)"
  using ParseAddressAndSelector_rejects_0x [OF refl, of "replicate 40 (CHR ''a'')"] by simp

text \<open>
  \<open>ETHAccountShard\<close> returns a shard number below the number of shards for every key that
  is long enough, provided the digit conversion yields digits.
\<close>
theorem ETHAccountShard_bounds:
  assumes "\<And>c. 0 \<le> Hex2int c" and "0 < n" and "24 \<le> length key"
  shows "\<exists>r. ETHAccountShard Hex2int n key = Some r \<and> 0 \<le> r \<and> r < n"
proof -
  let ?x = "Hex2int (key ! 22) * 16 + Hex2int (key ! 23)"
  have "0 \<le> ?x" using assms(1) by simp
  then have "sgn ?x * (\<bar>?x\<bar> mod \<bar>n\<bar>) = ?x mod n"
    using assms(2) by (cases "?x = 0") auto
  then show ?thesis
    using assms(2,3) by (simp add: ETHAccountShard_def go_rem_def)
qed

theorem ETHAccountShard_bounds_witness:
  "\<exists>r. ETHAccountShard (\<lambda>c. int (of_char c)) 8 (replicate 30 (CHR ''7'')) = Some r \<and> 0 \<le> r \<and> r < 8"
  by (rule ETHAccountShard_bounds) simp_all

text \<open>
  Characters 22 and 23 of a full account path are the constant \<open>0x\<close>: all accounts given
  by their full path fall into the same shard.
\<close>
theorem ETHAccountShard_constant_on_account_paths:
  "ETHAccountShard Hex2int n (ETH_ACCOUNT_PREFIX @ ''0x'' @ a) =
   ETHAccountShard Hex2int n (ETH_ACCOUNT_PREFIX @ ''0x'' @ b)"
  by (simp add: ETHAccountShard_def nth_append)

section \<open>What creating an account needs of a store\<close>

text \<open>Every path comes after its parent: the parent is short, already there, or earlier in the list.\<close>

fun parentsFirst :: "string set \<Rightarrow> string list \<Rightarrow> bool" where
  "parentsFirst S [] = True"
| "parentsFirst S (p # ps) = (fst (GetParentPath p) \<in> S \<and> parentsFirst (insert p S) ps)"

text \<open>A system path directly below a system directory that is not a container, with an ordinary name.\<close>

definition sysEntry :: "type_ids \<Rightarrow> string \<Rightarrow> bool" where
  "sysEntry T p \<longleftrightarrow> IsSysPath (NewPlatform T) p \<and> p \<noteq> [] \<and> last p \<noteq> CHR ''*'' \<and> last p \<noteq> CHR '']'' \<and>
     \<not> IsContainerPath (fst (GetParentPath p)) \<and> IsSysPath (NewPlatform T) (fst (GetParentPath p))"

lemma account_root_parent:
  "length acct = 42 \<Longrightarrow> CHR ''/'' \<notin> set acct \<Longrightarrow>
   GetParentPath ((ETH_ACCOUNT_PREFIX @ acct) @ ''/'') = (ETH_ACCOUNT_PREFIX, acct @ ''/'')"
  using GetParentPath_child [of ETH_ACCOUNT_PREFIX "acct @ ''/''"]
  by (auto simp: ETH_ACCOUNT_PREFIX_eq)

lemma builtin_sysEntry:
  assumes "length acct = 42" "CHR ''/'' \<notin> set acct" "b \<in> set builtinPaths"
  shows "sysEntry T ((ETH_ACCOUNT_PREFIX @ acct) @ b)"
proof -
  define X where "X = ETH_ACCOUNT_PREFIX @ acct"
  note root = account_root_parent [OF assms(1,2), folded X_def]
  have sys: "IsSysPath (NewPlatform T) (X @ b)" if "b \<in> set builtinPaths" for b
    using IsSysPath_account [OF assms(1), of b T] that by (auto simp: X_def builtinPaths_eq)
  have pre: "IsSysPath (NewPlatform T) ETH_ACCOUNT_PREFIX" by (simp add: IsSysPath_def account_lengths)
  have nc: "\<not> IsContainerPath ETH_ACCOUNT_PREFIX"
    by (simp add: IsContainerPath_def HasSuffix_def ETH_ACCOUNT_PREFIX_eq suffix_to_prefix)
  have "\<not> HasSuffix (acct @ ''/'') ''/container/''"
    using assms(2) by (auto simp: HasSuffix_def suffix_def)
  then have nx: "\<not> IsContainerPath (X @ ''/'')"
    using assms(1) HasSuffix_long [of "''/container/''" "acct @ ''/''" ETH_ACCOUNT_PREFIX]
    by (simp add: IsContainerPath_def X_def)
  show ?thesis
    using assms(3) sys [of "''/''"] sys [of "''/storage/''"] sys [of b] pre root nc
      nx [unfolded IsContainerPath_def HasSuffix_def suffix_def] unfolding X_def [symmetric]
    by (auto simp: sysEntry_def builtinPaths_eq builtin_parents IsContainerPath_def HasSuffix_def suffix_def)
qed

text \<open>
  The interface \<open>CreateDefaultPaths\<close> relies on: short paths exist, and writing a missing system path
  below an existing system directory succeeds, makes the path exist and loses no other.
\<close>

locale path_store =
  fixes T :: type_ids
    and has :: "string \<Rightarrow> 's \<Rightarrow> bool"
    and wr :: "u64 \<Rightarrow> string \<Rightarrow> 'v option \<Rightarrow> 's \<Rightarrow> (('n \<times> err) \<times> 's) option"
    and inv :: "'s \<Rightarrow> bool"
    and valid :: "'v \<Rightarrow> bool"
  assumes has_short: "\<And>p s. inv s \<Longrightarrow> length p \<le> ETH_ACCOUNT_PREFIX_LENGTH \<Longrightarrow> has p s"
    and wr_ok: "\<And>tx p v s. \<lbrakk>inv s; sysEntry T p; has (fst (GetParentPath p)) s; \<not> has p s; valid v\<rbrakk> \<Longrightarrow>
      \<exists>d s'. wr tx p (Some v) s = Some ((d, None), s') \<and> inv s' \<and> has p s' \<and> (\<forall>q. has q s \<longrightarrow> has q s')"
begin

lemma createLoop_ok:
  assumes "inv s" "parentsFirst S (map fst ps)" "\<And>q. q \<in> S \<Longrightarrow> has q s"
    and "\<And>p t. (p, t) \<in> set ps \<Longrightarrow> sysEntry T p \<and> (\<exists>v. dv t = Some v \<and> valid v)"
  shows "\<exists>cells s'. createLoop has wr newCell dv tx ps acc s = Some ((acc @ cells, None), s') \<and> inv s' \<and>
    (\<forall>p \<in> set (map fst ps). has p s') \<and> (\<forall>q. has q s \<longrightarrow> has q s')"
  using assms
proof (induction ps arbitrary: S s acc)
  case Nil
  then show ?case by simp
next
  case (Cons pt ps)
  obtain p t where pt: "pt = (p, t)" by fastforce
  obtain v where v: "dv t = Some v" "valid v" using Cons.prems(4) [of p t] pt by auto
  have rest: "parentsFirst (insert p S) (map fst ps)" using Cons.prems(2) pt by simp
  have tail: "\<exists>cells s''. createLoop has wr newCell dv tx ps acc' s' = Some ((acc' @ cells, None), s'') \<and> inv s'' \<and>
      (\<forall>p \<in> set (map fst ps). has p s'') \<and> (\<forall>q. has q s' \<longrightarrow> has q s'')"
    if "inv s'" "has p s'" "\<And>q. has q s \<Longrightarrow> has q s'" for s' acc'
  proof (rule Cons.IH [OF that(1) rest])
    show "has q s'" if "q \<in> insert p S" for q using that \<open>has p s'\<close> \<open>\<And>q. has q s \<Longrightarrow> has q s'\<close> Cons.prems(3) by blast
    show "sysEntry T a \<and> (\<exists>v. dv b = Some v \<and> valid v)" if "(a, b) \<in> set ps" for a b
      using Cons.prems(4) [of a b] that by simp
  qed
  show ?case
  proof (cases "has p s")
    case True
    then show ?thesis using tail [OF Cons.prems(1), of acc] pt by auto
  next
    case False
    have par: "has (fst (GetParentPath p)) s" using Cons.prems(2,3) pt by simp
    have entry: "sysEntry T p" using Cons.prems(4) [of p t] pt by simp
    obtain d s1 where w: "wr tx p (Some v) s = Some ((d, None), s1)" "inv s1" "has p s1" "\<And>q. has q s \<Longrightarrow> has q s1"
      using wr_ok [OF Cons.prems(1) entry par False v(2), of tx] by blast
    show ?thesis using tail [OF w(2-4), of "acc @ [newCell tx p (Some v)]"] False w pt v(1) by auto
  qed
qed

text \<open>Creating an account on such a store succeeds and leaves all eight built-in paths.\<close>

lemma CreateDefaultPaths_ok:
  assumes "kvs_law KVs" "sort1st_law SortBy1st" "length acct = 42" "CHR ''/'' \<notin> set acct" "inv s" "ids_law T"
    and "\<And>t v. defaultValue T iv t = Some v \<Longrightarrow> valid v"
  shows "\<exists>cells s'. CreateDefaultPaths KVs SortBy1st T iv newCell has wr tx acct s = Some ((cells, None), s') \<and> inv s' \<and>
    (\<forall>b \<in> set builtinPaths. has (ETH_ACCOUNT_PREFIX @ acct @ b) s') \<and> (\<forall>q. has q s \<longrightarrow> has q s')"
proof -
  define X where "X = ETH_ACCOUNT_PREFIX @ acct"
  define tids where "tids = [idPATH T, idUINT256 T, idBYTES T, idUINT64 T, idPATH T, idPATH T, idPATH T, idPATH T]"
  let ?ps = "zip (map (\<lambda>p. X @ p) builtinPaths) tids"
  have gd: "GetDefault KVs SortBy1st (NewPlatform T) acct = (map (\<lambda>p. X @ p) builtinPaths, tids)"
    using GetDefault_list [OF assms(1,2), of T acct] by (simp add: X_def tids_def builtinPaths_eq)
  note root = account_root_parent [OF assms(3,4), folded X_def]
  have keys: "map fst ?ps = map (\<lambda>p. X @ p) builtinPaths" by (simp add: tids_def builtinPaths_eq)
  have first: "parentsFirst {ETH_ACCOUNT_PREFIX} (map fst ?ps)"
    unfolding keys by (simp add: builtinPaths_eq root builtin_parents)
  have prefix: "has ETH_ACCOUNT_PREFIX s"
    by (rule has_short [OF assms(5)]) (simp add: ETH_ACCOUNT_PREFIX_LENGTH_def)
  have entries: "sysEntry T (X @ b)" if "b \<in> set builtinPaths" for b
    using builtin_sysEntry [OF assms(3,4) that] by (simp add: X_def)
  have vals: "\<exists>v. defaultValue T iv t = Some v" if "t \<in> set tids" for t
    using that by (auto simp: tids_def defaultValue_def)
  have "\<exists>cells s'. createLoop has wr newCell (defaultValue T iv) tx ?ps [] s = Some (([] @ cells, None), s') \<and> inv s' \<and>
      (\<forall>p \<in> set (map fst ?ps). has p s') \<and> (\<forall>q. has q s \<longrightarrow> has q s')"
  proof (rule createLoop_ok [OF assms(5) first])
    show "has q s" if "q \<in> {ETH_ACCOUNT_PREFIX}" for q using that prefix by simp
    show "sysEntry T p \<and> (\<exists>v. defaultValue T iv t = Some v \<and> valid v)" if "(p, t) \<in> set ?ps" for p t
    proof -
      have "p \<in> set (map (\<lambda>p. X @ p) builtinPaths)" "t \<in> set tids"
        using that by (rule set_zip_leftD, rule set_zip_rightD)
      then show ?thesis using entries vals assms(7) by fastforce
    qed
  qed
  then show ?thesis unfolding keys by (simp add: CreateDefaultPaths_def gd X_def)
qed

end

end
