(* ===== verification/Staging.thy ===== *)
theory Staging
  imports Platform Indexers
begin

text \<open>
  What the store writers have in common: the filters of \<open>src/storage/proxy/state_proxy.go\<close> that
  select the transitions to persist, the third-party slice helpers the writers use, the two-phase
  staging interface every writer offers to the committer (the locale \<open>staged_writer\<close>), and the
  meaning of a batch of deletions and writes.
\<close>

section \<open>Filters (state_proxy.go)\<close>

text \<open>A filter decides whether a transition is imported; it may change the cell's value.\<close>

type_synonym 'c filt = "ref \<Rightarrow> 'c heap \<Rightarrow> (bool \<times> 'c heap) option"

text \<open>The methods of CRDT values and of \<open>commutative.Path\<close> the filters use; \<open>isPath\<close> is the type
  assertion to \<open>*commutative.Path\<close>.\<close>

record 'v path_api =
  vTypeID :: "'v \<Rightarrow> u8"
  vPATH :: u8
  isPath :: "'v \<Rightarrow> bool"
  pathIsBlockBound :: "'v \<Rightarrow> bool"
  pathReset :: "'v \<Rightarrow> 'v"

definition path_law :: "('c, 'v) cell_api \<Rightarrow> 'v path_api \<Rightarrow> bool" where
  "path_law A V \<longleftrightarrow>
     (\<forall>v. isCRDT A v \<and> vTypeID V v = vPATH V \<longrightarrow> isPath V v \<and> isCRDT A (pathReset V v))"

definition NonTransientOnly :: "('c, 'v) cell_api \<Rightarrow> 'v path_api \<Rightarrow> Platform \<Rightarrow> 'c filt" where
  "NonTransientOnly A V platform tran h =
     (let keep = (\<lambda>h. Some (\<not> IsBlockBound A (cellAt h tran), h)) in
      case valueAt A h tran of
        None \<Rightarrow> keep h
      | Some v \<Rightarrow>
          if \<not> isCRDT A v then None
          else if vTypeID V v \<noteq> vPATH V then keep h
          else if \<not> isPath V v then None
          else if \<not> pathIsBlockBound V v then keep h
          else case pathAt A h tran of
                 None \<Rightarrow> None
               | Some p \<Rightarrow>
                   if IsSysPath platform p
                   then keep (upd tran (SetValue A (Some (pathReset V v))) h)
                   else keep h)"

definition EthOnly :: "('c, 'v) cell_api \<Rightarrow> 'c filt" where
  "EthOnly A tran h =
     (case pathAt A h tran of None \<Rightarrow> None | Some p \<Rightarrow> Some (ShouldPersistToEth p, h))"

definition AllTransitions :: "'c filt" where
  "AllTransitions tran h = Some (True, h)"

text \<open>
  What the writers expect of a filter: on a transition with a path and a typed value it answers
  by the cell's metadata alone, and changes nothing but the value of that cell.
\<close>

definition filt_law :: "('c, 'v) cell_api \<Rightarrow> ('c \<Rightarrow> bool) \<Rightarrow> 'c filt \<Rightarrow> bool" where
  "filt_law A acc f \<longleftrightarrow>
     (\<forall>c c'. GetPath A c = GetPath A c' \<and> GetTx A c = GetTx A c' \<and> IsBlockBound A c = IsBlockBound A c' \<and>
        IfSkipConflictCheck A c = IfSkipConflictCheck A c' \<longrightarrow> acc c = acc c') \<and>
     (\<forall>r h. pathAt A h r \<noteq> None \<and> typedAt A h r \<longrightarrow>
        (\<exists>h'. f r h = Some (acc (cellAt h r), h') \<and> sameMeta A h h' \<and> typedAt A h' r \<and>
           (\<forall>q. q \<noteq> r \<longrightarrow> cellAt h' q = cellAt h q)))"

lemma NonTransientOnly_law:
  assumes "cell_law A" "path_law A V"
  shows "filt_law A (\<lambda>c. \<not> IsBlockBound A c) (NonTransientOnly A V platform)"
proof -
  have "\<exists>h'. NonTransientOnly A V platform r h = Some (\<not> IsBlockBound A (cellAt h r), h') \<and>
      sameMeta A h h' \<and> typedAt A h' r \<and> (\<forall>q. q \<noteq> r \<longrightarrow> cellAt h' q = cellAt h q)"
    if p: "pathAt A h r = Some p" and t: "typedAt A h r" for r h p
  proof (cases "valueAt A h r")
    case None
    then show ?thesis using t by (simp add: NonTransientOnly_def)
  next
    case (Some v)
    let ?h = "upd r (SetValue A (Some (pathReset V v))) h"
    have "isCRDT A v" using Some t by (simp add: typedAt_def)
    moreover have "sameMeta A h ?h" by (simp add: sameMeta_def cell_law_simps [OF assms(1)])
    moreover have "vTypeID V v = vPATH V \<Longrightarrow> isPath V v \<and> typedAt A ?h r"
      using assms(2) \<open>isCRDT A v\<close> by (simp add: path_law_def typedAt_def cell_law_simps [OF assms(1)])
    ultimately show ?thesis using Some p t
      by (auto simp: NonTransientOnly_def Let_def cell_law_simps [OF assms(1)])
  qed
  then show ?thesis unfolding filt_law_def by blast
qed

section \<open>Slice helpers\<close>

text \<open>\<open>slice.ParallelTransform\<close> runs the closure once for every index, in some order, and
  collects the results by index; the closures here also write into a slice of keys.\<close>

fun transformSpec ::
  "(nat \<Rightarrow> ref \<Rightarrow> string list \<Rightarrow> ('v \<times> string list) option) \<Rightarrow> ref list \<Rightarrow> nat list \<Rightarrow>
   (nat \<rightharpoonup> 'v) \<times> string list \<Rightarrow> ((nat \<rightharpoonup> 'v) \<times> string list) option" where
  "transformSpec f xs [] s = Some s"
| "transformSpec f xs (i # is) (res, ks) = do {
     (y, ks') \<leftarrow> f i (xs ! i) ks;
     transformSpec f xs is (res(i \<mapsto> y), ks')
   }"

type_synonym 'v transform =
  "(nat \<Rightarrow> ref \<Rightarrow> string list \<Rightarrow> ('v \<times> string list) option) \<Rightarrow> ref list \<Rightarrow> string list \<Rightarrow>
   ('v list \<times> string list) option"

definition transform_law :: "'v transform \<Rightarrow> bool" where
  "transform_law PT \<longleftrightarrow>
     (\<forall>f xs ks. \<exists>is. mset is = mset [0..<length xs] \<and>
        PT f xs ks = map_option (\<lambda>(res, ks'). (map (\<lambda>i. the (res i)) [0..<length xs], ks'))
          (transformSpec f xs is (Map.empty, ks)))"

lemma transformSpec_keys:
  assumes "distinct is" "set is \<subseteq> {..<length xs}" "length ks = length xs"
    and "\<And>i. i \<in> set is \<Longrightarrow> key (xs ! i) \<noteq> None \<and> val (xs ! i) \<noteq> None"
  shows "transformSpec (\<lambda>i x ks. do { k \<leftarrow> key x; y \<leftarrow> val x; Some (y, ks[i := k]) }) xs is (res, ks) =
    Some (\<lambda>i. if i \<in> set is then val (xs ! i) else res i,
      map (\<lambda>i. if i \<in> set is then the (key (xs ! i)) else ks ! i) [0..<length xs])"
  using assms
proof (induction "is" arbitrary: res ks)
  case Nil
  then show ?case by simp (metis map_nth)
next
  case (Cons i "is")
  obtain k y where ky: "key (xs ! i) = Some k" "val (xs ! i) = Some y" using Cons.prems(4) [of i] by auto
  have "transformSpec (\<lambda>i x ks. do { k \<leftarrow> key x; y \<leftarrow> val x; Some (y, ks[i := k]) }) xs is (res(i \<mapsto> y), ks[i := k]) =
    Some (\<lambda>j. if j \<in> set is then val (xs ! j) else (res(i \<mapsto> y)) j,
      map (\<lambda>j. if j \<in> set is then the (key (xs ! j)) else ks[i := k] ! j) [0..<length xs])"
    using Cons.prems by (intro Cons.IH) auto
  then show ?case using ky Cons.prems by (auto simp: fun_eq_iff nth_list_update)
qed

lemma transform_keys:
  assumes "transform_law PT" "length ks = length xs"
    and "\<And>x. x \<in> set xs \<Longrightarrow> key x \<noteq> None \<and> val x \<noteq> None"
  shows "PT (\<lambda>i x ks. do { k \<leftarrow> key x; y \<leftarrow> val x; Some (y, ks[i := k]) }) xs ks =
    Some (map (\<lambda>x. the (val x)) xs, map (\<lambda>x. the (key x)) xs)"
proof -
  obtain "is" where o: "mset is = mset [0..<length xs]"
    and pt: "PT (\<lambda>i x ks. do { k \<leftarrow> key x; y \<leftarrow> val x; Some (y, ks[i := k]) }) xs ks =
      map_option (\<lambda>(res, ks'). (map (\<lambda>i. the (res i)) [0..<length xs], ks'))
        (transformSpec (\<lambda>i x ks. do { k \<leftarrow> key x; y \<leftarrow> val x; Some (y, ks[i := k]) }) xs is (Map.empty, ks))"
    using assms(1) unfolding transform_law_def by blast
  have s: "set is = {..<length xs}" "distinct is"
    using o by (metis mset_eq_setD set_upt atLeast_upt, metis mset_eq_imp_distinct_iff distinct_upt)
  have run: "transformSpec (\<lambda>i x ks. do { k \<leftarrow> key x; y \<leftarrow> val x; Some (y, ks[i := k]) }) xs is (Map.empty, ks) =
      Some (\<lambda>i. if i \<in> set is then val (xs ! i) else Map.empty i,
        map (\<lambda>i. if i \<in> set is then the (key (xs ! i)) else ks ! i) [0..<length xs])"
    using s assms(2,3) by (intro transformSpec_keys) (auto simp: s)
  show ?thesis unfolding pt run by (auto simp: s intro: nth_equalityI)
qed

text \<open>\<open>slice.MoveBothIf\<close> splits two parallel slices: the moved pair, then what is left.\<close>

type_synonym 'x movebothif =
  "(nat \<Rightarrow> string \<Rightarrow> 'x \<Rightarrow> bool) \<Rightarrow> string list \<times> 'x list \<Rightarrow>
   (string list \<times> 'x list) \<times> (string list \<times> 'x list)"

definition unzip :: "('a \<times> 'b) list \<Rightarrow> 'a list \<times> 'b list" where
  "unzip ps = (map fst ps, map snd ps)"

definition movebothif_law :: "'x movebothif \<Rightarrow> bool" where
  "movebothif_law M \<longleftrightarrow>
     (\<forall>P ks vs. length ks = length vs \<longrightarrow>
        M (\<lambda>_. P) (ks, vs) = (unzip (filter (\<lambda>(k, v). P k v) (zip ks vs)),
                             unzip (filter (\<lambda>(k, v). \<not> P k v) (zip ks vs))))"

text \<open>\<open>slice.ConcateDo\<close> joins the slices a getter reads off the elements; its sizer gives their
  lengths.\<close>

type_synonym ('i, 'e) concat_do = "'i list \<Rightarrow> ('i \<Rightarrow> u64) \<Rightarrow> ('i \<Rightarrow> 'e list) \<Rightarrow> 'e list"

definition concat_law :: "('i, 'e) concat_do \<Rightarrow> bool" where
  "concat_law C \<longleftrightarrow> (\<forall>xs g. C xs (\<lambda>x. of_nat (length (g x))) g = concat (map g xs))"

section \<open>Batches\<close>

text \<open>
  A batch is a list of paths with their new values, None for a deletion. \<open>replay\<close> is what a
  batch means: its entries take effect one after the other. \<open>commitBatch\<close> is what the writers
  do: all deletions first, then all writes.
\<close>

type_synonym 'x batch = "(string \<times> 'x option) list"

definition replay :: "'x batch \<Rightarrow> (string \<rightharpoonup> 'x) \<Rightarrow> (string \<rightharpoonup> 'x)" where
  "replay b m = fold (\<lambda>(k, v) m. m(k := v)) b m"

fun lastSet :: "'x batch \<Rightarrow> string \<Rightarrow> 'x option" where
  "lastSet [] k = None"
| "lastSet ((p, v) # b) k =
     (case lastSet b k of Some w \<Rightarrow> Some w | None \<Rightarrow> if p = k then v else None)"

definition commitBatch :: "'x batch \<Rightarrow> (string \<rightharpoonup> 'x) \<Rightarrow> (string \<rightharpoonup> 'x)" where
  "commitBatch b m k =
     (case lastSet b k of Some v \<Rightarrow> Some v | None \<Rightarrow> if (k, None) \<in> set b then None else m k)"

text \<open>No path is deleted after it has been written.\<close>

fun deletesFirst :: "'x batch \<Rightarrow> bool" where
  "deletesFirst [] = True"
| "deletesFirst ((p, v) # b) = ((v \<noteq> None \<longrightarrow> (p, None) \<notin> set b) \<and> deletesFirst b)"

lemma replay_Cons: "replay ((p, v) # b) m = replay b (m(p := v))"
  by (simp add: replay_def)

lemma lastSet_in: "lastSet b k = Some v \<Longrightarrow> (k, Some v) \<in> set b"
  by (induction b k rule: lastSet.induct) (auto split: option.splits if_splits)

lemma lastSet_None: "lastSet b k = None \<longleftrightarrow> (\<forall>v. (k, Some v) \<notin> set b)"
  by (induction b k rule: lastSet.induct) (auto split: option.splits if_splits, metis not_None_eq)

lemma commitBatch_replay: "deletesFirst b \<Longrightarrow> commitBatch b m = replay b m"
proof (induction b arbitrary: m rule: deletesFirst.induct)
  case 1
  then show ?case by (simp add: fun_eq_iff commitBatch_def replay_def)
next
  case (2 p v b)
  have "commitBatch ((p, v) # b) m = commitBatch b (m(p := v))"
    using "2.prems" by (auto simp: fun_eq_iff commitBatch_def split: option.split)
  also have "\<dots> = replay b (m(p := v))" using "2.prems" by (intro "2.IH") simp
  finally show ?case by (simp only: replay_Cons)
qed

lemma deletesFirst_distinct: "distinct (map fst b) \<Longrightarrow> deletesFirst b"
  by (induction b rule: deletesFirst.induct) force+

lemma lastSet_map_of:
  "lastSet b k = map_of (rev (map (\<lambda>(k, v). (k, the v)) (filter (\<lambda>(k, v). v \<noteq> None) b))) k"
  by (induction b k rule: lastSet.induct)
     (auto simp: map_add_def split: option.split)

text \<open>Stores with batch operations: the operation, its lookup and the law that relates them.\<close>

definition batch_law ::
  "(string list \<Rightarrow> 'k \<Rightarrow> 'k) \<Rightarrow> (string list \<Rightarrow> 'x list \<Rightarrow> 'k \<Rightarrow> 'k) \<Rightarrow> ('k \<Rightarrow> string \<rightharpoonup> 'x) \<Rightarrow> bool" where
  "batch_law del st look \<longleftrightarrow>
     (\<forall>ks s. look (del ks s) = (\<lambda>k. if k \<in> set ks then None else look s k)) \<and>
     (\<forall>ks vs s. length ks = length vs \<longrightarrow> look (st ks vs s) = look s ++ map_of (rev (zip ks vs)))"

lemma batch_commit_at:
  assumes "movebothif_law M" "length ks = length vs"
    and "M (\<lambda>_ _ v. v = None) (ks, vs) = ((dk, dv), (sk, sv))"
    and "look s1 = (\<lambda>k. if k \<in> set dk then None else look s k)"
    and "length sk = length (map the sv) \<Longrightarrow> look s2 = look s1 ++ map_of (rev (zip sk (map the sv)))"
  shows "look s2 = commitBatch (zip ks vs) (look s)"
proof -
  have m: "dk = map fst (filter (\<lambda>(k, v). v = None) (zip ks vs))"
    "sk = map fst (filter (\<lambda>(k, v). v \<noteq> None) (zip ks vs))"
    "sv = map snd (filter (\<lambda>(k, v). v \<noteq> None) (zip ks vs))"
    using assms(1-3) by (auto simp: movebothif_law_def unzip_def)
  have z: "zip sk (map the sv) = map (\<lambda>(k, v). (k, the v)) (filter (\<lambda>(k, v). v \<noteq> None) (zip ks vs))"
    unfolding m by (simp add: zip_map_map case_prod_beta' flip: zip_map_fst_snd)
       (simp add: zip_same_conv_map case_prod_beta')
  have d: "k \<in> set dk \<longleftrightarrow> (k, None) \<in> set (zip ks vs)" for k
    unfolding m by force
  have "length sk = length (map the sv)" unfolding m by simp
  note s2 = assms(5) [OF this]
  have "look s2 k = commitBatch (zip ks vs) (look s) k" for k
    unfolding s2 z commitBatch_def lastSet_map_of by (simp add: map_add_def assms(4) d split: option.split)
  then show ?thesis by blast
qed

lemma batch_commit:
  assumes "batch_law del st look" "movebothif_law M" "length ks = length vs"
    and "M (\<lambda>_ _ v. v = None) (ks, vs) = ((dk, dv), (sk, sv))"
  shows "look (st sk (map the sv) (del dk s)) = commitBatch (zip ks vs) (look s)"
  using assms(1) unfolding batch_law_def by (intro batch_commit_at [OF assms(2-4)]) blast+

section \<open>The interface of a writer\<close>

text \<open>The transitions of a list that have not been reverted or merged away.\<close>

definition liveIn :: "('c, 'v) cell_api \<Rightarrow> 'c heap \<Rightarrow> ref list \<Rightarrow> ref list" where
  "liveIn A h rs = filter (\<lambda>r. pathAt A h r \<noteq> None) rs"

text \<open>
  Every writer keeps an inbox of imported transitions, the transitions staged for the current
  generation and the batches of the generations it has closed. \<open>Precommit(true)\<close> moves the inbox
  to the stage, \<open>Precommit(false)\<close> closes the generation.
\<close>

locale staged_writer =
  fixes A :: "('c, 'v) cell_api"
    and imp :: "ref list \<Rightarrow> 'c heap \<Rightarrow> 's \<Rightarrow> ('s \<times> 'c heap) option"
    and pre :: "bool \<Rightarrow> 'c heap \<Rightarrow> 's \<Rightarrow> ('s \<times> err) option"
    and inbox :: "'s \<Rightarrow> ref list" and staged :: "'s \<Rightarrow> ref list" and batches :: "'s \<Rightarrow> ref list list"
    and accepts :: "'s \<Rightarrow> 'c \<Rightarrow> bool"
    and inv :: "'s \<Rightarrow> bool"
  assumes imp_ok: "\<And>ts h s. \<lbrakk>inv s; distinct ts; \<And>r. r \<in> set ts \<Longrightarrow> pathAt A h r \<noteq> None \<and> typedAt A h r\<rbrakk> \<Longrightarrow>
      \<exists>s' h'. imp ts h s = Some (s', h') \<and> inv s' \<and> sameMeta A h h' \<and> (\<forall>r \<in> set ts. typedAt A h' r) \<and>
        (\<forall>r. r \<notin> set ts \<longrightarrow> cellAt h' r = cellAt h r) \<and>
        inbox s' = inbox s @ filter (\<lambda>r. accepts s (cellAt h r)) ts \<and>
        staged s' = staged s \<and> batches s' = batches s \<and> accepts s' = accepts s"
    and sync_ok: "\<And>h s. inv s \<Longrightarrow>
      \<exists>s'. pre True h s = Some (s', None) \<and> inv s' \<and> inbox s' = [] \<and> staged s' = inbox s \<and>
        batches s' = batches s \<and> accepts s' = accepts s"
    and async_ok: "\<And>h s. \<lbrakk>inv s; \<And>r. r \<in> set (liveIn A h (staged s)) \<Longrightarrow> typedAt A h r\<rbrakk> \<Longrightarrow>
      \<exists>s'. pre False h s = Some (s', None) \<and> inv s' \<and> inbox s' = [] \<and> staged s' = [] \<and>
        batches s' = batches s @ [liveIn A h (staged s)] \<and> accepts s' = accepts s"
begin

text \<open>One generation: import, stage, merge (which changes the heap), close.\<close>

lemma generation:
  assumes "inv s" "inbox s = []" "distinct ts"
    and "\<And>r. r \<in> set ts \<Longrightarrow> pathAt A h r \<noteq> None \<and> typedAt A h r"
    and "\<And>r. r \<in> set (liveIn A g ts) \<Longrightarrow> typedAt A g r"
  shows "\<exists>s1 h1 s2 s3. imp ts h s = Some (s1, h1) \<and> pre True h1 s1 = Some (s2, None) \<and>
    pre False g s2 = Some (s3, None) \<and> inv s3 \<and> inbox s3 = [] \<and>
    batches s3 = batches s @ [liveIn A g (filter (\<lambda>r. accepts s (cellAt h r)) ts)]"
proof -
  obtain s1 h1 where 1: "imp ts h s = Some (s1, h1)" "inv s1" "batches s1 = batches s"
    "inbox s1 = filter (\<lambda>r. accepts s (cellAt h r)) ts"
    using imp_ok [OF assms(1,3), of h] assms(2,4) by auto
  obtain s2 where 2: "pre True h1 s1 = Some (s2, None)" "inv s2" "inbox s2 = []"
    "staged s2 = inbox s1" "batches s2 = batches s1"
    using sync_ok [OF 1(2), of h1] by blast
  have "typedAt A g r" if "r \<in> set (liveIn A g (staged s2))" for r
    using that assms(5) [of r] 1(4) 2(4) by (auto simp: liveIn_def)
  then obtain s3 where "pre False g s2 = Some (s3, None)" "inv s3" "inbox s3 = []"
    "batches s3 = batches s2 @ [liveIn A g (staged s2)]"
    using async_ok [OF 2(2), of g] by blast
  with 1 2 show ?thesis by auto
qed

text \<open>Transitions imported after the stage has been taken are in no batch and no longer in the inbox
  once the generation is closed.\<close>

lemma late_import_lost:
  assumes "inv s" "distinct ts" "\<And>r. r \<in> set ts \<Longrightarrow> pathAt A h r \<noteq> None \<and> typedAt A h r"
    and "\<And>r. r \<in> set (staged s) \<Longrightarrow> typedAt A h r" and "set ts \<inter> set (staged s) = {}"
  shows "\<exists>s1 h1 s2. imp ts h s = Some (s1, h1) \<and> pre False h1 s1 = Some (s2, None) \<and>
    inbox s2 = [] \<and> staged s2 = [] \<and> batches s2 = batches s @ [liveIn A h (staged s)]"
proof -
  obtain s1 h1 where 1: "imp ts h s = Some (s1, h1)" "inv s1" "sameMeta A h h1"
    "staged s1 = staged s" "batches s1 = batches s" "\<forall>r. r \<notin> set ts \<longrightarrow> cellAt h1 r = cellAt h r"
    using imp_ok [OF assms(1-3)] by blast
  have live: "liveIn A h1 (staged s) = liveIn A h (staged s)"
    using 1(3) by (simp add: liveIn_def sameMeta_def)
  have "typedAt A h1 r" if "r \<in> set (staged s)" for r
    using that assms(4) [OF that] assms(5) 1(6) by (auto simp: typedAt_def)
  then have "\<exists>s2. pre False h1 s1 = Some (s2, None) \<and> inv s2 \<and> inbox s2 = [] \<and> staged s2 = [] \<and>
      batches s2 = batches s1 @ [liveIn A h1 (staged s1)] \<and> accepts s2 = accepts s1"
    using 1(4) by (intro async_ok [OF 1(2)]) (auto simp: liveIn_def)
  then show ?thesis using 1 live by auto
qed

end

end
