(* ===== verification/Blocks.thy ===== *)
theory Blocks
  imports Committer Staging
begin

text \<open>
  What the committer asks of a store writer to carry a block of several generations: the contract
  \<open>block_writer\<close>, stated for the writer objects behind the Go interface \<open>StoreWriter\<close>. Inside the contract a
  generation is followed from the import of its transitions through both precommit phases, and a block to its
  commit; the committer becomes a state machine over generations and blocks, whose reachable states are ready for
  either. Two kinds of writers can be driven side by side; this is how the writers of the execution path and
  the Ethereum writer are put together.
\<close>

section \<open>What finalizing leaves\<close>

text \<open>A cell whose value, if it has one, is of a CRDT type.\<close>

definition typedCell :: "('c, 'v) cell_api \<Rightarrow> 'c \<Rightarrow> bool" where
  "typedCell A c \<longleftrightarrow> (case Value A c of None \<Rightarrow> True | Some x \<Rightarrow> isCRDT A x)"

lemma typedAt_typedCell: "typedAt A h r = typedCell A (cellAt h r)"
  by (simp add: typedAt_def typedCell_def)

text \<open>
  Whether a generation can be merged: on every path, applying the later surviving transitions to the first reports no error
  and leaves a typed value. \<open>StateCell.ApplyDelta\<close> may report an error, on which the committer panics; which sequences
  it accepts depends on the CRDT types, so that this is a condition on the transitions of a generation.
\<close>

definition mergeable :: "('c, 'v) cell_api \<Rightarrow> 'c heap \<Rightarrow> u64 list \<Rightarrow> ref list \<Rightarrow> bool" where
  "mergeable A h txs ts \<longleftrightarrow> (\<forall>p. survivors A h txs ts p \<noteq> [] \<longrightarrow>
     snd (mergedCell A h (survivors A h txs ts p)) = None \<and> typedCell A (fst (mergedCell A h (survivors A h txs ts p))))"

text \<open>The heap \<open>h'\<close> after the transitions \<open>ts\<close> of the heap \<open>h\<close> have been finalized: every path has at most one
  live transition, which holds the merge of the surviving transitions of the path, live
  transitions are typed, and the other cells have not changed.\<close>

definition finalized :: "('c, 'v) cell_api \<Rightarrow> 'c heap \<Rightarrow> u64 list \<Rightarrow> ref list \<Rightarrow> 'c heap \<Rightarrow> bool" where
  "finalized A h txs ts h' \<longleftrightarrow>
     (\<forall>p. filter (\<lambda>r. pathAt A h' r = Some p) ts = (let g = survivors A h txs ts p in
        if g = [] then [] else [hd (sortSeq A h g)])) \<and>
     (\<forall>p. survivors A h txs ts p \<noteq> [] \<longrightarrow>
        cellAt h' (hd (sortSeq A h (survivors A h txs ts p))) = fst (mergedCell A h (survivors A h txs ts p))) \<and>
     (\<forall>r \<in> set (liveIn A h' ts). typedAt A h' r) \<and> (\<forall>r. r \<notin> set ts \<longrightarrow> cellAt h' r = cellAt h r)"

lemma finalized_heap:
  assumes law: "committer_law L" and idx: "indexed (lCell L) ts (this, h)" and m: "mergeable (lCell L) h txs ts"
  obtains h' where "Finalize L txs (this, h) = Some (this\<lparr>byPath := Map.empty, byTxID := Map.empty\<rparr>, h')"
    "finalized (lCell L) h txs ts h'"
proof -
  let ?A = "lCell L" and ?S = "\<lambda>p. survivors (lCell L) h txs ts p"
  have mem: "hd (sortSeq ?A h (?S p)) \<in> set (?S p)" if "?S p \<noteq> []" for p
    using sortSeq_ne [OF that] by (metis hd_in_set set_sortSeq)
  have sur: "r \<in> set ts" "pathAt ?A h r = Some p" "kept ?A h txs r" if "r \<in> set (?S p)" for r p
    using that by (auto simp: survivors_def)
  have merge: "snd (mergedCell ?A h (?S p)) = None \<and> typedCell ?A (fst (mergedCell ?A h (?S p)))" if "?S p \<noteq> []" for p
    using m that by (simp add: mergeable_def)
  obtain h' where h': "Finalize L txs (this, h) = Some (this\<lparr>byPath := Map.empty, byTxID := Map.empty\<rparr>, h')"
    "\<forall>r. r \<notin> set ts \<longrightarrow> cellAt h' r = cellAt h r"
    "\<forall>p. \<forall>r \<in> set ts. pathAt ?A h r = Some p \<longrightarrow> cellAt h' r =
         (if \<not> kept ?A h txs r then SetPath ?A None (cellAt h r)
          else if r = hd (sortSeq ?A h (?S p)) then fst (mergedCell ?A h (?S p))
          else SetPath ?A None (cellAt h r))"
    using Finalize_pointwise [OF law idx, of txs] merge by blast
  note live = Finalize_live_refs [OF law idx h'(3)]
  have cells: "cellAt h' (hd (sortSeq ?A h (?S p))) = fst (mergedCell ?A h (?S p))" if "?S p \<noteq> []" for p
    using h'(3) sur [OF mem [OF that]] by simp
  have "typedAt ?A h' r" if "r \<in> set (liveIn ?A h' ts)" for r
  proof -
    obtain p where "r \<in> set ts" "pathAt ?A h' r = Some p" using \<open>r \<in> set (liveIn ?A h' ts)\<close> by (auto simp: liveIn_def)
    then have "r \<in> set (filter (\<lambda>r. pathAt ?A h' r = Some p) ts)" by simp
    then have "?S p \<noteq> []" "r = hd (sortSeq ?A h (?S p))" unfolding live by (simp_all add: Let_def split: if_splits)
    then show ?thesis using merge cells by (simp add: typedAt_typedCell)
  qed
  then show ?thesis using that [OF h'(1)] live cells h'(2) unfolding finalized_def by blast
qed

text \<open>The live cell of a path after finalizing, if the filter accepts it, and what a block does to a
  path: the merge of its surviving transitions, if the filter accepts it.\<close>

definition headCell ::
  "('c, 'v) cell_api \<Rightarrow> ('c \<Rightarrow> bool) \<Rightarrow> 'c heap \<Rightarrow> u64 list \<Rightarrow> ref list \<Rightarrow> string \<Rightarrow> ref option" where
  "headCell A acc h txs ts p =
     (let g = survivors A h txs ts p in
      if g \<noteq> [] \<and> acc (cellAt h (hd (sortSeq A h g))) then Some (hd (sortSeq A h g)) else None)"

lemma headCell_filter:
  assumes "filter (\<lambda>r. pathAt A h' r = Some p) ts = (let g = survivors A h txs ts p in
      if g = [] then [] else [hd (sortSeq A h g)])"
  shows "filter (\<lambda>r. pathAt A h' r = Some p) (filter (\<lambda>r. acc (cellAt h r)) ts) =
    (case headCell A acc h txs ts p of None \<Rightarrow> [] | Some r \<Rightarrow> [r])"
proof -
  have "filter (\<lambda>r. pathAt A h' r = Some p) (filter (\<lambda>r. acc (cellAt h r)) ts) =
    filter (\<lambda>r. acc (cellAt h r)) (filter (\<lambda>r. pathAt A h' r = Some p) ts)"
    by (simp add: conj_commute)
  then show ?thesis unfolding assms by (simp add: headCell_def Let_def)
qed

lemma liveIn_keys: "filter (\<lambda>r. the (pathAt A h r) = p) (liveIn A h rs) = filter (\<lambda>r. pathAt A h r = Some p) rs"
  unfolding liveIn_def filter_filter by (rule filter_cong) auto

definition committedCell ::
  "('c, 'v) cell_api \<Rightarrow> ('c \<Rightarrow> bool) \<Rightarrow> 'c heap \<Rightarrow> u64 list \<Rightarrow> ref list \<Rightarrow> string \<Rightarrow> 'c option" where
  "committedCell A acc h txs ts p =
     (if headCell A acc h txs ts p = None then None else Some (fst (mergedCell A h (survivors A h txs ts p))))"

lemma headCell_facts:
  assumes q: "headCell A acc h txs ts p = Some r"
    and live: "\<forall>p. filter (\<lambda>r. pathAt A h' r = Some p) ts = (let g = survivors A h txs ts p in
       if g = [] then [] else [hd (sortSeq A h g)])"
    and cells: "\<forall>p. survivors A h txs ts p \<noteq> [] \<longrightarrow>
       cellAt h' (hd (sortSeq A h (survivors A h txs ts p))) = fst (mergedCell A h (survivors A h txs ts p))"
  shows "cellAt h' r = fst (mergedCell A h (survivors A h txs ts p))" "pathAt A h' r = Some p"
proof -
  have g: "survivors A h txs ts p \<noteq> []" "r = hd (sortSeq A h (survivors A h txs ts p))"
    using q by (auto simp: headCell_def Let_def split: if_splits)
  then show "cellAt h' r = fst (mergedCell A h (survivors A h txs ts p))" using cells by blast
  have "filter (\<lambda>r. pathAt A h' r = Some p) ts = [r]" using live g by (simp add: Let_def)
  then have "r \<in> set (filter (\<lambda>r. pathAt A h' r = Some p) ts)" by simp
  then show "pathAt A h' r = Some p" by simp
qed

section \<open>Importing into all writers\<close>

text \<open>Every writer sees the same metadata, whatever the filters of the others did to the values.\<close>

lemma importWriters_each:
  assumes step: "\<And>g w. \<lbrakk>sameMeta A h g; \<forall>r \<in> set ts. typedAt A g r; P w\<rbrakk> \<Longrightarrow>
      \<exists>w' g'. wImport W ts g w = Some (w', g') \<and> sameMeta A g g' \<and> (\<forall>r \<in> set ts. typedAt A g' r) \<and>
        (\<forall>r. r \<notin> set ts \<longrightarrow> cellAt g' r = cellAt g r) \<and> R w w'"
    and "sameMeta A h g" "\<forall>r \<in> set ts. typedAt A g r" "distinct ws" "\<And>i. i \<in> set ws \<Longrightarrow> P (objs i)"
  shows "\<exists>objs' g'. importWriters W ts ws (objs, g) = Some (objs', g') \<and> sameMeta A h g' \<and>
    (\<forall>r \<in> set ts. typedAt A g' r) \<and> (\<forall>r. r \<notin> set ts \<longrightarrow> cellAt g' r = cellAt g r) \<and>
    (\<forall>i \<in> set ws. R (objs i) (objs' i)) \<and> (\<forall>i. i \<notin> set ws \<longrightarrow> objs' i = objs i)"
  using assms(2-)
proof (induction ws arbitrary: objs g)
  case Nil
  then show ?case by simp
next
  case (Cons i ws)
  obtain w g1 where 1: "wImport W ts g (objs i) = Some (w, g1)" "sameMeta A g g1"
    "\<forall>r \<in> set ts. typedAt A g1 r" "\<forall>r. r \<notin> set ts \<longrightarrow> cellAt g1 r = cellAt g r" "R (objs i) w"
    using step [OF Cons.prems(1,2), of "objs i"] Cons.prems(4) by auto
  have "\<exists>objs' g'. importWriters W ts ws (objs(i := w), g1) = Some (objs', g') \<and> sameMeta A h g' \<and>
    (\<forall>r \<in> set ts. typedAt A g' r) \<and> (\<forall>r. r \<notin> set ts \<longrightarrow> cellAt g' r = cellAt g1 r) \<and>
    (\<forall>j \<in> set ws. R ((objs(i := w)) j) (objs' j)) \<and> (\<forall>j. j \<notin> set ws \<longrightarrow> objs' j = (objs(i := w)) j)"
    using Cons.prems 1(2,3) by (intro Cons.IH) (auto intro: sameMeta_trans)
  then obtain objs' g' where 2: "importWriters W ts ws (objs(i := w), g1) = Some (objs', g')" "sameMeta A h g'"
    "\<forall>r \<in> set ts. typedAt A g' r" "\<forall>r. r \<notin> set ts \<longrightarrow> cellAt g' r = cellAt g1 r"
    "\<forall>j \<in> set ws. R ((objs(i := w)) j) (objs' j)" "\<forall>j. j \<notin> set ws \<longrightarrow> objs' j = (objs(i := w)) j" by blast
  have "R (objs j) (objs' j)" if "j \<in> set (i # ws)" for j
    using that 1(5) 2(5,6) Cons.prems(3) by (cases "j = i") auto
  then show ?case using 1(1,4) 2(1-4,6) by (intro exI [of _ objs'] exI [of _ g']) auto
qed

section \<open>The generations of a block\<close>

text \<open>A generation that has been closed: the heap after the import, the whitelist, the transitions and the heap
  after finalizing.\<close>

record 'c generation =
  genHeap :: "'c heap"
  genTxs :: "u64 list"
  genTrans :: "ref list"
  genDone :: "'c heap"

definition genLive :: "('c, 'v) cell_api \<Rightarrow> 'c generation \<Rightarrow> ref list" where
  "genLive A g = liveIn A (genDone g) (genTrans g)"

definition genAccepted :: "('c \<Rightarrow> bool) \<Rightarrow> 'c generation \<Rightarrow> ref list" where
  "genAccepted acc g = filter (\<lambda>r. acc (cellAt (genHeap g) r)) (genTrans g)"

text \<open>The merged cell of a path in a generation, and those of all generations, in order.\<close>

definition genCell :: "('c, 'v) cell_api \<Rightarrow> ('c \<Rightarrow> bool) \<Rightarrow> 'c generation \<Rightarrow> string \<Rightarrow> 'c option" where
  "genCell A acc g = committedCell A acc (genHeap g) (genTxs g) (genTrans g)"

definition genCells :: "('c, 'v) cell_api \<Rightarrow> ('c \<Rightarrow> bool) \<Rightarrow> 'c generation list \<Rightarrow> string \<Rightarrow> 'c list" where
  "genCells A acc gs p = concat (map (\<lambda>g. case genCell A acc g p of None \<Rightarrow> [] | Some d \<Rightarrow> [d]) gs)"

text \<open>The live transitions of the closed generations are still what finalizing has left.\<close>

definition liveRefs :: "('c, 'v) cell_api \<Rightarrow> 'c generation list \<Rightarrow> ref list" where
  "liveRefs A gs = concat (map (genLive A) gs)"

definition closedGens :: "('c, 'v) cell_api \<Rightarrow> 'c generation list \<Rightarrow> 'c heap \<Rightarrow> bool" where
  "closedGens A gs h \<longleftrightarrow> (\<forall>g \<in> set gs. distinct (genTrans g) \<and>
     finalized A (genHeap g) (genTxs g) (genTrans g) (genDone g) \<and> (\<forall>r \<in> set (genLive A g). cellAt h r = cellAt (genDone g) r))"

lemma closedGens_frame:
  "closedGens A gs h \<Longrightarrow> (\<And>r. r \<in> set (liveRefs A gs) \<Longrightarrow> cellAt h' r = cellAt h r) \<Longrightarrow> closedGens A gs h'"
  unfolding closedGens_def liveRefs_def by fastforce

lemma closedGens_snoc:
  "closedGens A gs h' \<Longrightarrow> distinct ts \<Longrightarrow> finalized A h txs ts h' \<Longrightarrow>
   closedGens A (gs @ [\<lparr>genHeap = h, genTxs = txs, genTrans = ts, genDone = h'\<rparr>]) h'"
  by (simp add: closedGens_def)

lemma closedGens_live:
  assumes "closedGens A gs h" "r \<in> set (liveRefs A gs)"
  shows "pathAt A h r \<noteq> None" "typedAt A h r"
proof -
  obtain g where g: "g \<in> set gs" "r \<in> set (genLive A g)" using assms(2) by (auto simp: liveRefs_def)
  then have "cellAt h r = cellAt (genDone g) r" "typedAt A (genDone g) r"
    using assms(1) by (auto simp: closedGens_def finalized_def genLive_def)
  then show "pathAt A h r \<noteq> None" "typedAt A h r" using g(2) by (simp_all add: genLive_def liveIn_def typedAt_def)
qed

lemma accepted_live: "set (liveIn A (genDone g) (genAccepted acc g)) \<subseteq> set (genLive A g)"
  by (auto simp: liveIn_def genAccepted_def genLive_def)

text \<open>What several values for a path leave of the old one when deletions go first: the last value that is set,
  nothing if there are only deletions.\<close>

fun lastSome :: "'x option list \<Rightarrow> 'x option" where
  "lastSome [] = None"
| "lastSome (x # xs) = (case lastSome xs of Some y \<Rightarrow> Some y | None \<Rightarrow> x)"

definition blockValue :: "'x option list \<Rightarrow> 'x option \<Rightarrow> 'x option" where
  "blockValue vs old = (case lastSome vs of Some v \<Rightarrow> Some v | None \<Rightarrow> if vs = [] then old else None)"

lemma lastSome_append [simp]: "lastSome (xs @ ys) = (case lastSome ys of Some y \<Rightarrow> Some y | None \<Rightarrow> lastSome xs)"
  by (induction xs) (auto split: option.split)

lemma commitBatch_values: "commitBatch b m p = blockValue (map snd (filter (\<lambda>e. fst e = p) b)) (m p)"
proof -
  have "lastSet b p = lastSome (map snd (filter (\<lambda>e. fst e = p) b))"
    by (induction b p rule: lastSet.induct) (auto split: option.split)
  moreover have "(p, None) \<in> set b \<or> lastSet b p \<noteq> None \<longleftrightarrow> filter (\<lambda>e. fst e = p) b \<noteq> []"
    by (induction b p rule: lastSet.induct) (auto split: option.splits)
  ultimately show ?thesis by (auto simp: commitBatch_def blockValue_def split: option.split)
qed

text \<open>One generation contributes at most one entry to the batch of a writer for every path.\<close>

lemma gen_entries:
  assumes "finalized A (genHeap g) (genTxs g) (genTrans g) (genDone g)"
  shows "map snd (filter (\<lambda>e. fst e = p) (map (\<lambda>r. (the (pathAt A (genDone g) r), f (cellAt (genDone g) r)))
      (liveIn A (genDone g) (genAccepted acc g)))) = (case genCell A acc g p of None \<Rightarrow> [] | Some d \<Rightarrow> [f d])"
proof -
  let ?h = "genDone g" and ?hc = "headCell A acc (genHeap g) (genTxs g) (genTrans g) p"
  have fin: "\<forall>p. filter (\<lambda>r. pathAt A ?h r = Some p) (genTrans g) = (let s = survivors A (genHeap g) (genTxs g) (genTrans g) p in
       if s = [] then [] else [hd (sortSeq A (genHeap g) s)])"
    "\<forall>p. survivors A (genHeap g) (genTxs g) (genTrans g) p \<noteq> [] \<longrightarrow>
       cellAt ?h (hd (sortSeq A (genHeap g) (survivors A (genHeap g) (genTxs g) (genTrans g) p))) =
       fst (mergedCell A (genHeap g) (survivors A (genHeap g) (genTxs g) (genTrans g) p))"
    using assms by (simp_all add: finalized_def)
  have "filter (\<lambda>r. the (pathAt A ?h r) = p) (liveIn A ?h (genAccepted acc g)) = (case ?hc of None \<Rightarrow> [] | Some r \<Rightarrow> [r])"
    unfolding liveIn_keys genAccepted_def by (rule headCell_filter) (use fin(1) in blast)
  then show ?thesis using headCell_facts [where acc = acc, OF _ fin]
    by (cases ?hc) (simp_all add: filter_map comp_def genCell_def committedCell_def)
qed

lemma block_entries:
  assumes "\<And>g. g \<in> set gs \<Longrightarrow> finalized A (genHeap g) (genTxs g) (genTrans g) (genDone g)"
  shows "map snd (filter (\<lambda>e. fst e = p) (concat (map (\<lambda>g. map (\<lambda>r. (the (pathAt A (genDone g) r), f (cellAt (genDone g) r)))
      (liveIn A (genDone g) (genAccepted acc g))) gs))) = map f (genCells A acc gs p)"
  using assms
proof (induction gs)
  case (Cons g gs)
  then show ?case using gen_entries [of A g p f acc] by (simp add: genCells_def split: option.split)
qed (simp add: genCells_def)

section \<open>Blocks one after the other\<close>

text \<open>A committer between two generations, with the writers \<open>ws\<close>, split into those of the sync phase and the others;
  every writer satisfies \<open>P\<close>, which may depend on its number.\<close>

definition committerReady :: "(nat \<Rightarrow> 'w \<Rightarrow> bool) \<Rightarrow> nat list \<Rightarrow> (nat \<Rightarrow> bool) \<Rightarrow> 'w StateCommitter \<Rightarrow> bool" where
  "committerReady P ws sync this \<longleftrightarrow>
     distinct ws \<and> writers this = ws \<and> syncWriters this = filter sync ws \<and> asyncWriters this = filter (\<lambda>i. \<not> sync i) ws \<and>
     byPath this = Map.empty \<and> byTxID this = Map.empty \<and> (\<forall>i \<in> set ws. P i (wobj this i))"

lemma committerReady_New:
  assumes "committer_law L" "distinct ws" "writers (NewStateCommitter L W ws objs) = ws" "\<And>i. i \<in> set ws \<Longrightarrow> P i (objs i)"
  shows "committerReady P ws (\<lambda>i. wIsSync W (objs i)) (NewStateCommitter L W ws objs)"
  using assms NewStateCommitter_writers [OF assms(1), of W ws objs]
  by (simp add: committerReady_def) (simp add: NewStateCommitter_def split: prod.split)

text \<open>
  The states of a committer that processes blocks: the generations of the current block, the writers at the
  beginning of the block, the heap and the committer. A generation imports transitions with paths and typed values
  and satisfies \<open>adm\<close>; a block may be committed at any time between generations. Meanwhile the writers may change
  as \<open>env\<close> allows, since they share their stores with the execution of transactions, and so may all cells
  but the live ones of the closed generations.
\<close>

inductive committerReach ::
  "('w, 'c, 'v) committer_lib \<Rightarrow> ('w, 'c) StoreWriter \<Rightarrow> ('c generation list \<Rightarrow> 'c heap \<Rightarrow> u64 list \<Rightarrow> ref list \<Rightarrow> bool) \<Rightarrow>
   ('w \<Rightarrow> 'w \<Rightarrow> bool) \<Rightarrow> 'w StateCommitter \<Rightarrow> 'c generation list \<Rightarrow> (nat \<Rightarrow> 'w) \<Rightarrow> 'c heap \<Rightarrow> 'w StateCommitter \<Rightarrow> bool"
  for L W adm env c0 where
  start: "committerReach L W adm env c0 [] (wobj c0) h c0"
| generation: "\<lbrakk>committerReach L W adm env c0 gs ws h c; distinct ts; set ts \<inter> set (liveRefs (lCell L) gs) = {};
    \<forall>r \<in> set ts. pathAt (lCell L) h r \<noteq> None \<and> typedAt (lCell L) h r;
    Import L W ts (c, h) = Some (c1, h1); adm gs h1 txs ts; DebugPrecommit L W txs (c1, h1) = Some (c2, h2)\<rbrakk> \<Longrightarrow>
    committerReach L W adm env c0 (gs @ [\<lparr>genHeap = h1, genTxs = txs, genTrans = ts, genDone = h2\<rparr>]) ws h2 c2"
| commit: "\<lbrakk>committerReach L W adm env c0 gs ws h c; DebugCommit L W v h c = Some c'\<rbrakk> \<Longrightarrow>
    committerReach L W adm env c0 [] (wobj c') h c'"
| execute: "\<lbrakk>committerReach L W adm env c0 gs ws h c; \<forall>i. env (wobj c i) (objs i);
    \<forall>r \<in> set (liveRefs (lCell L) gs). cellAt h' r = cellAt h r\<rbrakk> \<Longrightarrow>
    committerReach L W adm env c0 gs ws h' (c\<lparr>wobj := objs\<rparr>)"

section \<open>The contract\<close>

text \<open>
  \<open>fresh\<close> is a writer at the beginning of a block, \<open>staged\<close> relates it to the writer after some generations, and
  \<open>imported\<close> a writer to the one that has imported the transitions of a heap. If the generation is \<open>admissible\<close>,
  both precommit phases succeed on every finalized heap; \<open>served\<close> says what they do to the writer. A block can be
  committed after any number of generations; \<open>outcome\<close> relates the writers at its two ends, depending on the error that
  the commit reports. The writers
  depend on cells they import only through their metadata, which the filters of other writers leave alone.
\<close>

locale block_writer =
  fixes A :: "('c, 'v) cell_api" and W :: "('w, 'c) StoreWriter"
    and fresh :: "'w \<Rightarrow> bool"
    and staged :: "'c generation list \<Rightarrow> 'w \<Rightarrow> 'w \<Rightarrow> bool"
    and imported :: "'c heap \<Rightarrow> ref list \<Rightarrow> 'w \<Rightarrow> 'w \<Rightarrow> bool"
    and admissible :: "'c generation list \<Rightarrow> 'c heap \<Rightarrow> u64 list \<Rightarrow> ref list \<Rightarrow> bool"
    and served :: "'c generation list \<Rightarrow> 'c heap \<Rightarrow> 'w \<Rightarrow> 'w \<Rightarrow> bool"
    and outcome :: "'c generation list \<Rightarrow> 'w \<Rightarrow> err \<Rightarrow> 'w \<Rightarrow> bool"
  assumes staged_start: "\<And>w. fresh w \<Longrightarrow> staged [] w w"
    and imported_cong: "\<And>h g gs ts w0 w w'. sameMeta A h g \<Longrightarrow> staged gs w0 w \<Longrightarrow> imported h ts w w' \<Longrightarrow> imported g ts w w'"
    and import_ok: "\<And>gs ts h w0 w. \<lbrakk>staged gs w0 w; distinct ts; \<And>r. r \<in> set ts \<Longrightarrow> pathAt A h r \<noteq> None \<and> typedAt A h r\<rbrakk> \<Longrightarrow>
      \<exists>w' h'. wImport W ts h w = Some (w', h') \<and> sameMeta A h h' \<and> (\<forall>r \<in> set ts. typedAt A h' r) \<and>
        (\<forall>r. r \<notin> set ts \<longrightarrow> cellAt h' r = cellAt h r) \<and> imported h ts w w'"
    and phases_ok: "\<And>gs h txs ts h' w0 w w'. \<lbrakk>staged gs w0 w; imported h ts w w'; admissible gs h txs ts; distinct ts;
        finalized A h txs ts h'; closedGens A gs h'\<rbrakk> \<Longrightarrow>
      \<exists>w''. do { v \<leftarrow> syncStep W h' w'; asyncStep W h' v } = Some w'' \<and>
        staged (gs @ [\<lparr>genHeap = h, genTxs = txs, genTrans = ts, genDone = h'\<rparr>]) w0 w'' \<and>
        served (gs @ [\<lparr>genHeap = h, genTxs = txs, genTrans = ts, genDone = h'\<rparr>]) h' w w''"
    and commit_ok: "\<And>gs h w0 w v. \<lbrakk>staged gs w0 w; closedGens A gs h\<rbrakk> \<Longrightarrow>
      \<exists>w' e. wCommit W v h w = Some (w', e) \<and> fresh w' \<and> outcome gs w0 e w'"
begin

lemma import_run:
  assumes L: "committer_law L" "lCell L = A" and c: "committerReady (\<lambda>i. staged gs (w0 i)) ws sync this"
    and ts: "distinct ts" "\<And>r. r \<in> set ts \<Longrightarrow> pathAt A h r \<noteq> None" "\<And>r. r \<in> set ts \<Longrightarrow> typedAt A h r"
  shows "\<exists>objs h1. Import L W ts (this, h) =
      Some (this\<lparr>byPath := groupBy (pathAt A h) ts, byTxID := groupBy (txKeyOf A h) ts, wobj := objs\<rparr>, h1) \<and>
    sameMeta A h h1 \<and> (\<forall>r \<in> set ts. typedAt A h1 r) \<and> (\<forall>r. r \<notin> set ts \<longrightarrow> cellAt h1 r = cellAt h r) \<and>
    (\<forall>i \<in> set ws. imported h1 ts (wobj this i) (objs i))"
proof -
  have idx: "indexed A [] (this, h)" and ws: "distinct ws" "writers this = ws"
    and st: "\<And>i. i \<in> set ws \<Longrightarrow> staged gs (w0 i) (wobj this i)"
    using c by (simp_all add: committerReady_def indexed_def groupBy_def)
  have d: "distinct ([] @ ts)" using ts(1) by simp
  obtain h1 where 1: "sameMeta A h h1" "\<forall>r \<in> set ts. typedAt A h1 r"
    "\<forall>r. r \<notin> set ts \<longrightarrow> cellAt h1 r = cellAt h r"
    "Import L W ts (this, h) = do {
       (objs, h3) \<leftarrow> importWriters W ts (writers this) (wobj this, h1);
       Some (this\<lparr>byPath := groupBy (pathAt A h) ([] @ ts), byTxID := groupBy (txKeyOf A h) ([] @ ts), wobj := objs\<rparr>, h3) }"
    by (rule Import_run [OF L(1), where W = W and h = h and this = this and ts = ts and ?ts0.0 = "[]",
          unfolded L(2), OF idx d ts(2,3)])
  let ?P = "\<lambda>w. \<exists>w0. staged gs w0 w"
  have "\<exists>objs' g'. importWriters W ts ws (wobj this, h1) = Some (objs', g') \<and> sameMeta A h g' \<and>
    (\<forall>r \<in> set ts. typedAt A g' r) \<and> (\<forall>r. r \<notin> set ts \<longrightarrow> cellAt g' r = cellAt h1 r) \<and>
    (\<forall>i \<in> set ws. imported h ts (wobj this i) (objs' i)) \<and> (\<forall>i. i \<notin> set ws \<longrightarrow> objs' i = wobj this i)"
  proof (rule importWriters_each [where P = ?P])
    fix g w
    assume g: "sameMeta A h g" "\<forall>r \<in> set ts. typedAt A g r" "?P w"
    then obtain w0 where w0: "staged gs w0 w" by blast
    have "pathAt A g r \<noteq> None \<and> typedAt A g r" if "r \<in> set ts" for r
      using that g(1,2) ts(2) by (simp add: sameMeta_def)
    from import_ok [OF w0 ts(1) this] show "\<exists>w' g'. wImport W ts g w = Some (w', g') \<and> sameMeta A g g' \<and>
        (\<forall>r \<in> set ts. typedAt A g' r) \<and> (\<forall>r. r \<notin> set ts \<longrightarrow> cellAt g' r = cellAt g r) \<and> imported h ts w w'"
      using imported_cong [OF sameMeta_sym [OF g(1)] w0] by blast
  qed (use 1 ws st in auto)
  then obtain objs' g' where 2: "importWriters W ts ws (wobj this, h1) = Some (objs', g')" "sameMeta A h g'"
    "\<forall>r \<in> set ts. typedAt A g' r" "\<forall>r. r \<notin> set ts \<longrightarrow> cellAt g' r = cellAt h1 r"
    "\<forall>i \<in> set ws. imported h ts (wobj this i) (objs' i)" by blast
  then have "\<forall>i \<in> set ws. imported g' ts (wobj this i) (objs' i)" using imported_cong [OF 2(2) st] by blast
  then show ?thesis using 1(3,4) 2 ws(2) by (intro exI [of _ objs'] exI [of _ g']) simp
qed

lemma precommit_run:
  assumes L: "committer_law L" "lCell L = A" and ws: "distinct ws" "writers this = ws" and d: "distinct ts"
    and idx: "indexed A ts (this, h)" and m: "mergeable A h txs ts"
    and st: "\<And>i. i \<in> set ws \<Longrightarrow> staged gs (w0 i) (old i)" "\<And>i. i \<in> set ws \<Longrightarrow> imported h ts (old i) (wobj this i)"
    and adm: "admissible gs h txs ts" and gs: "closedGens A gs h" "set ts \<inter> set (liveRefs A gs) = {}"
  shows "\<exists>objs h'. DebugPrecommit L W txs (this, h) =
      Some (this\<lparr>byPath := Map.empty, byTxID := Map.empty, wobj := objs\<rparr>, h') \<and>
    closedGens A (gs @ [\<lparr>genHeap = h, genTxs = txs, genTrans = ts, genDone = h'\<rparr>]) h' \<and>
    (\<forall>i \<in> set ws. staged (gs @ [\<lparr>genHeap = h, genTxs = txs, genTrans = ts, genDone = h'\<rparr>]) (w0 i) (objs i) \<and>
       served (gs @ [\<lparr>genHeap = h, genTxs = txs, genTrans = ts, genDone = h'\<rparr>]) h' (old i) (objs i))"
proof -
  obtain h' where h': "Finalize L txs (this, h) = Some (this\<lparr>byPath := Map.empty, byTxID := Map.empty\<rparr>, h')"
    "finalized A h txs ts h'"
    by (rule finalized_heap [OF L(1), where txs = txs and ts = ts and this = this and h = h, unfolded L(2), OF idx m])
  have gs': "closedGens A gs h'"
    by (rule closedGens_frame [OF gs(1)]) (use h'(2) gs(2) in \<open>auto simp: finalized_def\<close>)
  let ?gs = "gs @ [\<lparr>genHeap = h, genTxs = txs, genTrans = ts, genDone = h'\<rparr>]"
  define run where "run w = do { v \<leftarrow> syncStep W h' w; asyncStep W h' v }" for w
  have ph: "\<exists>w. run (wobj this i) = Some w \<and> staged ?gs (w0 i) w \<and> served ?gs h' (old i) w" if "i \<in> set ws" for i
    unfolding run_def by (rule phases_ok [OF st(1,2) [OF that] adm d h'(2) gs'])
  have "DebugPrecommit L W txs (this, h) =
    Some (this\<lparr>byPath := Map.empty, byTxID := Map.empty, wobj := (\<lambda>i. if i \<in> set ws
      then the (run (wobj this i)) else wobj this i)\<rparr>, h')"
  proof -
    have sel: "writers (this\<lparr>byPath := Map.empty, byTxID := Map.empty\<rparr>) = ws"
      "wobj (this\<lparr>byPath := Map.empty, byTxID := Map.empty\<rparr>) = wobj this" using ws(2) by simp_all
    have "run (wobj this i) \<noteq> None" if "i \<in> set ws" for i using ph [OF that] by auto
    then show ?thesis
      using DebugPrecommit_run [OF L(1) h'(1), of W, folded run_def, unfolded sel] ws(1) by simp
  qed
  moreover have "staged ?gs (w0 i) (if i \<in> set ws then the (run (wobj this i)) else wobj this i) \<and>
      served ?gs h' (old i) (if i \<in> set ws then the (run (wobj this i)) else wobj this i)"
    if "i \<in> set ws" for i using ph [OF that] that by auto
  ultimately show ?thesis using closedGens_snoc [OF gs' d h'(2)] by blast
qed

text \<open>One generation through a committer that is ready, which it is again afterwards.\<close>

lemma generation_run:
  assumes L: "committer_law L" "lCell L = A"
    and c: "committerReady (\<lambda>i. staged gs (w0 i)) ws sync this" "closedGens A gs h"
    and ts: "distinct ts" "set ts \<inter> set (liveRefs A gs) = {}" "\<And>r. r \<in> set ts \<Longrightarrow> pathAt A h r \<noteq> None"
      "\<And>r. r \<in> set ts \<Longrightarrow> typedAt A h r"
  shows "\<exists>c1 h1. Import L W ts (this, h) = Some (c1, h1) \<and> sameMeta A h h1 \<and>
    (admissible gs h1 txs ts \<and> mergeable A h1 txs ts \<longrightarrow> (\<exists>c2 h2. DebugPrecommit L W txs (c1, h1) = Some (c2, h2) \<and>
        closedGens A (gs @ [\<lparr>genHeap = h1, genTxs = txs, genTrans = ts, genDone = h2\<rparr>]) h2 \<and>
        committerReady (\<lambda>i. staged (gs @ [\<lparr>genHeap = h1, genTxs = txs, genTrans = ts, genDone = h2\<rparr>]) (w0 i)) ws sync c2 \<and>
        (\<forall>i \<in> set ws. served (gs @ [\<lparr>genHeap = h1, genTxs = txs, genTrans = ts, genDone = h2\<rparr>]) h2 (wobj this i) (wobj c2 i))))"
proof -
  note new = c(1) [unfolded committerReady_def]
  have ws: "distinct ws" "writers this = ws" "\<And>i. i \<in> set ws \<Longrightarrow> staged gs (w0 i) (wobj this i)" using new by simp_all
  obtain o1 h1 where 1: "Import L W ts (this, h) =
      Some (this\<lparr>byPath := groupBy (pathAt A h) ts, byTxID := groupBy (txKeyOf A h) ts, wobj := o1\<rparr>, h1)"
    "sameMeta A h h1" "\<forall>r \<in> set ts. typedAt A h1 r" "\<forall>r. r \<notin> set ts \<longrightarrow> cellAt h1 r = cellAt h r"
    "\<forall>i \<in> set ws. imported h1 ts (wobj this i) (o1 i)"
    using import_run [OF L(1,2) c(1) ts(1,3,4)] by blast
  let ?c1 = "this\<lparr>byPath := groupBy (pathAt A h) ts, byTxID := groupBy (txKeyOf A h) ts, wobj := o1\<rparr>"
  have idx: "indexed A ts (?c1, h1)" using 1(2) ts(1,3) by (intro indexed_cong [of A h]) auto
  have c1: "writers ?c1 = ws" "wobj ?c1 = o1" using ws(2) by simp_all
  have gs: "closedGens A gs h1" by (rule closedGens_frame [OF c(2)]) (use 1(4) ts(2) in auto)
  have "\<exists>c2 h2. DebugPrecommit L W txs (?c1, h1) = Some (c2, h2) \<and>
      closedGens A (gs @ [\<lparr>genHeap = h1, genTxs = txs, genTrans = ts, genDone = h2\<rparr>]) h2 \<and>
      committerReady (\<lambda>i. staged (gs @ [\<lparr>genHeap = h1, genTxs = txs, genTrans = ts, genDone = h2\<rparr>]) (w0 i)) ws sync c2 \<and>
      (\<forall>i \<in> set ws. served (gs @ [\<lparr>genHeap = h1, genTxs = txs, genTrans = ts, genDone = h2\<rparr>]) h2 (wobj this i) (wobj c2 i))"
    if adm: "admissible gs h1 txs ts" "mergeable A h1 txs ts"
  proof -
    have "imported h1 ts (wobj this i) (wobj ?c1 i)" if "i \<in> set ws" for i using 1(5) that unfolding c1(2) by blast
    from precommit_run [OF L ws(1) c1(1) ts(1) idx adm(2) ws(3) this adm(1) gs ts(2)] obtain o2 h2 where
      2: "DebugPrecommit L W txs (?c1, h1) = Some (?c1\<lparr>byPath := Map.empty, byTxID := Map.empty, wobj := o2\<rparr>, h2)"
      "closedGens A (gs @ [\<lparr>genHeap = h1, genTxs = txs, genTrans = ts, genDone = h2\<rparr>]) h2"
      "\<forall>i \<in> set ws. staged (gs @ [\<lparr>genHeap = h1, genTxs = txs, genTrans = ts, genDone = h2\<rparr>]) (w0 i) (o2 i) \<and>
         served (gs @ [\<lparr>genHeap = h1, genTxs = txs, genTrans = ts, genDone = h2\<rparr>]) h2 (wobj this i) (o2 i)" by blast
    then show ?thesis using new
      by (intro exI [of _ "?c1\<lparr>byPath := Map.empty, byTxID := Map.empty, wobj := o2\<rparr>"] exI [of _ h2]) (simp add: committerReady_def)
  qed
  then show ?thesis using 1(1,2) by blast
qed

text \<open>The commit of a block.\<close>

lemma commit_run:
  assumes L: "committer_law L" and c: "committerReady (\<lambda>i. staged gs (w0 i)) ws sync this" "closedGens A gs h"
  shows "\<exists>c'. DebugCommit L W v h this = Some c' \<and> committerReady (\<lambda>_. fresh) ws sync c' \<and>
    (\<forall>i \<in> set ws. \<exists>e. wCommit W v h (wobj this i) = Some (wobj c' i, e) \<and> outcome gs (w0 i) e (wobj c' i))"
proof -
  note new = c(1) [unfolded committerReady_def]
  have ok: "\<exists>w' e. wCommit W v h (wobj this i) = Some (w', e) \<and> fresh w' \<and> outcome gs (w0 i) e w'" if "i \<in> set ws" for i
    using new that by (intro commit_ok c(2)) simp
  then have some: "wCommit W v h (wobj this i) \<noteq> None" if "i \<in> set ws" for i using that by fastforce
  let ?objs = "\<lambda>i. if i \<in> set ws then fst (the (wCommit W v h (wobj this i))) else wobj this i"
  have "DebugCommit L W v h this = Some (this\<lparr>wobj := ?objs\<rparr>)"
    by (rule DebugCommit_split [OF L _ _ _ some]) (use new in auto)
  moreover have "fresh (?objs i) \<and> (\<exists>e. wCommit W v h (wobj this i) = Some (?objs i, e) \<and> outcome gs (w0 i) e (?objs i))" if "i \<in> set ws" for i
    using ok [OF that] that by auto
  ultimately show ?thesis using new by (intro exI [of _ "this\<lparr>wobj := ?objs\<rparr>"]) (simp add: committerReady_def)
qed

text \<open>Every reachable committer is ready.\<close>

lemma reach_ready:
  assumes L: "committer_law L" "lCell L = A"
    and adm: "\<And>gs h txs ts. adm gs h txs ts \<Longrightarrow> admissible gs h txs ts \<and> mergeable A h txs ts"
    and env: "\<And>gs w0 w w'. env w w' \<Longrightarrow> staged gs w0 w \<Longrightarrow> staged gs w0 w'"
    and "committerReach L W adm env c0 gs w0 h c" "committerReady (\<lambda>_. fresh) ws sync c0"
  shows "committerReady (\<lambda>i. staged gs (w0 i)) ws sync c \<and> closedGens A gs h"
  using assms(5,6)
proof induction
  case (start h)
  then show ?case using staged_start by (simp add: committerReady_def closedGens_def)
next
  case (generation gs w0 h c ts c1 h1 txs c2 h2)
  have ts: "pathAt A h r \<noteq> None" "typedAt A h r" if "r \<in> set ts" for r using generation.hyps(4) that by (simp_all add: L(2))
  have dis: "set ts \<inter> set (liveRefs A gs) = {}" using generation.hyps(3) by (simp add: L(2))
  from generation.IH [OF generation.prems] generation_run [OF L _ _ generation.hyps(2) dis ts, of w0 ws sync c txs]
  show ?case using generation.hyps(5-7) adm by auto
next
  case (commit gs w0 h c v c')
  from commit_run [OF L(1)] commit.IH [OF commit.prems] commit.hyps(2) have "committerReady (\<lambda>_. fresh) ws sync c'"
    by (metis option.inject)
  then show ?case using staged_start by (simp add: committerReady_def closedGens_def)
next
  case (execute gs w0 h c objs h')
  have "staged gs (w0 i) (objs i)" if "i \<in> set ws" for i
    using env execute.hyps(2) execute.IH [OF execute.prems] that by (meson committerReady_def)
  moreover have "closedGens A gs h'" by (rule closedGens_frame [of _ _ h]) (use execute L(2) in auto)
  ultimately show ?case using execute.IH [OF execute.prems] by (simp add: committerReady_def)
qed

end

text \<open>A contract that rests on a law of the libraries.\<close>

lemma block_writer_guard:
  assumes "G \<Longrightarrow> block_writer A W fresh staged imported admissible served outcome"
  shows "block_writer A W (\<lambda>w. G \<and> fresh w) (\<lambda>gs w w'. G \<and> staged gs w w') imported admissible served outcome"
proof (cases G)
  case True
  then show ?thesis using assms by simp
qed (unfold_locales, simp_all)

section \<open>Two kinds of writers side by side\<close>

definition sumOps :: "('a, 'c) StoreWriter \<Rightarrow> ('b, 'c) StoreWriter \<Rightarrow> ('a + 'b, 'c) StoreWriter" where
  "sumOps U V =
     \<lparr>wImport = (\<lambda>ts h w. case w of
          Inl a \<Rightarrow> map_option (map_prod Inl id) (wImport U ts h a)
        | Inr b \<Rightarrow> map_option (map_prod Inr id) (wImport V ts h b)),
      wPrecommit = (\<lambda>isSync h w. case w of
          Inl a \<Rightarrow> map_option (map_prod Inl id) (wPrecommit U isSync h a)
        | Inr b \<Rightarrow> map_option (map_prod Inr id) (wPrecommit V isSync h b)),
      wCommit = (\<lambda>block h w. case w of
          Inl a \<Rightarrow> map_option (map_prod Inl id) (wCommit U block h a)
        | Inr b \<Rightarrow> map_option (map_prod Inr id) (wCommit V block h b)),
      wIsSync = case_sum (wIsSync U) (wIsSync V), wIsEth = case_sum (wIsEth U) (wIsEth V),
      wIsExec = case_sum (wIsExec U) (wIsExec V)\<rparr>"

lemma sumOps_steps:
  "syncStep (sumOps U V) h (Inl a) = map_option Inl (syncStep U h a)"
  "syncStep (sumOps U V) h (Inr b) = map_option Inr (syncStep V h b)"
  "asyncStep (sumOps U V) h (Inl a) = map_option Inl (asyncStep U h a)"
  "asyncStep (sumOps U V) h (Inr b) = map_option Inr (asyncStep V h b)"
  by (simp_all add: syncStep_def asyncStep_def sumOps_def option.map_comp comp_def)

text \<open>A relation between writers of the same kind.\<close>

fun sumRel :: "('a \<Rightarrow> 'a \<Rightarrow> bool) \<Rightarrow> ('b \<Rightarrow> 'b \<Rightarrow> bool) \<Rightarrow> 'a + 'b \<Rightarrow> 'a + 'b \<Rightarrow> bool" where
  "sumRel R S (Inl a) (Inl a') = R a a'"
| "sumRel R S (Inr b) (Inr b') = S b b'"
| "sumRel R S _ _ = False"

lemma sumRel_simps [simp]:
  "sumRel R S (Inl a) w \<longleftrightarrow> (\<exists>a'. w = Inl a' \<and> R a a')" "sumRel R S (Inr b) w \<longleftrightarrow> (\<exists>b'. w = Inr b' \<and> S b b')"
  by (cases w; simp)+

lemma block_writer_sum:
  assumes "block_writer A U fresh staged imported admissible served outcome"
    and "block_writer A V fresh' staged' imported' admissible' served' outcome'"
  shows "block_writer A (sumOps U V) (case_sum fresh fresh') (\<lambda>gs. sumRel (staged gs) (staged' gs))
    (\<lambda>h ts. sumRel (imported h ts) (imported' h ts)) (\<lambda>gs h txs ts. admissible gs h txs ts \<and> admissible' gs h txs ts)
    (\<lambda>gs h. sumRel (served gs h) (served' gs h)) (\<lambda>gs w e. sumRel (\<lambda>w. outcome gs w e) (\<lambda>w. outcome' gs w e) w)"
proof
  fix w
  assume "case_sum fresh fresh' w"
  then show "sumRel (staged []) (staged' []) w w"
    using block_writer.staged_start [OF assms(1)] block_writer.staged_start [OF assms(2)] by (cases w) auto
next
  fix h g gs ts w0 w w'
  assume "sameMeta A h g" "sumRel (staged gs) (staged' gs) w0 w" "sumRel (imported h ts) (imported' h ts) w w'"
  then show "sumRel (imported g ts) (imported' g ts) w w'"
    using block_writer.imported_cong [OF assms(1)] block_writer.imported_cong [OF assms(2)] by (cases w0) auto
next
  fix gs ts h w0 w
  assume w: "sumRel (staged gs) (staged' gs) w0 w"
    and ts: "distinct ts" "\<And>r. r \<in> set ts \<Longrightarrow> pathAt A h r \<noteq> None \<and> typedAt A h r"
  show "\<exists>w' h'. wImport (sumOps U V) ts h w = Some (w', h') \<and> sameMeta A h h' \<and> (\<forall>r \<in> set ts. typedAt A h' r) \<and>
      (\<forall>r. r \<notin> set ts \<longrightarrow> cellAt h' r = cellAt h r) \<and> sumRel (imported h ts) (imported' h ts) w w'"
  proof (cases w0)
    case (Inl a0)
    then obtain a where a: "w = Inl a" "staged gs a0 a" using w by auto
    from block_writer.import_ok [OF assms(1) a(2) ts] show ?thesis using a(1) by (force simp: sumOps_def)
  next
    case (Inr b0)
    then obtain b where b: "w = Inr b" "staged' gs b0 b" using w by auto
    from block_writer.import_ok [OF assms(2) b(2) ts] show ?thesis using b(1) by (force simp: sumOps_def)
  qed
next
  fix gs h txs ts h' w0 w w'
  assume a: "sumRel (staged gs) (staged' gs) w0 w" "sumRel (imported h ts) (imported' h ts) w w'"
    "admissible gs h txs ts \<and> admissible' gs h txs ts" "distinct ts" "finalized A h txs ts h'" "closedGens A gs h'"
  let ?gs = "gs @ [\<lparr>genHeap = h, genTxs = txs, genTrans = ts, genDone = h'\<rparr>]"
  note adm = conjunct1 [OF a(3)] conjunct2 [OF a(3)]
  show "\<exists>w''. do { v \<leftarrow> syncStep (sumOps U V) h' w'; asyncStep (sumOps U V) h' v } = Some w'' \<and>
      sumRel (staged ?gs) (staged' ?gs) w0 w'' \<and> sumRel (served ?gs h') (served' ?gs h') w w''"
  proof (cases w0)
    case (Inl x0)
    then obtain x x' where x: "w = Inl x" "w' = Inl x'" "staged gs x0 x" "imported h ts x x'" using a(1,2) by auto
    from block_writer.phases_ok [OF assms(1) x(3,4) adm(1) a(4-6)] show ?thesis
      using Inl x(1,2) by (auto simp: sumOps_steps bind_eq_Some_conv)
  next
    case (Inr x0)
    then obtain x x' where x: "w = Inr x" "w' = Inr x'" "staged' gs x0 x" "imported' h ts x x'" using a(1,2) by auto
    from block_writer.phases_ok [OF assms(2) x(3,4) adm(2) a(4-6)] show ?thesis
      using Inr x(1,2) by (auto simp: sumOps_steps bind_eq_Some_conv)
  qed
next
  fix gs h w0 w v
  assume a: "sumRel (staged gs) (staged' gs) w0 w" "closedGens A gs h"
  show "\<exists>w' e. wCommit (sumOps U V) v h w = Some (w', e) \<and> case_sum fresh fresh' w' \<and>
      sumRel (\<lambda>w. outcome gs w e) (\<lambda>w. outcome' gs w e) w0 w'"
  proof (cases w0)
    case (Inl x0)
    then obtain x where x: "w = Inl x" "staged gs x0 x" using a(1) by auto
    from block_writer.commit_ok [OF assms(1) x(2) a(2), of v] show ?thesis using Inl x(1) by (force simp: sumOps_def)
  next
    case (Inr x0)
    then obtain x where x: "w = Inr x" "staged' gs x0 x" using a(1) by auto
    from block_writer.commit_ok [OF assms(2) x(2) a(2), of v] show ?thesis using Inr x(1) by (force simp: sumOps_def)
  qed
qed

end
