(* ===== verification/LiveCache.thy ===== *)
theory LiveCache
  imports Staging
begin

text \<open>
  \<open>src/storage/execstorage/livecache\<close>: the writer of the in-memory cache of the latest state. The
  indexer collects the cells of a generation, the writer keeps one indexer per closed generation
  and applies them all to the cache when the block is committed. The cache itself
  (\<open>storage/cache\<close> of common-lib) is a value of type \<open>'k\<close> behind its batch operations.
\<close>

section \<open>State and third-party operations\<close>

record ('c, 'v) LiveCacheIndexer =
  lciVersion :: int
  lciBuffer :: "ref list"
  lciImportBuffer :: "ref list"
  lciKeys :: "string list"
  lciValues :: "'v option list"
  lciFilter :: "'c filt option"

record ('c, 'v, 'k) LiveCacheWriter =
  lcwIndexer :: "('c, 'v) LiveCacheIndexer"
  lcwCache :: 'k
  lcwBuffer :: "('c, 'v) LiveCacheIndexer list"
  lcwVersion :: int
  lcwFilter :: "'c filt option"

record ('c, 'v, 'k) livecache_lib =
  lcCell :: "('c, 'v) cell_api"
  lcTransform :: "'v option transform"
  lcConcateDo :: "(('c, 'v) LiveCacheIndexer, ref) concat_do"
  lcMoveBothIf :: "'v option movebothif"
  lcDeleteBatch :: "string list \<Rightarrow> 'k \<Rightarrow> 'k"
  lcSetBatch :: "string list \<Rightarrow> 'v option list \<Rightarrow> 'k \<Rightarrow> 'k"
  lcEvict :: "'k \<Rightarrow> 'k"
  lcLookup :: "'k \<Rightarrow> string \<Rightarrow> 'v option"

text \<open>Eviction may drop entries, never change them.\<close>

definition livecache_law :: "('c, 'v, 'k) livecache_lib \<Rightarrow> bool" where
  "livecache_law L \<longleftrightarrow>
     cell_law (lcCell L) \<and> transform_law (lcTransform L) \<and> concat_law (lcConcateDo L) \<and>
     movebothif_law (lcMoveBothIf L) \<and>
     batch_law (lcDeleteBatch L) (\<lambda>ks vs. lcSetBatch L ks (map Some vs)) (lcLookup L) \<and>
     (\<forall>s k. lcLookup L (lcEvict L s) k = None \<or> lcLookup L (lcEvict L s) k = lcLookup L s k)"

section \<open>LiveCacheIndexer (live_cache_indexer.go)\<close>

definition NewLiveCacheIndexer :: "int \<Rightarrow> 'c filt option \<Rightarrow> ('c, 'v) LiveCacheIndexer" where
  "NewLiveCacheIndexer version filt =
     \<lparr>lciVersion = version, lciBuffer = [], lciImportBuffer = [], lciKeys = [], lciValues = [],
      lciFilter = filt\<rparr>"

fun lciImportLoop ::
  "'c filt option \<Rightarrow> ref list \<Rightarrow> ref list \<times> 'c heap \<Rightarrow> (ref list \<times> 'c heap) option" where
  "lciImportLoop filt [] s = Some s"
| "lciImportLoop filt (t # ts) (buf, h) = do {
     f \<leftarrow> filt;
     (ok, h') \<leftarrow> f t h;
     lciImportLoop filt ts (if ok then buf @ [t] else buf, h')
   }"

definition LiveCacheIndexer_Import ::
  "ref list \<Rightarrow> 'c heap \<Rightarrow> ('c, 'v) LiveCacheIndexer \<Rightarrow> (('c, 'v) LiveCacheIndexer \<times> 'c heap) option" where
  "LiveCacheIndexer_Import transitions h this = do {
     (buf, h') \<leftarrow> lciImportLoop (lciFilter this) transitions (lciImportBuffer this, h);
     Some (this\<lparr>lciImportBuffer := buf\<rparr>, h')
   }"

definition LiveCacheIndexer_Reset :: "('c, 'v) LiveCacheIndexer \<Rightarrow> ('c, 'v) LiveCacheIndexer" where
  "LiveCacheIndexer_Reset this = this\<lparr>lciBuffer := lciImportBuffer this, lciImportBuffer := []\<rparr>"

text \<open>The value of a cell behind the type assertion to CRDT: nil stays nil, a raw value panics.\<close>

definition crdtAt :: "('c, 'v) cell_api \<Rightarrow> 'c heap \<Rightarrow> ref \<Rightarrow> 'v option option" where
  "crdtAt A h r =
     (case valueAt A h r of
        None \<Rightarrow> Some None
      | Some x \<Rightarrow> if isCRDT A x then Some (Some x) else None)"

definition LiveCacheIndexer_Finalize ::
  "('c, 'v, 'k) livecache_lib \<Rightarrow> 'c heap \<Rightarrow> ('c, 'v) LiveCacheIndexer \<Rightarrow>
   ('c, 'v) LiveCacheIndexer option" where
  "LiveCacheIndexer_Finalize L h this = do {
     let buf = fst (RemoveIf (lcCell L) (\<lambda>_ v. pathAt (lcCell L) h v = None) (lciBuffer this));
     (values, keys) \<leftarrow> lcTransform L
       (\<lambda>i v ks. do { k \<leftarrow> pathAt (lcCell L) h v; y \<leftarrow> crdtAt (lcCell L) h v; Some (y, ks[i := k]) })
       buf (replicate (length buf) []);
     Some (this\<lparr>lciBuffer := buf, lciKeys := keys, lciValues := values\<rparr>)
   }"

text \<open>The entries of \<open>idxers\<close> are never nil, so that \<open>slice.Remove(&idxers, nil)\<close> removes nothing.\<close>

definition LiveCacheIndexer_Merge ::
  "('c, 'v, 'k) livecache_lib \<Rightarrow> ('c, 'v) LiveCacheIndexer list \<Rightarrow> ('c, 'v) LiveCacheIndexer \<Rightarrow>
   ('c, 'v) LiveCacheIndexer" where
  "LiveCacheIndexer_Merge L idxers this =
     this\<lparr>lciBuffer := lcConcateDo L idxers (\<lambda>x. of_nat (length (lciBuffer x))) lciBuffer\<rparr>"

section \<open>LiveCacheWriter (live_cache_writer.go)\<close>

definition NewLiveCacheWriter :: "'k \<Rightarrow> int \<Rightarrow> 'c filt option \<Rightarrow> ('c, 'v, 'k) LiveCacheWriter" where
  "NewLiveCacheWriter cache version filt =
     \<lparr>lcwIndexer = NewLiveCacheIndexer version filt, lcwCache = cache, lcwBuffer = [],
      lcwVersion = version, lcwFilter = filt\<rparr>"

definition LiveCacheWriter_Import ::
  "ref list \<Rightarrow> 'c heap \<Rightarrow> ('c, 'v, 'k) LiveCacheWriter \<Rightarrow>
   (('c, 'v, 'k) LiveCacheWriter \<times> 'c heap) option" where
  "LiveCacheWriter_Import transitions h this = do {
     (idx, h') \<leftarrow> LiveCacheIndexer_Import transitions h (lcwIndexer this);
     Some (this\<lparr>lcwIndexer := idx\<rparr>, h')
   }"

definition LiveCacheWriter_Precommit ::
  "('c, 'v, 'k) livecache_lib \<Rightarrow> bool \<Rightarrow> 'c heap \<Rightarrow> ('c, 'v, 'k) LiveCacheWriter \<Rightarrow>
   (('c, 'v, 'k) LiveCacheWriter \<times> err) option" where
  "LiveCacheWriter_Precommit L isSync h this =
     (if isSync
      then Some (this\<lparr>lcwIndexer := LiveCacheIndexer_Reset (lcwIndexer this)\<rparr>, None)
      else do {
        idx \<leftarrow> LiveCacheIndexer_Finalize L h (lcwIndexer this);
        Some (this\<lparr>lcwBuffer := lcwBuffer this @ [idx],
                   lcwIndexer := NewLiveCacheIndexer (-1) (lcwFilter this)\<rparr>, None)
      })"

definition LiveCacheWriter_Reset :: "('c, 'v, 'k) LiveCacheWriter \<Rightarrow> ('c, 'v, 'k) LiveCacheWriter" where
  "LiveCacheWriter_Reset this = this\<lparr>lcwIndexer := LiveCacheIndexer_Reset (lcwIndexer this)\<rparr>"

text \<open>The loop of \<open>Commit\<close> over the merged cells: keys and values by position.\<close>

fun lcwCollect ::
  "('c, 'v) cell_api \<Rightarrow> 'c heap \<Rightarrow> ref list \<Rightarrow> (string list \<times> 'v option list) option" where
  "lcwCollect A h [] = Some ([], [])"
| "lcwCollect A h (r # rs) = do {
     k \<leftarrow> pathAt A h r;
     v \<leftarrow> crdtAt A h r;
     (ks, vs) \<leftarrow> lcwCollect A h rs;
     Some (k # ks, v # vs)
   }"

definition LiveCacheWriter_Commit ::
  "('c, 'v, 'k) livecache_lib \<Rightarrow> u64 \<Rightarrow> 'c heap \<Rightarrow> ('c, 'v, 'k) LiveCacheWriter \<Rightarrow>
   (('c, 'v, 'k) LiveCacheWriter \<times> err) option" where
  "LiveCacheWriter_Commit L block h this = do {
     let merged = LiveCacheIndexer_Merge L (lcwBuffer this) (NewLiveCacheIndexer 0 None);
     (keys, values) \<leftarrow> lcwCollect (lcCell L) h (lciBuffer merged);
     let ((keyToDel, _), (keys, values)) = lcMoveBothIf L (\<lambda>_ _ v. v = None) (keys, values);
     let c = lcEvict L (lcSetBatch L keys values (lcDeleteBatch L keyToDel (lcwCache this)));
     Some (this\<lparr>lcwCache := c, lcwBuffer := []\<rparr>, None)
   }"

definition LiveCacheWriter_IsSync :: "('c, 'v, 'k) LiveCacheWriter \<Rightarrow> bool" where
  "LiveCacheWriter_IsSync this = True"

section \<open>Staging\<close>

lemma filt_law_cong: "filt_law A acc f \<Longrightarrow> sameMeta A h h' \<Longrightarrow> acc (cellAt h' r) = acc (cellAt h r)"
  unfolding filt_law_def sameMeta_def by blast

lemma filt_law_run:
  "filt_law A acc f \<Longrightarrow> pathAt A h r \<noteq> None \<Longrightarrow> typedAt A h r \<Longrightarrow>
   \<exists>h'. f r h = Some (acc (cellAt h r), h') \<and> sameMeta A h h' \<and> typedAt A h' r \<and>
     (\<forall>q. q \<noteq> r \<longrightarrow> cellAt h' q = cellAt h q)"
  unfolding filt_law_def by blast

lemma lciImportLoop_ok:
  assumes "filt_law A acc f" "distinct ts"
    and "\<And>r. r \<in> set ts \<Longrightarrow> pathAt A h r \<noteq> None \<and> typedAt A h r"
  shows "\<exists>h'. lciImportLoop (Some f) ts (buf, h) = Some (buf @ filter (\<lambda>r. acc (cellAt h r)) ts, h') \<and>
    sameMeta A h h' \<and> (\<forall>r \<in> set ts. typedAt A h' r) \<and> (\<forall>r. r \<notin> set ts \<longrightarrow> cellAt h' r = cellAt h r)"
  using assms(2,3)
proof (induction ts arbitrary: buf h)
  case Nil
  then show ?case by simp
next
  case (Cons t ts)
  obtain h1 where 1: "f t h = Some (acc (cellAt h t), h1)" "sameMeta A h h1" "typedAt A h1 t"
    "\<forall>q. q \<noteq> t \<longrightarrow> cellAt h1 q = cellAt h q"
    using filt_law_run [OF assms(1), of h t] Cons.prems(2) [of t] by auto
  have "pathAt A h1 r \<noteq> None \<and> typedAt A h1 r" if "r \<in> set ts" for r
    using that Cons.prems(1) Cons.prems(2) [of r] 1(2,4) by (auto simp: sameMeta_def typedAt_def)
  then obtain h2 where 2: "lciImportLoop (Some f) ts (if acc (cellAt h t) then buf @ [t] else buf, h1) =
      Some ((if acc (cellAt h t) then buf @ [t] else buf) @ filter (\<lambda>r. acc (cellAt h1 r)) ts, h2)"
    "sameMeta A h1 h2" "\<forall>r \<in> set ts. typedAt A h2 r" "\<forall>r. r \<notin> set ts \<longrightarrow> cellAt h2 r = cellAt h1 r"
    using Cons.IH [of h1 "if acc (cellAt h t) then buf @ [t] else buf"] Cons.prems(1) by auto
  have "typedAt A h2 t" using 1(3) 2(4) Cons.prems(1) by (simp add: typedAt_def)
  moreover have "filter (\<lambda>r. acc (cellAt h1 r)) ts = filter (\<lambda>r. acc (cellAt h r)) ts"
    by (simp only: filt_law_cong [OF assms(1) 1(2)])
  moreover have "sameMeta A h h2" using 1(2) 2(2) by (rule sameMeta_trans)
  ultimately show ?case using 1(1,4) 2(1,3,4) by (intro exI [of _ h2]) simp
qed

definition lcwInv :: "('c, 'v, 'k) livecache_lib \<Rightarrow> ('c \<Rightarrow> bool) \<Rightarrow> ('c, 'v, 'k) LiveCacheWriter \<Rightarrow> bool" where
  "lcwInv L acc w \<longleftrightarrow> livecache_law L \<and> lciFilter (lcwIndexer w) = lcwFilter w \<and>
     (\<exists>f. lcwFilter w = Some f \<and> filt_law (lcCell L) acc f)"

lemma lcwInv_New:
  "livecache_law L \<Longrightarrow> filt_law (lcCell L) acc f \<Longrightarrow> lcwInv L acc (NewLiveCacheWriter c v (Some f))"
  by (simp add: lcwInv_def NewLiveCacheWriter_def NewLiveCacheIndexer_def)

lemma crdtAt_typed: "typedAt A h r \<Longrightarrow> crdtAt A h r = Some (valueAt A h r)"
  by (auto simp: crdtAt_def typedAt_def split: option.splits)

lemma LiveCacheIndexer_Finalize_ok:
  assumes "livecache_law L" "\<And>r. r \<in> set (liveIn (lcCell L) h (lciBuffer this)) \<Longrightarrow> typedAt (lcCell L) h r"
  shows "LiveCacheIndexer_Finalize L h this =
    Some (this\<lparr>lciBuffer := liveIn (lcCell L) h (lciBuffer this),
      lciKeys := map (\<lambda>r. the (pathAt (lcCell L) h r)) (liveIn (lcCell L) h (lciBuffer this)),
      lciValues := map (valueAt (lcCell L) h) (liveIn (lcCell L) h (lciBuffer this))\<rparr>)"
proof -
  let ?A = "lcCell L" and ?live = "liveIn (lcCell L) h (lciBuffer this)"
  have laws: "cell_law ?A" "transform_law (lcTransform L)" using assms(1) by (auto simp: livecache_law_def)
  have buf: "fst (RemoveIf ?A (\<lambda>_ v. pathAt ?A h v = None) (lciBuffer this)) = ?live"
    by (simp add: cell_law_simps [OF laws(1)] liveIn_def)
  have val: "crdtAt ?A h r = Some (valueAt ?A h r)" if "r \<in> set ?live" for r
    using assms(2) [OF that] by (rule crdtAt_typed)
  have ok: "pathAt ?A h r \<noteq> None \<and> crdtAt ?A h r \<noteq> None" if "r \<in> set ?live" for r
    using that val [OF that] by (auto simp: liveIn_def)
  have vals: "map (\<lambda>r. the (crdtAt ?A h r)) ?live = map (valueAt ?A h) ?live"
    using val by simp
  have run: "lcTransform L
      (\<lambda>i v ks. do { k \<leftarrow> pathAt ?A h v; y \<leftarrow> crdtAt ?A h v; Some (y, ks[i := k]) })
      ?live (replicate (length ?live) []) =
    Some (map (valueAt ?A h) ?live, map (\<lambda>r. the (pathAt ?A h r)) ?live)"
    using transform_keys [OF laws(2), of "replicate (length ?live) []" ?live "pathAt ?A h" "crdtAt ?A h"] ok
    unfolding vals by simp
  show ?thesis unfolding LiveCacheIndexer_Finalize_def buf Let_def by (simp add: run)
qed

interpretation lcw: staged_writer "lcCell L" LiveCacheWriter_Import "LiveCacheWriter_Precommit L"
  "\<lambda>w. lciImportBuffer (lcwIndexer w)" "\<lambda>w. lciBuffer (lcwIndexer w)" "\<lambda>w. map lciBuffer (lcwBuffer w)"
  "\<lambda>_. acc" "lcwInv L acc" for L :: "('c, 'v, 'k) livecache_lib" and acc
proof (unfold_locales, goal_cases)
  case (1 ts h s)
  obtain f where f: "lciFilter (lcwIndexer s) = Some f" "filt_law (lcCell L) acc f"
    using 1(1) by (auto simp: lcwInv_def)
  from lciImportLoop_ok [OF f(2) 1(2,3), of "lciImportBuffer (lcwIndexer s)"] 1(1) show ?case
    by (auto simp: LiveCacheWriter_Import_def LiveCacheIndexer_Import_def f(1) lcwInv_def)
next
  case (2 h s)
  then show ?case by (simp add: LiveCacheWriter_Precommit_def LiveCacheIndexer_Reset_def lcwInv_def)
next
  case (3 h s)
  have law: "livecache_law L" using 3(1) by (simp add: lcwInv_def)
  from LiveCacheIndexer_Finalize_ok [OF law 3(2)] 3(1) show ?case
    by (simp add: LiveCacheWriter_Precommit_def NewLiveCacheIndexer_def lcwInv_def)
qed

section \<open>Committing\<close>

text \<open>What the closed generations hold, in order.\<close>

definition lcwBatch :: "('c, 'v) cell_api \<Rightarrow> 'c heap \<Rightarrow> ('c, 'v, 'k) LiveCacheWriter \<Rightarrow> 'v batch" where
  "lcwBatch A h w = map (\<lambda>r. (the (pathAt A h r), valueAt A h r)) (concat (map lciBuffer (lcwBuffer w)))"

lemma lcwCollect_ok:
  "(\<And>r. r \<in> set rs \<Longrightarrow> pathAt A h r \<noteq> None \<and> typedAt A h r) \<Longrightarrow>
   lcwCollect A h rs = Some (map (\<lambda>r. the (pathAt A h r)) rs, map (valueAt A h) rs)"
proof (induction rs)
  case Nil
  then show ?case by simp
next
  case (Cons r rs)
  obtain p where "pathAt A h r = Some p" "typedAt A h r" using Cons.prems [of r] by auto
  then show ?case using Cons by (simp add: crdtAt_typed)
qed

lemma movebothif_live:
  assumes "movebothif_law M" "length ks = length vs"
    and "M (\<lambda>_ _ v. v = None) (ks, vs) = ((dk, dv), (sk, sv))"
  shows "map Some (map the sv) = sv"
proof -
  have "sv = map snd (filter (\<lambda>(k, v). v \<noteq> None) (zip ks vs))"
    using assms by (auto simp: movebothif_law_def unzip_def)
  then show ?thesis by (auto simp: map_idI)
qed

lemma LiveCacheWriter_Commit_ok:
  assumes "livecache_law L"
    and "\<And>r. r \<in> set (concat (map lciBuffer (lcwBuffer w))) \<Longrightarrow> pathAt (lcCell L) h r \<noteq> None \<and> typedAt (lcCell L) h r"
  shows "\<exists>c. LiveCacheWriter_Commit L v h w = Some (w\<lparr>lcwCache := lcEvict L c, lcwBuffer := []\<rparr>, None) \<and>
    lcLookup L c = commitBatch (lcwBatch (lcCell L) h w) (lcLookup L (lcwCache w))"
proof -
  let ?A = "lcCell L" and ?rs = "concat (map lciBuffer (lcwBuffer w))"
  let ?ks = "map (\<lambda>r. the (pathAt ?A h r)) ?rs" and ?vs = "map (valueAt ?A h) ?rs"
  have laws: "concat_law (lcConcateDo L)" "movebothif_law (lcMoveBothIf L)"
    "batch_law (lcDeleteBatch L) (\<lambda>ks vs. lcSetBatch L ks (map Some vs)) (lcLookup L)"
    using assms(1) by (auto simp: livecache_law_def)
  have merged: "lciBuffer (LiveCacheIndexer_Merge L (lcwBuffer w) (NewLiveCacheIndexer 0 None)) = ?rs"
    using laws(1) by (simp add: LiveCacheIndexer_Merge_def concat_law_def)
  have col: "lcwCollect ?A h ?rs = Some (?ks, ?vs)" using assms(2) by (rule lcwCollect_ok)
  obtain dk dv sk sv where mv: "lcMoveBothIf L (\<lambda>_ _ v. v = None) (?ks, ?vs) = ((dk, dv), (sk, sv))"
    by (metis prod.exhaust)
  have "lcLookup L (lcSetBatch L sk (map Some (map the sv)) (lcDeleteBatch L dk (lcwCache w))) =
      commitBatch (zip ?ks ?vs) (lcLookup L (lcwCache w))"
    by (rule batch_commit [OF laws(3,2) _ mv]) simp
  moreover have "zip ?ks ?vs = lcwBatch ?A h w"
    unfolding lcwBatch_def by (simp only: zip_map_map zip_same_conv_map) simp
  moreover have "map Some (map the sv) = sv" by (rule movebothif_live [OF laws(2) _ mv]) simp
  moreover have "LiveCacheWriter_Commit L v h w = Some (w\<lparr>lcwCache :=
      lcEvict L (lcSetBatch L sk sv (lcDeleteBatch L dk (lcwCache w))), lcwBuffer := []\<rparr>, None)"
    unfolding LiveCacheWriter_Commit_def Let_def merged col using mv by simp
  ultimately show ?thesis by auto
qed

section \<open>A concrete library\<close>

text \<open>The laws are satisfiable: sequential helpers and a cache that is a map and evicts nothing.\<close>

definition seqTransform :: "'v transform" where
  "seqTransform f xs ks =
     map_option (\<lambda>(res, ks'). (map (\<lambda>i. the (res i)) [0..<length xs], ks'))
       (transformSpec f xs [0..<length xs] (Map.empty, ks))"

definition seqMoveBothIf :: "'x movebothif" where
  "seqMoveBothIf P ab = (case ab of (ks, vs) \<Rightarrow>
     (unzip (map snd (filter (\<lambda>(i, k, v). P i k v) (enumerate 0 (zip ks vs)))),
      unzip (map snd (filter (\<lambda>(i, k, v). \<not> P i k v) (enumerate 0 (zip ks vs))))))"

definition seqConcateDo :: "('i, 'e) concat_do" where
  "seqConcateDo xs sz g = concat (map g xs)"

definition mapDelete :: "string list \<Rightarrow> (string \<rightharpoonup> 'x) \<Rightarrow> (string \<rightharpoonup> 'x)" where
  "mapDelete ks m = (\<lambda>k. if k \<in> set ks then None else m k)"

definition mapSet :: "string list \<Rightarrow> 'x list \<Rightarrow> (string \<rightharpoonup> 'x) \<Rightarrow> (string \<rightharpoonup> 'x)" where
  "mapSet ks vs m = m ++ map_of (rev (zip ks vs))"

lemma seqTransform_law: "transform_law seqTransform"
proof (unfold transform_law_def, intro allI)
  show "\<exists>is. mset is = mset [0..<length xs] \<and>
      seqTransform f xs ks = map_option (\<lambda>(res, ks'). (map (\<lambda>i. the (res i)) [0..<length xs], ks'))
        (transformSpec f xs is (Map.empty, ks))" for f :: "nat \<Rightarrow> ref \<Rightarrow> string list \<Rightarrow> ('a \<times> string list) option" and xs ks
    by (rule exI [of _ "[0..<length xs]"]) (simp add: seqTransform_def)
qed

lemma filter_enumerate2:
  "map snd (filter (\<lambda>(i, k, v). P k v) (enumerate n xs)) = filter (\<lambda>(k, v). P k v) xs"
  by (induction xs arbitrary: n) auto

lemma seqMoveBothIf_law: "movebothif_law seqMoveBothIf"
  by (simp add: movebothif_law_def seqMoveBothIf_def filter_enumerate2)

lemma seqConcateDo_law: "concat_law seqConcateDo"
  by (simp add: concat_law_def seqConcateDo_def)

lemma map_batch_law: "batch_law mapDelete mapSet (\<lambda>m. m)"
  by (simp add: batch_law_def mapDelete_def mapSet_def)

definition seq_cache :: "('c, 'v) cell_api \<Rightarrow> ('c, 'v, string \<rightharpoonup> 'v) livecache_lib" where
  "seq_cache A = \<lparr>lcCell = A, lcTransform = seqTransform, lcConcateDo = seqConcateDo,
     lcMoveBothIf = seqMoveBothIf, lcDeleteBatch = mapDelete,
     lcSetBatch = (\<lambda>ks vs. mapSet ks (map the vs)), lcEvict = (\<lambda>s. s), lcLookup = (\<lambda>s. s)\<rparr>"

lemma seq_cache_sel [simp]: "lcCell (seq_cache A) = A" "lcLookup (seq_cache A) = (\<lambda>s. s)" "lcEvict (seq_cache A) = (\<lambda>s. s)"
  by (simp_all add: seq_cache_def)

lemma seq_cache_law: "cell_law A \<Longrightarrow> livecache_law (seq_cache A)"
proof -
  assume "cell_law A"
  moreover
  have "batch_law mapDelete (\<lambda>ks vs. mapSet ks (map the (map Some vs))) (\<lambda>m. m)"
    using map_batch_law by (simp add: comp_def)
  ultimately show ?thesis
    using seqTransform_law seqConcateDo_law seqMoveBothIf_law
    unfolding livecache_law_def seq_cache_def by simp
qed

abbreviation int_cache :: "(icell, int, string \<rightharpoonup> int) livecache_lib" where
  "int_cache \<equiv> seq_cache int_api"

lemmas int_cache_law = seq_cache_law [OF int_api_law]

section \<open>Properties\<close>

text \<open>
  C13. Committing the live cache applies every closed generation. When no path is deleted after
  a write of an earlier entry, the cache afterwards answers for every path either with a miss,
  if the entry has been evicted, or with the state obtained by applying the transitions of all
  generations one after the other to the old content; the generations are then gone and the
  indexer of the current generation is untouched.
\<close>
theorem LiveCacheWriter_Commit_replay:
  assumes "livecache_law L" "deletesFirst (lcwBatch (lcCell L) h w)"
    and "\<And>r. r \<in> set (concat (map lciBuffer (lcwBuffer w))) \<Longrightarrow> pathAt (lcCell L) h r \<noteq> None \<and> typedAt (lcCell L) h r"
  shows "\<exists>w'. LiveCacheWriter_Commit L v h w = Some (w', None) \<and> lcwBuffer w' = [] \<and>
    lcwIndexer w' = lcwIndexer w \<and>
    (\<forall>k. lcLookup L (lcwCache w') k = None \<or>
       lcLookup L (lcwCache w') k = replay (lcwBatch (lcCell L) h w) (lcLookup L (lcwCache w)) k)"
proof -
  obtain c where c: "LiveCacheWriter_Commit L v h w = Some (w\<lparr>lcwCache := lcEvict L c, lcwBuffer := []\<rparr>, None)"
    "lcLookup L c = replay (lcwBatch (lcCell L) h w) (lcLookup L (lcwCache w))"
    using LiveCacheWriter_Commit_ok [where w = w and h = h and v = v, OF assms(1,3)] commitBatch_replay [OF assms(2)] by auto
  moreover have "lcLookup L (lcEvict L c) k = None \<or> lcLookup L (lcEvict L c) k = lcLookup L c k" for k
    using assms(1) by (auto simp: livecache_law_def)
  ultimately show ?thesis by auto
qed

text \<open>Two generations: one with a single cell each.\<close>

definition sampleGen :: "ref list \<Rightarrow> (icell, int) LiveCacheIndexer" where
  "sampleGen rs = (NewLiveCacheIndexer 0 (Some AllTransitions))\<lparr>lciBuffer := rs\<rparr>"

definition sampleWriter :: "ref list list \<Rightarrow> (icell, int, string \<rightharpoonup> int) LiveCacheWriter" where
  "sampleWriter gs = (NewLiveCacheWriter (Map.empty(''b'' \<mapsto> 1)) 0 (Some AllTransitions))\<lparr>lcwBuffer := map sampleGen gs\<rparr>"

lemma sampleWriter_buffers: "map lciBuffer (lcwBuffer (sampleWriter gs)) = gs"
  by (induction gs) (simp_all add: sampleWriter_def sampleGen_def)

lemma sampleWriter_cache [simp]: "lcwCache (sampleWriter gs) = Map.empty(''b'' \<mapsto> 1)"
  by (simp add: sampleWriter_def NewLiveCacheWriter_def)

theorem LiveCacheWriter_Commit_replay_witness:
  "\<exists>w'. LiveCacheWriter_Commit int_cache 0 sampleHeap (sampleWriter [[2], [3]]) = Some (w', None) \<and>
    lcwBuffer w' = [] \<and>
    (lcwCache w' ''a'' = None \<or> lcwCache w' ''a'' = Some 13)"
proof -
  have api: "lcCell int_cache = int_api" "lcLookup int_cache = (\<lambda>s. s)" by (simp_all add: seq_cache_def)
  have b: "lcwBatch int_api sampleHeap (sampleWriter [[2], [3]]) = [(''a'', Some 12), (''a'', Some 13)]"
    unfolding lcwBatch_def sampleWriter_buffers by (simp add: int_api_def sampleHeap_def icellOf_def)
  have d: "deletesFirst (lcwBatch (lcCell int_cache) sampleHeap (sampleWriter [[2], [3]]))"
    unfolding api b by simp
  have "\<exists>w'. LiveCacheWriter_Commit int_cache 0 sampleHeap (sampleWriter [[2], [3]]) = Some (w', None) \<and>
    lcwBuffer w' = [] \<and> lcwIndexer w' = lcwIndexer (sampleWriter [[2], [3]]) \<and>
    (\<forall>k. lcLookup int_cache (lcwCache w') k = None \<or> lcLookup int_cache (lcwCache w') k =
       replay (lcwBatch (lcCell int_cache) sampleHeap (sampleWriter [[2], [3]]))
         (lcLookup int_cache (lcwCache (sampleWriter [[2], [3]]))) k)"
    by (rule LiveCacheWriter_Commit_replay [OF int_cache_law d])
       (simp add: sampleWriter_buffers api int_api_def sampleHeap_def icellOf_def typedAt_def)
  then show ?thesis unfolding api b by (fastforce simp: replay_def)
qed

text \<open>
  C33. A path written in any generation of the block is in the cache after the commit, with the
  last value written, before eviction: a deletion of the path in a later generation of the same
  block has no effect, because \<open>Commit\<close> carries out all deletions before all writes.
\<close>
theorem LiveCacheWriter_Commit_resurrects:
  assumes "livecache_law L" "(k, Some x) \<in> set (lcwBatch (lcCell L) h w)"
    and "\<And>r. r \<in> set (concat (map lciBuffer (lcwBuffer w))) \<Longrightarrow> pathAt (lcCell L) h r \<noteq> None \<and> typedAt (lcCell L) h r"
  shows "\<exists>c y. LiveCacheWriter_Commit L v h w = Some (w\<lparr>lcwCache := lcEvict L c, lcwBuffer := []\<rparr>, None) \<and>
    lcLookup L c k = Some y \<and> lastSet (lcwBatch (lcCell L) h w) k = Some y"
proof -
  obtain y where y: "lastSet (lcwBatch (lcCell L) h w) k = Some y"
    using assms(2) lastSet_None [of "lcwBatch (lcCell L) h w" k] by (meson not_None_eq)
  from LiveCacheWriter_Commit_ok [where w = w and h = h and v = v, OF assms(1,3)] obtain c where
    c: "LiveCacheWriter_Commit L v h w = Some (w\<lparr>lcwCache := lcEvict L c, lcwBuffer := []\<rparr>, None)"
      "lcLookup L c = commitBatch (lcwBatch (lcCell L) h w) (lcLookup L (lcwCache w))" by blast
  then have "lcLookup L c k = Some y" by (simp add: commitBatch_def y)
  with c y show ?thesis by blast
qed

text \<open>The path is written by the first generation and deleted by the second.\<close>

definition deletingHeap :: "icell heap" where
  "deletingHeap = upd 3 (\<lambda>c. c\<lparr>icValue := None\<rparr>) sampleHeap"

theorem LiveCacheWriter_Commit_resurrects_witness:
  "lcwBatch int_api deletingHeap (sampleWriter [[2], [3]]) = [(''a'', Some 12), (''a'', None)] \<and>
   (\<exists>w'. LiveCacheWriter_Commit int_cache 0 deletingHeap (sampleWriter [[2], [3]]) = Some (w', None) \<and>
      lcwCache w' ''a'' = Some 12)"
proof -
  have api: "lcCell int_cache = int_api" "lcLookup int_cache = (\<lambda>s. s)" "lcEvict int_cache = (\<lambda>s. s)"
    by (simp_all add: seq_cache_def)
  have b: "lcwBatch int_api deletingHeap (sampleWriter [[2], [3]]) = [(''a'', Some 12), (''a'', None)]"
    unfolding lcwBatch_def sampleWriter_buffers
    by (simp add: int_api_def deletingHeap_def sampleHeap_def icellOf_def)
  have m: "(''a'', Some 12) \<in> set (lcwBatch (lcCell int_cache) deletingHeap (sampleWriter [[2], [3]]))"
    unfolding api b by simp
  have "\<exists>c y. LiveCacheWriter_Commit int_cache 0 deletingHeap (sampleWriter [[2], [3]]) =
      Some ((sampleWriter [[2], [3]])\<lparr>lcwCache := lcEvict int_cache c, lcwBuffer := []\<rparr>, None) \<and>
    lcLookup int_cache c ''a'' = Some y \<and>
    lastSet (lcwBatch (lcCell int_cache) deletingHeap (sampleWriter [[2], [3]])) ''a'' = Some y"
    by (rule LiveCacheWriter_Commit_resurrects [OF int_cache_law m])
       (auto simp: sampleWriter_buffers api int_api_def deletingHeap_def sampleHeap_def icellOf_def typedAt_def)
  then show ?thesis using b unfolding api by auto
qed

text \<open>
  Transitions imported between \<open>Precommit(true)\<close> and the \<open>Precommit(false)\<close> that closes the
  generation never reach the cache: the new batch holds the staged transitions only, and the
  import buffer is empty afterwards.
\<close>
theorem LiveCacheWriter_late_import_lost:
  assumes "lcwInv L acc w" "distinct ts" "\<And>r. r \<in> set ts \<Longrightarrow> pathAt (lcCell L) h r \<noteq> None \<and> typedAt (lcCell L) h r"
    and "\<And>r. r \<in> set (lciBuffer (lcwIndexer w)) \<Longrightarrow> typedAt (lcCell L) h r"
    and "set ts \<inter> set (lciBuffer (lcwIndexer w)) = {}"
  shows "\<exists>w1 h1 w2. LiveCacheWriter_Import ts h w = Some (w1, h1) \<and>
    LiveCacheWriter_Precommit L False h1 w1 = Some (w2, None) \<and>
    lciImportBuffer (lcwIndexer w2) = [] \<and> lciBuffer (lcwIndexer w2) = [] \<and>
    map lciBuffer (lcwBuffer w2) = map lciBuffer (lcwBuffer w) @ [liveIn (lcCell L) h (lciBuffer (lcwIndexer w))]"
  using assms by (rule lcw.late_import_lost)

lemma AllTransitions_law: "filt_law A (\<lambda>_. True) AllTransitions"
  by (simp add: filt_law_def AllTransitions_def)

theorem LiveCacheWriter_late_import_lost_witness:
  "\<exists>w1 h1 w2. LiveCacheWriter_Import [4] sampleHeap (sampleWriter []) = Some (w1, h1) \<and>
    LiveCacheWriter_Precommit int_cache False h1 w1 = Some (w2, None) \<and>
    lciImportBuffer (lcwIndexer w2) = [] \<and> lciBuffer (lcwIndexer w2) = [] \<and> map lciBuffer (lcwBuffer w2) = [[]]"
proof -
  have i: "lcwInv int_cache (\<lambda>_. True) (sampleWriter [])"
    using int_cache_law AllTransitions_law
    by (auto simp: lcwInv_def sampleWriter_def NewLiveCacheWriter_def NewLiveCacheIndexer_def)
  have s: "lciBuffer (lcwIndexer (sampleWriter [])) = []"
    by (simp add: sampleWriter_def NewLiveCacheWriter_def NewLiveCacheIndexer_def)
  have "\<exists>w1 h1 w2. LiveCacheWriter_Import [4] sampleHeap (sampleWriter []) = Some (w1, h1) \<and>
    LiveCacheWriter_Precommit int_cache False h1 w1 = Some (w2, None) \<and>
    lciImportBuffer (lcwIndexer w2) = [] \<and> lciBuffer (lcwIndexer w2) = [] \<and>
    map lciBuffer (lcwBuffer w2) = map lciBuffer (lcwBuffer (sampleWriter [])) @
      [liveIn (lcCell int_cache) sampleHeap (lciBuffer (lcwIndexer (sampleWriter [])))]"
    by (rule LiveCacheWriter_late_import_lost [OF i])
       (simp_all add: s seq_cache_def int_api_def sampleHeap_def icellOf_def typedAt_def)
  then show ?thesis by (simp add: s sampleWriter_buffers liveIn_def)
qed

end
