(* ===== verification/LiveStorage.thy ===== *)
theory LiveStorage
  imports LiveCache
begin

text \<open>
  \<open>src/storage/execstorage/livebackend\<close>: the writer of the persistent execution storage. Its
  indexer differs from the live cache's in that it encodes the values when the generation is
  closed, so that a commit writes what the cells held then; the backend may be absent, and then
  committing panics.

  \<open>'v\<close> is the type of cell values, which the code calls V0, \<open>'x\<close> the encoded type V1, \<open>'k\<close> the
  backend store.
\<close>

section \<open>State and third-party operations\<close>

record ('c, 'v, 'x) LiveStgIndexer =
  lsiBuffer :: "ref list"
  lsiImportBuffer :: "ref list"
  lsiPartitionIDs :: "u64 list"
  lsiKeyBuffer :: "string list"
  lsiValueBuffer :: "'v option list"
  lsiEncodedBuffer :: "'x option list"
  lsiFilter :: "'c filt option"

record ('c, 'v, 'x, 'k) LiveStorageWriter =
  lswIndexer :: "('c, 'v, 'x) LiveStgIndexer"
  lswBuffer :: "('c, 'v, 'x) LiveStgIndexer list"
  lswStore :: "'k option"
  lswVersion :: int
  lswFilter :: "'c filt option"

text \<open>\<open>lsForward\<close> is the codec's ForwardConvert: the encoded value and an error, which the caller drops.\<close>

record ('c, 'v, 'x, 'k) livestg_lib =
  lsCell :: "('c, 'v) cell_api"
  lsTransform :: "'v option transform"
  lsConcateIDs :: "(('c, 'v, 'x) LiveStgIndexer, u64) concat_do"
  lsConcateKeys :: "(('c, 'v, 'x) LiveStgIndexer, string) concat_do"
  lsConcateVals :: "(('c, 'v, 'x) LiveStgIndexer, 'v option) concat_do"
  lsConcateEnc :: "(('c, 'v, 'x) LiveStgIndexer, 'x option) concat_do"
  lsMoveBothIf :: "'x option movebothif"
  lsForward :: "string \<Rightarrow> 'v \<Rightarrow> 'x \<times> err"
  lsDeleteBatch :: "string list \<Rightarrow> 'k \<Rightarrow> 'k"
  lsSetBatch :: "string list \<Rightarrow> 'x list \<Rightarrow> 'k \<Rightarrow> 'k \<times> err list"
  lsLookup :: "'k \<Rightarrow> string \<Rightarrow> 'x option"

text \<open>A batch that reports no error has been written.\<close>

definition livestg_law :: "('c, 'v, 'x, 'k) livestg_lib \<Rightarrow> bool" where
  "livestg_law L \<longleftrightarrow>
     cell_law (lsCell L) \<and> transform_law (lsTransform L) \<and> concat_law (lsConcateKeys L) \<and>
     concat_law (lsConcateEnc L) \<and> movebothif_law (lsMoveBothIf L) \<and>
     (\<forall>ks s. lsLookup L (lsDeleteBatch L ks s) = (\<lambda>k. if k \<in> set ks then None else lsLookup L s k)) \<and>
     (\<forall>ks vs s s' es. length ks = length vs \<and> lsSetBatch L ks vs s = (s', es) \<and> set es \<subseteq> {None} \<longrightarrow>
        lsLookup L s' = lsLookup L s ++ map_of (rev (zip ks vs)))"

section \<open>LiveStgIndexer (live_storage_indexer.go)\<close>

definition NewLiveStgIndexer :: "'c filt option \<Rightarrow> ('c, 'v, 'x) LiveStgIndexer" where
  "NewLiveStgIndexer filt =
     \<lparr>lsiBuffer = [], lsiImportBuffer = [], lsiPartitionIDs = [], lsiKeyBuffer = [], lsiValueBuffer = [],
      lsiEncodedBuffer = [], lsiFilter = filt\<rparr>"

fun lsiImportLoop ::
  "('c, 'v) cell_api \<Rightarrow> 'c filt option \<Rightarrow> ref list \<Rightarrow> ref list \<times> 'c heap \<Rightarrow> (ref list \<times> 'c heap) option" where
  "lsiImportLoop A filt [] s = Some s"
| "lsiImportLoop A filt (t # ts) (buf, h) =
     (if pathAt A h t = None then lsiImportLoop A filt ts (buf, h)
      else do {
        f \<leftarrow> filt;
        (ok, h') \<leftarrow> f t h;
        lsiImportLoop A filt ts (if ok then buf @ [t] else buf, h')
      })"

definition LiveStgIndexer_Import ::
  "('c, 'v) cell_api \<Rightarrow> ref list \<Rightarrow> 'c heap \<Rightarrow> ('c, 'v, 'x) LiveStgIndexer \<Rightarrow>
   (('c, 'v, 'x) LiveStgIndexer \<times> 'c heap) option" where
  "LiveStgIndexer_Import A trs h this = do {
     (buf, h') \<leftarrow> lsiImportLoop A (lsiFilter this) trs (lsiImportBuffer this, h);
     Some (this\<lparr>lsiImportBuffer := buf\<rparr>, h')
   }"

definition LiveStgIndexer_Reset :: "('c, 'v, 'x) LiveStgIndexer \<Rightarrow> ('c, 'v, 'x) LiveStgIndexer" where
  "LiveStgIndexer_Reset this = this\<lparr>lsiBuffer := lsiImportBuffer this, lsiImportBuffer := []\<rparr>"

text \<open>The type assertion \<open>Value().(V0)\<close> is the one to CRDT: V0 is CRDT wherever the writer is built.\<close>

definition LiveStgIndexer_Finalize ::
  "('c, 'v, 'x, 'k) livestg_lib \<Rightarrow> 'c heap \<Rightarrow> ('c, 'v, 'x) LiveStgIndexer \<Rightarrow>
   ('c, 'v, 'x) LiveStgIndexer option" where
  "LiveStgIndexer_Finalize L h this = do {
     let buf = fst (RemoveIf (lsCell L) (\<lambda>_ v. pathAt (lsCell L) h v = None) (lsiBuffer this));
     (values, keys) \<leftarrow> lsTransform L
       (\<lambda>i v ks. do { k \<leftarrow> pathAt (lsCell L) h v; y \<leftarrow> crdtAt (lsCell L) h v; Some (y, ks[i := k]) })
       buf (replicate (length buf) []);
     let encoded = map (\<lambda>(k, v). map_option (\<lambda>x. fst (lsForward L k x)) v) (zip keys values);
     Some (this\<lparr>lsiBuffer := buf, lsiKeyBuffer := keys, lsiValueBuffer := values, lsiEncodedBuffer := encoded\<rparr>)
   }"

definition LiveStgIndexer_Merge ::
  "('c, 'v, 'x, 'k) livestg_lib \<Rightarrow> ('c, 'v, 'x) LiveStgIndexer list \<Rightarrow> ('c, 'v, 'x) LiveStgIndexer \<Rightarrow>
   ('c, 'v, 'x) LiveStgIndexer" where
  "LiveStgIndexer_Merge L idxers this =
     this\<lparr>lsiPartitionIDs := lsConcateIDs L idxers (\<lambda>x. of_nat (length (lsiPartitionIDs x))) lsiPartitionIDs,
          lsiKeyBuffer := lsConcateKeys L idxers (\<lambda>x. of_nat (length (lsiKeyBuffer x))) lsiKeyBuffer,
          lsiValueBuffer := lsConcateVals L idxers (\<lambda>x. of_nat (length (lsiValueBuffer x))) lsiValueBuffer,
          lsiEncodedBuffer := lsConcateEnc L idxers (\<lambda>x. of_nat (length (lsiEncodedBuffer x))) lsiEncodedBuffer\<rparr>"

section \<open>LiveStorageWriter (live_storage_writer.go)\<close>

definition NewLiveStorageWriter ::
  "'k option \<Rightarrow> int \<Rightarrow> 'c filt option \<Rightarrow> ('c, 'v, 'x, 'k) LiveStorageWriter" where
  "NewLiveStorageWriter store version filt =
     \<lparr>lswIndexer = NewLiveStgIndexer filt, lswBuffer = [], lswStore = store, lswVersion = version,
      lswFilter = filt\<rparr>"

definition LiveStorageWriter_Import ::
  "('c, 'v) cell_api \<Rightarrow> ref list \<Rightarrow> 'c heap \<Rightarrow> ('c, 'v, 'x, 'k) LiveStorageWriter \<Rightarrow>
   (('c, 'v, 'x, 'k) LiveStorageWriter \<times> 'c heap) option" where
  "LiveStorageWriter_Import A trs h this = do {
     (idx, h') \<leftarrow> LiveStgIndexer_Import A trs h (lswIndexer this);
     Some (this\<lparr>lswIndexer := idx\<rparr>, h')
   }"

definition LiveStorageWriter_Precommit ::
  "('c, 'v, 'x, 'k) livestg_lib \<Rightarrow> bool \<Rightarrow> 'c heap \<Rightarrow> ('c, 'v, 'x, 'k) LiveStorageWriter \<Rightarrow>
   (('c, 'v, 'x, 'k) LiveStorageWriter \<times> err) option" where
  "LiveStorageWriter_Precommit L isSync h this =
     (if isSync
      then Some (this\<lparr>lswIndexer := LiveStgIndexer_Reset (lswIndexer this)\<rparr>, None)
      else do {
        idx \<leftarrow> LiveStgIndexer_Finalize L h (lswIndexer this);
        Some (this\<lparr>lswBuffer := lswBuffer this @ [idx],
                   lswIndexer := NewLiveStgIndexer (lswFilter this)\<rparr>, None)
      })"

definition LiveStorageWriter_Commit ::
  "('c, 'v, 'x, 'k) livestg_lib \<Rightarrow> u64 \<Rightarrow> ('c, 'v, 'x, 'k) LiveStorageWriter \<Rightarrow>
   (('c, 'v, 'x, 'k) LiveStorageWriter \<times> err) option" where
  "LiveStorageWriter_Commit L block this = do {
     let merged = LiveStgIndexer_Merge L (lswBuffer this) (NewLiveStgIndexer None);
     let ((keyToDel, _), (keys, enc)) =
       lsMoveBothIf L (\<lambda>_ _ v. v = None) (lsiKeyBuffer merged, lsiEncodedBuffer merged);
     store \<leftarrow> lswStore this;
     let store = lsDeleteBatch L keyToDel store;
     encoded \<leftarrow> those enc;
     let (store, errs) = lsSetBatch L keys encoded store;
     Some (this\<lparr>lswStore := Some store, lswBuffer := []\<rparr>, joinErrors errs)
   }"

definition LiveStorageWriter_IsSync :: "('c, 'v, 'x, 'k) LiveStorageWriter \<Rightarrow> bool" where
  "LiveStorageWriter_IsSync this = False"

section \<open>Staging\<close>

lemma lsiImportLoop_paths:
  assumes "filt_law A acc f" "distinct ts" "\<And>r. r \<in> set ts \<Longrightarrow> pathAt A h r \<noteq> None \<and> typedAt A h r"
  shows "lsiImportLoop A (Some f) ts (buf, h) = lciImportLoop (Some f) ts (buf, h)"
  using assms(2,3)
proof (induction ts arbitrary: buf h)
  case Nil
  then show ?case by simp
next
  case (Cons t ts)
  obtain h1 where 1: "f t h = Some (acc (cellAt h t), h1)" "sameMeta A h h1"
    "\<forall>q. q \<noteq> t \<longrightarrow> cellAt h1 q = cellAt h q"
    using filt_law_run [OF assms(1), of h t] Cons.prems(2) [of t] by auto
  have "pathAt A h1 r \<noteq> None \<and> typedAt A h1 r" if "r \<in> set ts" for r
    using that Cons.prems(1) Cons.prems(2) [of r] 1(2,3) by (auto simp: sameMeta_def typedAt_def)
  then show ?case using 1(1) Cons.prems(1) Cons.prems(2) [of t] Cons.IH [of h1] by auto
qed

definition lswInv :: "('c, 'v, 'x, 'k) livestg_lib \<Rightarrow> ('c \<Rightarrow> bool) \<Rightarrow> ('c, 'v, 'x, 'k) LiveStorageWriter \<Rightarrow> bool" where
  "lswInv L acc w \<longleftrightarrow> livestg_law L \<and> lsiFilter (lswIndexer w) = lswFilter w \<and>
     (\<exists>f. lswFilter w = Some f \<and> filt_law (lsCell L) acc f) \<and>
     (\<forall>g \<in> set (lswBuffer w). length (lsiKeyBuffer g) = length (lsiEncodedBuffer g))"

text \<open>What closing a generation records: path and encoded value of every live cell.\<close>

definition lsEncodedOf :: "('c, 'v, 'x, 'k) livestg_lib \<Rightarrow> 'c heap \<Rightarrow> ref \<Rightarrow> 'x option" where
  "lsEncodedOf L h r =
     map_option (\<lambda>x. fst (lsForward L (the (pathAt (lsCell L) h r)) x)) (valueAt (lsCell L) h r)"

lemma LiveStgIndexer_Finalize_ok:
  assumes "livestg_law L" "\<And>r. r \<in> set (liveIn (lsCell L) h (lsiBuffer this)) \<Longrightarrow> typedAt (lsCell L) h r"
  shows "LiveStgIndexer_Finalize L h this =
    (let live = liveIn (lsCell L) h (lsiBuffer this) in
     Some (this\<lparr>lsiBuffer := live, lsiKeyBuffer := map (\<lambda>r. the (pathAt (lsCell L) h r)) live,
       lsiValueBuffer := map (valueAt (lsCell L) h) live, lsiEncodedBuffer := map (lsEncodedOf L h) live\<rparr>))"
proof -
  let ?A = "lsCell L" and ?live = "liveIn (lsCell L) h (lsiBuffer this)"
  have laws: "cell_law ?A" "transform_law (lsTransform L)" using assms(1) by (auto simp: livestg_law_def)
  have buf: "fst (RemoveIf ?A (\<lambda>_ v. pathAt ?A h v = None) (lsiBuffer this)) = ?live"
    by (simp add: cell_law_simps [OF laws(1)] liveIn_def)
  have val: "crdtAt ?A h r = Some (valueAt ?A h r)" if "r \<in> set ?live" for r
    using assms(2) [OF that] by (rule crdtAt_typed)
  have ok: "pathAt ?A h r \<noteq> None \<and> crdtAt ?A h r \<noteq> None" if "r \<in> set ?live" for r
    using that val [OF that] by (auto simp: liveIn_def)
  have run: "lsTransform L
      (\<lambda>i v ks. do { k \<leftarrow> pathAt ?A h v; y \<leftarrow> crdtAt ?A h v; Some (y, ks[i := k]) })
      ?live (replicate (length ?live) []) =
    Some (map (\<lambda>r. the (crdtAt ?A h r)) ?live, map (\<lambda>r. the (pathAt ?A h r)) ?live)"
    using transform_keys [OF laws(2), of "replicate (length ?live) []" ?live "pathAt ?A h" "crdtAt ?A h"] ok by simp
  have vals: "map (\<lambda>r. the (crdtAt ?A h r)) ?live = map (valueAt ?A h) ?live" using val by simp
  have enc: "map (\<lambda>(k, v). map_option (\<lambda>x. fst (lsForward L k x)) v)
      (zip (map (\<lambda>r. the (pathAt ?A h r)) rs) (map (valueAt ?A h) rs)) = map (lsEncodedOf L h) rs" for rs
    by (induction rs) (simp_all add: lsEncodedOf_def)
  show ?thesis unfolding LiveStgIndexer_Finalize_def buf Let_def by (simp only: run vals bind.bind_lunit prod.case enc)
qed

interpretation lsw: staged_writer "lsCell L" "LiveStorageWriter_Import (lsCell L)" "LiveStorageWriter_Precommit L"
  "\<lambda>w. lsiImportBuffer (lswIndexer w)" "\<lambda>w. lsiBuffer (lswIndexer w)" "\<lambda>w. map lsiBuffer (lswBuffer w)"
  "\<lambda>_. acc" "lswInv L acc" for L :: "('c, 'v, 'x, 'k) livestg_lib" and acc
proof (unfold_locales, goal_cases)
  case (1 ts h s)
  obtain f where f: "lsiFilter (lswIndexer s) = Some f" "filt_law (lsCell L) acc f"
    using 1(1) by (auto simp: lswInv_def)
  from lciImportLoop_ok [OF f(2) 1(2,3), of "lsiImportBuffer (lswIndexer s)"] 1(1) show ?case
    by (auto simp: LiveStorageWriter_Import_def LiveStgIndexer_Import_def f(1) lswInv_def
        lsiImportLoop_paths [OF f(2) 1(2,3)])
next
  case (2 h s)
  then show ?case by (simp add: LiveStorageWriter_Precommit_def LiveStgIndexer_Reset_def lswInv_def)
next
  case (3 h s)
  have law: "livestg_law L" using 3(1) by (simp add: lswInv_def)
  from LiveStgIndexer_Finalize_ok [OF law 3(2)] 3(1) show ?case
    by (simp add: LiveStorageWriter_Precommit_def NewLiveStgIndexer_def lswInv_def Let_def)
qed

section \<open>Committing\<close>

text \<open>What the closed generations have recorded, in order.\<close>

definition lswBatch :: "('c, 'v, 'x, 'k) LiveStorageWriter \<Rightarrow> 'x batch" where
  "lswBatch w = zip (concat (map lsiKeyBuffer (lswBuffer w))) (concat (map lsiEncodedBuffer (lswBuffer w)))"

lemma length_concat_eq:
  "(\<And>g. g \<in> set gs \<Longrightarrow> length (f g) = length (k g)) \<Longrightarrow> length (concat (map f gs)) = length (concat (map k gs))"
  by (induction gs) auto

lemma those_Some: "those (map Some xs) = Some xs"
  by (induction xs) simp_all

lemma LiveStorageWriter_Commit_run:
  assumes "lswInv L acc w"
  obtains dk dv sk sv where
    "lsMoveBothIf L (\<lambda>_ _ v. v = None) (concat (map lsiKeyBuffer (lswBuffer w)), concat (map lsiEncodedBuffer (lswBuffer w))) =
      ((dk, dv), (sk, sv))"
    "length (concat (map lsiKeyBuffer (lswBuffer w))) = length (concat (map lsiEncodedBuffer (lswBuffer w)))"
    "LiveStorageWriter_Commit L v w = do {
       store \<leftarrow> lswStore w;
       let (store, errs) = lsSetBatch L sk (map the sv) (lsDeleteBatch L dk store);
       Some (w\<lparr>lswStore := Some store, lswBuffer := []\<rparr>, joinErrors errs) }"
proof -
  let ?ks = "concat (map lsiKeyBuffer (lswBuffer w))" and ?es = "concat (map lsiEncodedBuffer (lswBuffer w))"
  have law: "livestg_law L" using assms by (simp add: lswInv_def)
  have len: "length ?ks = length ?es"
    using assms by (intro length_concat_eq) (simp add: lswInv_def)
  let ?m = "LiveStgIndexer_Merge L (lswBuffer w) (NewLiveStgIndexer None)"
  have merged: "lsiKeyBuffer ?m = ?ks" "lsiEncodedBuffer ?m = ?es"
    using law by (simp_all add: livestg_law_def concat_law_def LiveStgIndexer_Merge_def)
  obtain dk dv sk sv where mv: "lsMoveBothIf L (\<lambda>_ _ v. v = None) (?ks, ?es) = ((dk, dv), (sk, sv))"
    by (metis prod.exhaust)
  have "map Some (map the sv) = sv"
    using law by (intro movebothif_live [where M = "lsMoveBothIf L", OF _ len mv]) (simp add: livestg_law_def)
  then have "those sv = Some (map the sv)" by (metis those_Some)
  then have "LiveStorageWriter_Commit L v w = do {
       store \<leftarrow> lswStore w;
       let (store, errs) = lsSetBatch L sk (map the sv) (lsDeleteBatch L dk store);
       Some (w\<lparr>lswStore := Some store, lswBuffer := []\<rparr>, joinErrors errs) }"
    unfolding LiveStorageWriter_Commit_def Let_def merged mv by simp
  then show ?thesis using that [OF mv len] by blast
qed

lemma LiveStorageWriter_Commit_batch:
  assumes "lswInv L acc w" "lswStore w = Some k"
    and "LiveStorageWriter_Commit L v w = Some (w', None)"
  shows "lswBuffer w' = [] \<and> (\<exists>k'. lswStore w' = Some k' \<and> lsLookup L k' = commitBatch (lswBatch w) (lsLookup L k))"
proof -
  obtain dk dv sk sv where run:
    "lsMoveBothIf L (\<lambda>_ _ v. v = None) (concat (map lsiKeyBuffer (lswBuffer w)), concat (map lsiEncodedBuffer (lswBuffer w))) =
      ((dk, dv), (sk, sv))"
    "length (concat (map lsiKeyBuffer (lswBuffer w))) = length (concat (map lsiEncodedBuffer (lswBuffer w)))"
    "LiveStorageWriter_Commit L v w = do {
       store \<leftarrow> lswStore w;
       let (store, errs) = lsSetBatch L sk (map the sv) (lsDeleteBatch L dk store);
       Some (w\<lparr>lswStore := Some store, lswBuffer := []\<rparr>, joinErrors errs) }"
    by (rule LiveStorageWriter_Commit_run [OF assms(1)])
  have law: "livestg_law L" using assms(1) by (simp add: lswInv_def)
  obtain k' es where sb: "lsSetBatch L sk (map the sv) (lsDeleteBatch L dk k) = (k', es)" by fastforce
  have w': "w' = w\<lparr>lswStore := Some k', lswBuffer := []\<rparr>" "set es \<subseteq> {None}"
    using assms(2,3) run(3) sb joinErrors_None [of es] by auto
  have "lsLookup L k' = commitBatch (lswBatch w) (lsLookup L k)"
    unfolding lswBatch_def
  proof (rule batch_commit_at [where M = "lsMoveBothIf L", OF _ run(2,1)])
    show "movebothif_law (lsMoveBothIf L)" using law by (simp add: livestg_law_def)
    show "lsLookup L (lsDeleteBatch L dk k) = (\<lambda>k'. if k' \<in> set dk then None else lsLookup L k k')"
      using law by (simp add: livestg_law_def)
    show "lsLookup L k' = lsLookup L (lsDeleteBatch L dk k) ++ map_of (rev (zip sk (map the sv)))"
      if "length sk = length (map the sv)"
      using law sb w'(2) that unfolding livestg_law_def by blast
  qed
  then show ?thesis using w' by simp
qed

text \<open>
  C14. Committing the live storage writes what the closed generations recorded: when no path is
  deleted after an earlier write and the backend reports no error, the backend afterwards holds
  the result of applying the recorded entries one after the other, the writer keeps no
  generation, and the cells' later contents play no role.
\<close>
theorem LiveStorageWriter_Commit_replay:
  assumes "lswInv L acc w" "lswStore w = Some k" "deletesFirst (lswBatch w)"
    and "LiveStorageWriter_Commit L v w = Some (w', None)"
  shows "lswBuffer w' = [] \<and> (\<exists>k'. lswStore w' = Some k' \<and> lsLookup L k' = replay (lswBatch w) (lsLookup L k))"
  using LiveStorageWriter_Commit_batch [OF assms(1,2,4)] commitBatch_replay [OF assms(3)] by metis

text \<open>
  Committing does not panic on a writer with a backend, whatever it has recorded, and always
  panics on a writer without one, such as the writer of a cache-only store.
\<close>
theorem LiveStorageWriter_Commit_needs_backend:
  assumes "lswInv L acc w"
  shows "(LiveStorageWriter_Commit L v w = None) = (lswStore w = None)"
proof -
  obtain dk dv sk sv where run: "LiveStorageWriter_Commit L v w = do {
       store \<leftarrow> lswStore w;
       let (store, errs) = lsSetBatch L sk (map the sv) (lsDeleteBatch L dk store);
       Some (w\<lparr>lswStore := Some store, lswBuffer := []\<rparr>, joinErrors errs) }"
    by (rule LiveStorageWriter_Commit_run [OF assms])
  show ?thesis unfolding run by (cases "lswStore w") (simp_all split: prod.split)
qed

section \<open>A concrete library\<close>

text \<open>A backend that is a map, with a codec that cannot fail.\<close>

definition seq_stg :: "('c, 'v) cell_api \<Rightarrow> ('v \<Rightarrow> 'x) \<Rightarrow> ('c, 'v, 'x, string \<rightharpoonup> 'x) livestg_lib" where
  "seq_stg A enc = \<lparr>lsCell = A, lsTransform = seqTransform, lsConcateIDs = seqConcateDo,
     lsConcateKeys = seqConcateDo, lsConcateVals = seqConcateDo, lsConcateEnc = seqConcateDo,
     lsMoveBothIf = seqMoveBothIf, lsForward = (\<lambda>k v. (enc v, None)), lsDeleteBatch = mapDelete,
     lsSetBatch = (\<lambda>ks vs s. (mapSet ks vs s, [])), lsLookup = (\<lambda>s. s)\<rparr>"

lemma seq_stg_sel [simp]:
  "lsCell (seq_stg A enc) = A" "lsLookup (seq_stg A enc) = (\<lambda>s. s)" "lsForward (seq_stg A enc) k v = (enc v, None)"
  by (simp_all add: seq_stg_def)

lemma seq_stg_law: "cell_law A \<Longrightarrow> livestg_law (seq_stg A enc)"
proof -
  assume "cell_law A"
  moreover have look: "lsLookup (seq_stg A enc) = (\<lambda>s. s)" by (simp add: seq_stg_def)
  ultimately show ?thesis
    unfolding livestg_law_def look
    by (auto simp: seq_stg_def mapDelete_def mapSet_def seqTransform_law seqConcateDo_law seqMoveBothIf_law)
qed

abbreviation int_stg :: "(icell, int, int, string \<rightharpoonup> int) livestg_lib" where
  "int_stg \<equiv> seq_stg int_api (\<lambda>v. v)"

lemmas int_stg_law = seq_stg_law [OF int_api_law, of "\<lambda>v. v"]

text \<open>A writer that has closed one generation with a write and a deletion.\<close>

definition storageGen :: "(icell, int, int) LiveStgIndexer" where
  "storageGen = (NewLiveStgIndexer (Some AllTransitions))\<lparr>lsiKeyBuffer := [''a'', ''b''], lsiEncodedBuffer := [Some 5, None]\<rparr>"

definition storageWriter :: "(icell, int, int, string \<rightharpoonup> int) LiveStorageWriter" where
  "storageWriter = (NewLiveStorageWriter (Some (Map.empty(''b'' \<mapsto> 1))) 0 (Some AllTransitions))\<lparr>lswBuffer := [storageGen]\<rparr>"

lemma storageWriter_inv: "lswInv int_stg (\<lambda>_. True) storageWriter"
  using int_stg_law AllTransitions_law
  by (auto simp: lswInv_def storageWriter_def NewLiveStorageWriter_def NewLiveStgIndexer_def storageGen_def)

theorem LiveStorageWriter_Commit_needs_backend_witness:
  "LiveStorageWriter_Commit int_stg 0 storageWriter \<noteq> None \<and>
   LiveStorageWriter_Commit int_stg 0 (storageWriter\<lparr>lswStore := None\<rparr>) = None"
proof -
  have i: "lswInv int_stg (\<lambda>_. True) (storageWriter\<lparr>lswStore := None\<rparr>)"
    using storageWriter_inv by (simp add: lswInv_def)
  have "lswStore storageWriter \<noteq> None" by (simp add: storageWriter_def NewLiveStorageWriter_def)
  then show ?thesis
    using LiveStorageWriter_Commit_needs_backend [OF storageWriter_inv, of 0]
      LiveStorageWriter_Commit_needs_backend [OF i, of 0] by simp
qed

theorem LiveStorageWriter_Commit_replay_witness:
  "\<exists>w' k'. LiveStorageWriter_Commit int_stg 0 storageWriter = Some (w', None) \<and> lswBuffer w' = [] \<and>
     lswStore w' = Some k' \<and> k' ''a'' = Some 5 \<and> k' ''b'' = None"
proof -
  have st: "lswStore storageWriter = Some (Map.empty(''b'' \<mapsto> 1))" and
    b: "lswBatch storageWriter = [(''a'', Some 5), (''b'', None)]"
    by (simp_all add: storageWriter_def NewLiveStorageWriter_def NewLiveStgIndexer_def storageGen_def lswBatch_def)
  have d: "deletesFirst (lswBatch storageWriter)" unfolding b by simp
  have "\<exists>w'. LiveStorageWriter_Commit int_stg 0 storageWriter = Some (w', None)"
    by (simp add: LiveStorageWriter_Commit_def st seq_stg_def joinErrors_def Let_def)
       (simp add: storageWriter_def NewLiveStorageWriter_def NewLiveStgIndexer_def storageGen_def
         LiveStgIndexer_Merge_def seqConcateDo_def seqMoveBothIf_def unzip_def)
  then obtain w' where w': "LiveStorageWriter_Commit int_stg 0 storageWriter = Some (w', None)" by blast
  have look: "lsLookup int_stg = (\<lambda>s. s)" by (simp add: seq_stg_def)
  show ?thesis
    using LiveStorageWriter_Commit_replay [OF storageWriter_inv st d w'] w' unfolding b look
    by (auto simp: replay_def)
qed

end
