(* ===== verification/Codec.thy ===== *)
theory Codec
  imports Paths
begin

text \<open>
  \<open>src/storage/codec\<close>: the Arcology codec (\<open>arcocodec/codec.go\<close>), which appends a type
  identifier to the value's own encoding, the Ethereum RLP codec (\<open>ethcodec/rlp\<close>) with one codec
  per value type, and the selector between the two (\<open>storage_codec.go\<close>).

  Values of any dynamic type are elements of \<open>'v\<close>; \<open>kindOf\<close> is the dynamic type a Go type switch
  sees. The methods of the CRDT types, the byte encoders of common-lib and go-ethereum's \<open>rlp\<close>
  are fields of records; \<open>rlp_law\<close>, \<open>num_law\<close> and \<open>value_law\<close> say what the codecs rely on.
\<close>

section \<open>Third-party operations\<close>

type_synonym bytes = "u8 list"

datatype vkind = CUint64 | CU256 | CInt64 | CPath | NInt64 | NUint64 | NUint32 | NBigint | NBytes
  | NString | OtherKind

text \<open>
  \<open>rlp.EncodeToBytes\<close> and \<open>rlp.DecodeBytes\<close> at the types used: big integers, slices of them, byte
  slices, lists of byte slices, slices of 256-bit integers. A decoding error is None; \<open>decAny\<close>
  stands for decoding into \<open>[]any\<close> whose elements are all byte slices.
\<close>

record rlp_api =
  encBig :: "int \<Rightarrow> bytes \<times> err"
  encBigs :: "int list \<Rightarrow> bytes \<times> err"
  encBytes :: "bytes \<Rightarrow> bytes \<times> err"
  encByteList :: "bytes list \<Rightarrow> bytes \<times> err"
  encU256s :: "256 word list \<Rightarrow> bytes \<times> err"
  decBig :: "bytes \<Rightarrow> int option"
  decBigs :: "bytes \<Rightarrow> int list option"
  decBytes :: "bytes \<Rightarrow> bytes option"
  decAny :: "bytes \<Rightarrow> bytes list option"

text \<open>Big-endian bytes: the value of a byte slice, and the slice without its leading zeros.\<close>

definition bytesVal :: "bytes \<Rightarrow> int" where
  "bytesVal bs = foldl (\<lambda>n b. 256 * n + uint b) 0 bs"

definition trimZeros :: "bytes \<Rightarrow> bytes" where
  "trimZeros bs = dropWhile (\<lambda>b. b = 0) bs"

definition rlp_law :: "rlp_api \<Rightarrow> bool" where
  "rlp_law R \<longleftrightarrow>
     (\<forall>n \<ge> 0. snd (encBig R n) = None \<and> decBig R (fst (encBig R n)) = Some n \<and>
        decBigs R (fst (encBig R n)) = None \<and> decAny R (fst (encBig R n)) = None) \<and>
     (\<forall>n < 0. snd (encBig R n) \<noteq> None) \<and>
     (\<forall>ns. (\<forall>n \<in> set ns. 0 \<le> n) \<longrightarrow>
        snd (encBigs R ns) = None \<and> decBigs R (fst (encBigs R ns)) = Some ns) \<and>
     (\<forall>b. snd (encBytes R b) = None \<and> decBytes R (fst (encBytes R b)) = Some b) \<and>
     (\<forall>b. 1 < length b \<and> length b \<le> 55 \<longrightarrow> length (fst (encBytes R b)) = Suc (length b)) \<and>
     (\<forall>bs. snd (encByteList R bs) = None \<and> decAny R (fst (encByteList R bs)) = Some bs) \<and>
     (\<forall>bs. 9 < sum_list (map length bs) \<longrightarrow> 9 < length (fst (encByteList R bs))) \<and>
     (\<forall>ws. snd (encU256s R ws) = None \<and>
        (\<exists>bs. decAny R (fst (encU256s R ws)) = Some bs \<and> map bytesVal bs = map uint ws)) \<and>
     (\<forall>b. decBytes R (fst (encBig R (bytesVal b))) = Some (trimZeros b))"

text \<open>The integer CRDTs with limits: \<open>commutative.Uint64\<close>, \<open>U256\<close> and \<open>Int64\<close>.\<close>

record ('v, 'n) num_api =
  numValue :: "'v \<Rightarrow> 'n"
  numHasLimits :: "'v \<Rightarrow> bool"
  numLimits :: "'v \<Rightarrow> 'n \<times> 'n"
  numUnbounded :: 'v
  numBounded :: "'n \<Rightarrow> 'n \<Rightarrow> 'v"
  numSetValue :: "'n \<Rightarrow> 'v \<Rightarrow> 'v"
  numSetLimits :: "'n \<Rightarrow> 'n \<Rightarrow> 'v \<Rightarrow> 'v"

definition num_law :: "('v, 'n) num_api \<Rightarrow> bool" where
  "num_law N \<longleftrightarrow>
     (\<forall>n x. numValue N (numSetValue N n x) = n \<and> numLimits N (numSetValue N n x) = numLimits N x) \<and>
     (\<forall>a b x. numLimits N (numSetLimits N a b x) = (a, b) \<and> numValue N (numSetLimits N a b x) = numValue N x) \<and>
     (\<forall>a b. numLimits N (numBounded N a b) = (a, b))"

record 'v codec_lib =
  kindOf :: "'v \<Rightarrow> vkind"
  rlpOf :: rlp_api
  cUint64 :: "('v, u64) num_api"
  cU256 :: "('v, 256 word) num_api"
  cInt64 :: "('v, 64 word) num_api"
  int64Bytes :: "64 word \<Rightarrow> bytes"
  int64Parse :: "bytes \<Rightarrow> 64 word"
  pathEncode :: "'v \<Rightarrow> bytes"
  pathDecode :: "bytes \<Rightarrow> 'v"
  nInt64Value :: "'v \<Rightarrow> 64 word"
  nInt64New :: "64 word \<Rightarrow> 'v"
  nBigintValue :: "'v \<Rightarrow> int"
  nBigintRLP :: "int \<Rightarrow> 'v"
  nBytesValue :: "'v \<Rightarrow> bytes"
  nBytesNew :: "bytes \<Rightarrow> 'v"
  encStruct :: "'v \<Rightarrow> bytes \<times> err"
  decStruct :: "vkind \<Rightarrow> bytes \<Rightarrow> 'v option"

text \<open>\<open>codec.Int64\<close> of common-lib is eight bytes long; the RLP of a plain value (strings and the
  structs of the fixed-width integers) decodes to the value.\<close>

definition codec_law :: "'v codec_lib \<Rightarrow> bool" where
  "codec_law C \<longleftrightarrow>
     rlp_law (rlpOf C) \<and> num_law (cUint64 C) \<and> num_law (cU256 C) \<and> num_law (cInt64 C) \<and>
     (\<forall>n. length (int64Bytes C n) = 8 \<and> int64Parse C (int64Bytes C n) = n) \<and>
     (\<forall>v. kindOf C v = CPath \<longrightarrow> pathDecode C (pathEncode C v) = v) \<and>
     (\<forall>n. nInt64Value C (nInt64New C n) = n) \<and> (\<forall>n. nBigintValue C (nBigintRLP C n) = n) \<and>
     (\<forall>b. nBytesValue C (nBytesNew C b) = b) \<and>
     (\<forall>v. kindOf C v \<in> {NString, NUint32, NUint64} \<longrightarrow>
        snd (encStruct C v) = None \<and> decStruct C (kindOf C v) (fst (encStruct C v)) = Some v)"

section \<open>RLP codecs of the commutative types (ethcodec/rlp/commutative)\<close>

text \<open>A decoder returns a value and an error; the value of a failed decoding is nil unless the
  code returns one. Indexing past the end of a decoded list panics.\<close>

definition Uint64RLP_Encode :: "'v codec_lib \<Rightarrow> 'v \<Rightarrow> bytes \<times> err" where
  "Uint64RLP_Encode C this =
     (if numHasLimits (cUint64 C) this
      then let (mn, mx) = numLimits (cUint64 C) this
           in encBigs (rlpOf C) [uint (numValue (cUint64 C) this), uint mn, uint mx]
      else encBig (rlpOf C) (uint (numValue (cUint64 C) this)))"

definition Uint64RLP_Decode :: "'v codec_lib \<Rightarrow> bytes \<Rightarrow> ('v option \<times> err) option" where
  "Uint64RLP_Decode C buffer =
     (case decBigs (rlpOf C) buffer of
        None \<Rightarrow>
          (case decBig (rlpOf C) buffer of
             None \<Rightarrow> Some (Some (numUnbounded (cUint64 C)), Some ''rlp'')
           | Some v \<Rightarrow> Some (Some (numSetValue (cUint64 C) (word_of_int v) (numUnbounded (cUint64 C))), None))
      | Some (v # mn # mx # _) \<Rightarrow>
          Some (Some (numSetValue (cUint64 C) (word_of_int v)
            (numBounded (cUint64 C) (word_of_int mn) (word_of_int mx))), None)
      | Some _ \<Rightarrow> None)"

definition U256RLP_Encode :: "'v codec_lib \<Rightarrow> 'v \<Rightarrow> bytes \<times> err" where
  "U256RLP_Encode C this =
     (if numHasLimits (cU256 C) this
      then let (mn, mx) = numLimits (cU256 C) this
           in encU256s (rlpOf C) [numValue (cU256 C) this, mn, mx]
      else encBig (rlpOf C) (uint (numValue (cU256 C) this)))"

definition U256RLP_Decode :: "'v codec_lib \<Rightarrow> bytes \<Rightarrow> ('v option \<times> err) option" where
  "U256RLP_Decode C buffer =
     (let N = cU256 C; this = numUnbounded N in
      case decAny (rlpOf C) buffer of
        None \<Rightarrow>
          (case decBig (rlpOf C) buffer of
             None \<Rightarrow> Some (Some this, Some ''rlp'')
           | Some v \<Rightarrow> Some (Some (numSetLimits N 0 (- 1) (numSetValue N (word_of_int v) this)), None))
      | Some (v # mn # mx # _) \<Rightarrow>
          Some (Some (numSetValue N (word_of_int (bytesVal v))
            (numSetLimits N (word_of_int (bytesVal mn)) (word_of_int (bytesVal mx)) this)), None)
      | Some _ \<Rightarrow> None)"

definition Int64RLP_Encode :: "'v codec_lib \<Rightarrow> 'v \<Rightarrow> bytes \<times> err" where
  "Int64RLP_Encode C i =
     (let v = int64Bytes C (numValue (cInt64 C) i) in
      if numHasLimits (cInt64 C) i
      then let (mn, mx) = numLimits (cInt64 C) i
           in encByteList (rlpOf C) [v, int64Bytes C mn, int64Bytes C mx]
      else encBytes (rlpOf C) v)"

definition Int64RLP_Decode :: "'v codec_lib \<Rightarrow> bytes \<Rightarrow> ('v option \<times> err) option" where
  "Int64RLP_Decode C buffer =
     (if length buffer = 9
      then case decBytes (rlpOf C) buffer of
             None \<Rightarrow> Some (None, Some ''rlp'')
           | Some b \<Rightarrow> Some (Some (numSetValue (cInt64 C) (int64Parse C b) (numUnbounded (cInt64 C))), None)
      else case decAny (rlpOf C) buffer of
             None \<Rightarrow> Some (None, Some ''rlp'')
           | Some (v # mn # mx # _) \<Rightarrow>
               Some (Some (numSetValue (cInt64 C) (int64Parse C v)
                 (numBounded (cInt64 C) (int64Parse C mn) (int64Parse C mx))), None)
           | Some _ \<Rightarrow> None)"

definition PathRLP_Encode :: "'v codec_lib \<Rightarrow> 'v \<Rightarrow> bytes \<times> err" where
  "PathRLP_Encode C this = encBytes (rlpOf C) (pathEncode C this)"

definition PathRLP_Decode :: "'v codec_lib \<Rightarrow> bytes \<Rightarrow> ('v option \<times> err) option" where
  "PathRLP_Decode C buffer =
     (case decBytes (rlpOf C) buffer of
        None \<Rightarrow> Some (None, Some ''rlp'')
      | Some b \<Rightarrow> Some (Some (pathDecode C b), None))"

section \<open>RLP codecs of the noncommutative types (ethcodec/rlp/noncommutative)\<close>

definition NInt64RLP_Encode :: "'v codec_lib \<Rightarrow> 'v \<Rightarrow> bytes \<times> err" where
  "NInt64RLP_Encode C this = encBig (rlpOf C) (sint (nInt64Value C this))"

text \<open>\<open>big.Int.Int64\<close> keeps the low 64 bits.\<close>

definition NInt64RLP_Decode :: "'v codec_lib \<Rightarrow> bytes \<Rightarrow> ('v option \<times> err) option" where
  "NInt64RLP_Decode C buffer =
     (case decBig (rlpOf C) buffer of
        None \<Rightarrow> Some (None, Some ''rlp'')
      | Some v \<Rightarrow> Some (Some (nInt64New C (word_of_int v)), None))"

definition BigintRLP_Encode :: "'v codec_lib \<Rightarrow> 'v \<Rightarrow> bytes \<times> err" where
  "BigintRLP_Encode C this = encBig (rlpOf C) (nBigintValue C this)"

text \<open>\<open>BigintRLP.Decode\<close> returns its receiver, the wrapper of the codec: \<open>nBigintRLP\<close> makes a \<open>*BigintRLP\<close>.\<close>

definition BigintRLP_Decode :: "'v codec_lib \<Rightarrow> bytes \<Rightarrow> ('v option \<times> err) option" where
  "BigintRLP_Decode C buffer =
     (case decBig (rlpOf C) buffer of
        None \<Rightarrow> Some (None, Some ''rlp'')
      | Some v \<Rightarrow> Some (Some (nBigintRLP C v), None))"

definition BytesRLP_Encode :: "'v codec_lib \<Rightarrow> 'v \<Rightarrow> bytes \<times> err" where
  "BytesRLP_Encode C this = encBig (rlpOf C) (bytesVal (nBytesValue C this))"

definition BytesRLP_Decode :: "'v codec_lib \<Rightarrow> bytes \<Rightarrow> ('v option \<times> err) option" where
  "BytesRLP_Decode C buffer =
     (case decBytes (rlpOf C) buffer of
        None \<Rightarrow> Some (None, Some ''rlp'')
      | Some b \<Rightarrow> Some (Some (nBytesNew C b), None))"

text \<open>Strings and the fixed-width integers are handed to \<open>rlp\<close> as they are; their decoders differ in the type only.\<close>

definition StringRLP_Encode :: "'v codec_lib \<Rightarrow> 'v \<Rightarrow> bytes \<times> err" where
  "StringRLP_Encode C this = encStruct C this"

definition Uint32RLP_Encode :: "'v codec_lib \<Rightarrow> 'v \<Rightarrow> bytes \<times> err" where
  "Uint32RLP_Encode C this = encStruct C this"

definition NUint64RLP_Encode :: "'v codec_lib \<Rightarrow> 'v \<Rightarrow> bytes \<times> err" where
  "NUint64RLP_Encode C this = encStruct C this"

definition StructRLP_Decode :: "'v codec_lib \<Rightarrow> vkind \<Rightarrow> bytes \<Rightarrow> ('v option \<times> err) option" where
  "StructRLP_Decode C k buffer =
     (case decStruct C k buffer of
        None \<Rightarrow> Some (None, Some ''rlp'')
      | Some v \<Rightarrow> Some (Some v, None))"

definition StringRLP_Decode :: "'v codec_lib \<Rightarrow> bytes \<Rightarrow> ('v option \<times> err) option" where
  "StringRLP_Decode C buffer = StructRLP_Decode C NString buffer"

definition Uint32RLP_Decode :: "'v codec_lib \<Rightarrow> bytes \<Rightarrow> ('v option \<times> err) option" where
  "Uint32RLP_Decode C buffer = StructRLP_Decode C NUint32 buffer"

definition NUint64RLP_Decode :: "'v codec_lib \<Rightarrow> bytes \<Rightarrow> ('v option \<times> err) option" where
  "NUint64RLP_Decode C buffer = StructRLP_Decode C NUint64 buffer"

section \<open>The type switches (rlp_codec.go)\<close>

definition RlpCodec_Encode :: "'v codec_lib \<Rightarrow> string \<Rightarrow> 'v option \<Rightarrow> (bytes \<times> err) option" where
  "RlpCodec_Encode C key v =
     (case v of
        None \<Rightarrow> Some ([], None)
      | Some x \<Rightarrow>
          (case kindOf C x of
             CUint64 \<Rightarrow> Some (Uint64RLP_Encode C x)
           | CU256 \<Rightarrow> Some (U256RLP_Encode C x)
           | CInt64 \<Rightarrow> Some (Int64RLP_Encode C x)
           | CPath \<Rightarrow> Some (PathRLP_Encode C x)
           | NInt64 \<Rightarrow> Some (NInt64RLP_Encode C x)
           | NUint64 \<Rightarrow> Some (NUint64RLP_Encode C x)
           | NUint32 \<Rightarrow> Some (Uint32RLP_Encode C x)
           | NBigint \<Rightarrow> Some (BigintRLP_Encode C x)
           | NBytes \<Rightarrow> Some (BytesRLP_Encode C x)
           | NString \<Rightarrow> Some (StringRLP_Encode C x)
           | OtherKind \<Rightarrow> None))"

text \<open>Without a type hint \<open>Decode\<close> returns the raw bytes.\<close>

definition RlpCodec_Decode ::
  "'v codec_lib \<Rightarrow> string \<Rightarrow> bytes \<Rightarrow> 'v option \<Rightarrow> ((bytes + 'v option) \<times> err) option" where
  "RlpCodec_Decode C key buffer T =
     (case T of
        None \<Rightarrow> Some (Inl buffer, None)
      | Some t \<Rightarrow> map_option (\<lambda>(v, e). (Inr v, e))
          (case kindOf C t of
             CUint64 \<Rightarrow> Uint64RLP_Decode C buffer
           | CU256 \<Rightarrow> U256RLP_Decode C buffer
           | CInt64 \<Rightarrow> Int64RLP_Decode C buffer
           | CPath \<Rightarrow> PathRLP_Decode C buffer
           | NInt64 \<Rightarrow> NInt64RLP_Decode C buffer
           | NUint64 \<Rightarrow> NUint64RLP_Decode C buffer
           | NUint32 \<Rightarrow> Uint32RLP_Decode C buffer
           | NBigint \<Rightarrow> BigintRLP_Decode C buffer
           | NBytes \<Rightarrow> BytesRLP_Decode C buffer
           | NString \<Rightarrow> StringRLP_Decode C buffer
           | OtherKind \<Rightarrow> None))"

section \<open>Arcology codec (arcocodec/codec.go)\<close>

text \<open>The value's own encoder, its type identifier, and the decoders of the eight types the codec
  knows with their identifiers.\<close>

record 'v arco_api =
  acEncode :: "'v \<Rightarrow> bytes"
  acTypeID :: "'v \<Rightarrow> u8"
  acIsCRDT :: "'v \<Rightarrow> bool"
  idString :: u8
  idBigint :: u8
  idBytesNC :: u8
  idPath :: u8
  idInt64C :: u8
  idUint64C :: u8
  idU256 :: u8
  idInt64NC :: u8
  acDecodeAs :: "u8 \<Rightarrow> bytes \<Rightarrow> 'v"

definition arcoIds :: "'v arco_api \<Rightarrow> u8 list" where
  "arcoIds B = [idString B, idBigint B, idBytesNC B, idPath B, idInt64C B, idUint64C B, idU256 B, idInt64NC B]"

definition arco_law :: "'v arco_api \<Rightarrow> bool" where
  "arco_law B \<longleftrightarrow> distinct (arcoIds B) \<and> (\<forall>v. acIsCRDT B v \<longrightarrow> acDecodeAs B (acTypeID B v) (acEncode B v) = v)"

definition arco_Encode :: "'v arco_api \<Rightarrow> string \<Rightarrow> 'v option \<Rightarrow> (bytes \<times> err) option" where
  "arco_Encode B key value =
     (case value of
        None \<Rightarrow> Some ([], None)
      | Some v \<Rightarrow> if acIsCRDT B v then Some (acEncode B v @ [acTypeID B v], None) else None)"

definition arco_Decode :: "'v arco_api \<Rightarrow> u8 \<Rightarrow> string \<Rightarrow> bytes \<Rightarrow> 'v option option" where
  "arco_Decode B ID key buffer =
     (if length buffer = 0 then Some None
      else let (ID, buffer) = (if length buffer = 0 \<or> ID = 0 then (last buffer, butlast buffer) else (ID, buffer)) in
           if ID = idString B then Some (Some (acDecodeAs B (idString B) buffer))
           else if ID = idBigint B then Some (Some (acDecodeAs B (idBigint B) buffer))
           else if ID = idBytesNC B then Some (Some (acDecodeAs B (idBytesNC B) buffer))
           else if ID = idPath B then Some (Some (acDecodeAs B (idPath B) buffer))
           else if ID = idInt64C B then Some (Some (acDecodeAs B (idInt64C B) buffer))
           else if ID = idUint64C B then Some (Some (acDecodeAs B (idUint64C B) buffer))
           else if ID = idU256 B then Some (Some (acDecodeAs B (idU256 B) buffer))
           else if ID = idInt64NC B then Some (Some (acDecodeAs B (idInt64NC B) buffer))
           else None)"

section \<open>Codec selection (storage_codec.go)\<close>

definition StorageCodec_Encode ::
  "'v codec_lib \<Rightarrow> 'v arco_api \<Rightarrow> string \<Rightarrow> 'v option \<Rightarrow> (bytes \<times> err) option" where
  "StorageCodec_Encode C B key v =
     (if ShouldPersistToEth key then RlpCodec_Encode C key v else arco_Encode B key v)"

definition StorageCodec_Decode ::
  "'v codec_lib \<Rightarrow> 'v arco_api \<Rightarrow> string \<Rightarrow> bytes \<Rightarrow> 'v option \<Rightarrow>
   ((bytes + 'v option) \<times> err) option" where
  "StorageCodec_Decode C B key buffer T =
     (if ShouldPersistToEth key then RlpCodec_Decode C key buffer T
      else map_option (\<lambda>v. (Inr v, None)) (arco_Decode B 0 key buffer))"

section \<open>Round trips\<close>

text \<open>What survives an RLP round trip of a value: numbers keep value and limits, byte strings and
  integers their content, paths and plain values everything.\<close>

definition sameNum :: "('v, 'n) num_api \<Rightarrow> 'v \<Rightarrow> 'v \<Rightarrow> bool" where
  "sameNum N x y \<longleftrightarrow> numValue N y = numValue N x \<and> (numHasLimits N x \<longrightarrow> numLimits N y = numLimits N x)"

definition agrees :: "'v codec_lib \<Rightarrow> 'v \<Rightarrow> 'v \<Rightarrow> bool" where
  "agrees C x y =
     (case kindOf C x of
        CUint64 \<Rightarrow> sameNum (cUint64 C) x y
      | CU256 \<Rightarrow> sameNum (cU256 C) x y
      | CInt64 \<Rightarrow> sameNum (cInt64 C) x y
      | NInt64 \<Rightarrow> nInt64Value C y = nInt64Value C x
      | NBigint \<Rightarrow> nBigintValue C y = nBigintValue C x
      | NBytes \<Rightarrow> nBytesValue C y = nBytesValue C x
      | _ \<Rightarrow> y = x)"

text \<open>The values the RLP codec represents: no leading zero bytes, no negative integers.\<close>

definition encodable :: "'v codec_lib \<Rightarrow> 'v \<Rightarrow> bool" where
  "encodable C x =
     (case kindOf C x of
        NInt64 \<Rightarrow> 0 \<le> sint (nInt64Value C x)
      | NBigint \<Rightarrow> 0 \<le> nBigintValue C x
      | NBytes \<Rightarrow> trimZeros (nBytesValue C x) = nBytesValue C x
      | OtherKind \<Rightarrow> False
      | _ \<Rightarrow> True)"

lemma codec_laws:
  assumes "codec_law C"
  shows "rlp_law (rlpOf C)" "num_law (cUint64 C)" "num_law (cU256 C)" "num_law (cInt64 C)"
    "length (int64Bytes C n) = 8" "int64Parse C (int64Bytes C n) = n"
  using assms by (auto simp: codec_law_def)

lemma rlp_big:
  assumes "rlp_law R" "0 \<le> n"
  obtains b where "encBig R n = (b, None)" "decBig R b = Some n" "decBigs R b = None" "decAny R b = None"
  using assms unfolding rlp_law_def by (metis prod.collapse)

lemma bytesVal_nonneg: "0 \<le> bytesVal bs"
proof -
  have "0 \<le> n \<Longrightarrow> 0 \<le> foldl (\<lambda>n b. 256 * n + uint b) n bs" for n
    by (induction bs arbitrary: n) auto
  then show ?thesis by (simp add: bytesVal_def)
qed

lemma Uint64RLP_roundtrip:
  assumes "codec_law C"
  shows "\<exists>b y. Uint64RLP_Encode C x = (b, None) \<and> Uint64RLP_Decode C b = Some (Some y, None) \<and> sameNum (cUint64 C) x y"
proof (cases "numHasLimits (cUint64 C) x")
  case True
  obtain mn mx where l: "numLimits (cUint64 C) x = (mn, mx)" by fastforce
  let ?ns = "[uint (numValue (cUint64 C) x), uint mn, uint mx]"
  have "snd (encBigs (rlpOf C) ?ns) = None" "decBigs (rlpOf C) (fst (encBigs (rlpOf C) ?ns)) = Some ?ns"
    using codec_laws(1) [OF assms] unfolding rlp_law_def by auto
  then obtain b where "encBigs (rlpOf C) ?ns = (b, None)" "decBigs (rlpOf C) b = Some ?ns" by (metis prod.collapse)
  then show ?thesis using True l codec_laws(2) [OF assms]
    by (auto simp: Uint64RLP_Encode_def Uint64RLP_Decode_def sameNum_def num_law_def)
next
  case False
  obtain b where "encBig (rlpOf C) (uint (numValue (cUint64 C) x)) = (b, None)"
    "decBig (rlpOf C) b = Some (uint (numValue (cUint64 C) x))" "decBigs (rlpOf C) b = None"
    using rlp_big [OF codec_laws(1) [OF assms], of "uint (numValue (cUint64 C) x)"] by auto
  then show ?thesis using False codec_laws(2) [OF assms]
    by (auto simp: Uint64RLP_Encode_def Uint64RLP_Decode_def sameNum_def num_law_def)
qed

lemma U256RLP_roundtrip:
  assumes "codec_law C"
  shows "\<exists>b y. U256RLP_Encode C x = (b, None) \<and> U256RLP_Decode C b = Some (Some y, None) \<and> sameNum (cU256 C) x y"
proof (cases "numHasLimits (cU256 C) x")
  case True
  obtain mn mx where l: "numLimits (cU256 C) x = (mn, mx)" by fastforce
  let ?ws = "[numValue (cU256 C) x, mn, mx]"
  have "snd (encU256s (rlpOf C) ?ws) = None"
    "\<exists>bs. decAny (rlpOf C) (fst (encU256s (rlpOf C) ?ws)) = Some bs \<and> map bytesVal bs = map uint ?ws"
    using codec_laws(1) [OF assms] unfolding rlp_law_def by blast+
  then obtain b bs where b: "encU256s (rlpOf C) ?ws = (b, None)" "decAny (rlpOf C) b = Some bs"
    "map bytesVal bs = map uint ?ws" by (metis prod.collapse)
  then obtain p q r where "bs = [p, q, r]" "bytesVal p = uint (numValue (cU256 C) x)"
    "bytesVal q = uint mn" "bytesVal r = uint mx"
    by (auto simp: map_eq_Cons_conv)
  then show ?thesis using True l b codec_laws(3) [OF assms]
    by (auto simp: U256RLP_Encode_def U256RLP_Decode_def sameNum_def num_law_def Let_def)
next
  case False
  obtain b where "encBig (rlpOf C) (uint (numValue (cU256 C) x)) = (b, None)"
    "decBig (rlpOf C) b = Some (uint (numValue (cU256 C) x))" "decAny (rlpOf C) b = None"
    using rlp_big [OF codec_laws(1) [OF assms], of "uint (numValue (cU256 C) x)"] by auto
  then show ?thesis using False codec_laws(3) [OF assms]
    by (auto simp: U256RLP_Encode_def U256RLP_Decode_def sameNum_def num_law_def Let_def)
qed

text \<open>The decoder tells the two layouts of \<open>Int64\<close> apart by their length.\<close>

lemma Int64RLP_roundtrip:
  assumes "codec_law C"
  shows "\<exists>b y. Int64RLP_Encode C x = (b, None) \<and> Int64RLP_Decode C b = Some (Some y, None) \<and> sameNum (cInt64 C) x y"
proof (cases "numHasLimits (cInt64 C) x")
  case True
  obtain mn mx where l: "numLimits (cInt64 C) x = (mn, mx)" by fastforce
  let ?bs = "[int64Bytes C (numValue (cInt64 C) x), int64Bytes C mn, int64Bytes C mx]"
  have "9 < sum_list (map length ?bs)" by (simp add: codec_laws(5) [OF assms])
  then have "snd (encByteList (rlpOf C) ?bs) = None" "decAny (rlpOf C) (fst (encByteList (rlpOf C) ?bs)) = Some ?bs"
    "9 < length (fst (encByteList (rlpOf C) ?bs))"
    using codec_laws(1) [OF assms] unfolding rlp_law_def by blast+
  then obtain b where "encByteList (rlpOf C) ?bs = (b, None)" "decAny (rlpOf C) b = Some ?bs" "9 < length b"
    by (metis prod.collapse)
  then show ?thesis using True l codec_laws(4,6) [OF assms]
    by (auto simp: Int64RLP_Encode_def Int64RLP_Decode_def sameNum_def num_law_def Let_def)
next
  case False
  let ?v = "int64Bytes C (numValue (cInt64 C) x)"
  have "length ?v = 8" by (simp add: codec_laws(5) [OF assms])
  then have "length (fst (encBytes (rlpOf C) ?v)) = 9" "snd (encBytes (rlpOf C) ?v) = None"
    "decBytes (rlpOf C) (fst (encBytes (rlpOf C) ?v)) = Some ?v"
    using codec_laws(1) [OF assms] unfolding rlp_law_def by simp_all
  then obtain b where "encBytes (rlpOf C) ?v = (b, None)" "length b = 9" "decBytes (rlpOf C) b = Some ?v"
    by (metis prod.collapse)
  then show ?thesis using False codec_laws(4,6) [OF assms]
    by (auto simp: Int64RLP_Encode_def Int64RLP_Decode_def sameNum_def num_law_def Let_def)
qed

lemma PathRLP_roundtrip:
  assumes "codec_law C" "kindOf C x = CPath"
  shows "\<exists>b. PathRLP_Encode C x = (b, None) \<and> PathRLP_Decode C b = Some (Some x, None)"
proof -
  have "snd (encBytes (rlpOf C) (pathEncode C x)) = None"
    "decBytes (rlpOf C) (fst (encBytes (rlpOf C) (pathEncode C x))) = Some (pathEncode C x)"
    using codec_laws(1) [OF assms(1)] unfolding rlp_law_def by blast+
  then obtain b where "encBytes (rlpOf C) (pathEncode C x) = (b, None)" "decBytes (rlpOf C) b = Some (pathEncode C x)"
    by (metis prod.collapse)
  moreover have "pathDecode C (pathEncode C x) = x" using assms by (simp add: codec_law_def)
  ultimately show ?thesis by (simp add: PathRLP_Encode_def PathRLP_Decode_def)
qed

lemma StructRLP_roundtrip:
  assumes "codec_law C" "kindOf C x \<in> {NString, NUint32, NUint64}"
  shows "\<exists>b. encStruct C x = (b, None) \<and> StructRLP_Decode C (kindOf C x) b = Some (Some x, None)"
proof -
  have "snd (encStruct C x) = None" "decStruct C (kindOf C x) (fst (encStruct C x)) = Some x"
    using assms unfolding codec_law_def by blast+
  then show ?thesis unfolding StructRLP_Decode_def by (intro exI [of _ "fst (encStruct C x)"]) (auto simp: prod_eq_iff)
qed

lemma BytesRLP_roundtrip_trimmed:
  assumes "codec_law C"
  shows "\<exists>b y. BytesRLP_Encode C x = (b, None) \<and> BytesRLP_Decode C b = Some (Some y, None) \<and>
    nBytesValue C y = trimZeros (nBytesValue C x)"
proof -
  let ?n = "bytesVal (nBytesValue C x)"
  obtain b where b: "encBig (rlpOf C) ?n = (b, None)"
    using rlp_big [OF codec_laws(1) [OF assms] bytesVal_nonneg] by blast
  moreover have "decBytes (rlpOf C) (fst (encBig (rlpOf C) ?n)) = Some (trimZeros (nBytesValue C x))"
    using codec_laws(1) [OF assms] unfolding rlp_law_def by blast
  moreover have "nBytesValue C (nBytesNew C c) = c" for c using assms by (simp add: codec_law_def)
  ultimately show ?thesis by (auto simp: BytesRLP_Encode_def BytesRLP_Decode_def)
qed

lemma integer_roundtrips:
  assumes "codec_law C"
  shows "0 \<le> nBigintValue C x \<Longrightarrow>
      \<exists>b y. BigintRLP_Encode C x = (b, None) \<and> BigintRLP_Decode C b = Some (Some y, None) \<and> nBigintValue C y = nBigintValue C x"
    and "0 \<le> sint (nInt64Value C x) \<Longrightarrow>
      \<exists>b y. NInt64RLP_Encode C x = (b, None) \<and> NInt64RLP_Decode C b = Some (Some y, None) \<and> nInt64Value C y = nInt64Value C x"
proof -
  have new: "nInt64Value C (nInt64New C n) = n" "nBigintValue C (nBigintRLP C m) = m" for n m
    using assms by (simp_all add: codec_law_def)
  show "\<exists>b y. BigintRLP_Encode C x = (b, None) \<and> BigintRLP_Decode C b = Some (Some y, None) \<and> nBigintValue C y = nBigintValue C x"
    if nonneg: "0 \<le> nBigintValue C x"
  proof -
    obtain b where "encBig (rlpOf C) (nBigintValue C x) = (b, None)" "decBig (rlpOf C) b = Some (nBigintValue C x)"
      using rlp_big [OF codec_laws(1) [OF assms] nonneg] by blast
    then show ?thesis by (auto simp: BigintRLP_Encode_def BigintRLP_Decode_def new)
  qed
  show "\<exists>b y. NInt64RLP_Encode C x = (b, None) \<and> NInt64RLP_Decode C b = Some (Some y, None) \<and> nInt64Value C y = nInt64Value C x"
    if nonneg: "0 \<le> sint (nInt64Value C x)"
  proof -
    obtain b where "encBig (rlpOf C) (sint (nInt64Value C x)) = (b, None)" "decBig (rlpOf C) b = Some (sint (nInt64Value C x))"
      using rlp_big [OF codec_laws(1) [OF assms] nonneg] by blast
    then show ?thesis by (auto simp: NInt64RLP_Encode_def NInt64RLP_Decode_def new)
  qed
qed

section \<open>Properties\<close>

text \<open>
  C28. The RLP codec round trips: a supported value without leading zero bytes or negative
  integers encodes without error, and decoding with a hint of the same type gives a value that
  agrees with it, limits included. (A big integer comes back with the same number, wrapped.)
\<close>
theorem RlpCodec_roundtrip:
  assumes "codec_law C" "encodable C x" "kindOf C t = kindOf C x"
  shows "\<exists>b y. RlpCodec_Encode C key (Some x) = Some (b, None) \<and>
    RlpCodec_Decode C key b (Some t) = Some (Inr (Some y), None) \<and> agrees C x y"
proof (cases "kindOf C x")
  case CUint64
  then show ?thesis using Uint64RLP_roundtrip [OF assms(1), of x] assms(3)
    by (auto simp: RlpCodec_Encode_def RlpCodec_Decode_def agrees_def)
next
  case CU256
  then show ?thesis using U256RLP_roundtrip [OF assms(1), of x] assms(3)
    by (auto simp: RlpCodec_Encode_def RlpCodec_Decode_def agrees_def)
next
  case CInt64
  then show ?thesis using Int64RLP_roundtrip [OF assms(1), of x] assms(3)
    by (auto simp: RlpCodec_Encode_def RlpCodec_Decode_def agrees_def)
next
  case CPath
  then show ?thesis using PathRLP_roundtrip [OF assms(1), of x] assms(3)
    by (auto simp: RlpCodec_Encode_def RlpCodec_Decode_def agrees_def)
next
  case NInt64
  then show ?thesis using integer_roundtrips(2) [OF assms(1), of x] assms(2,3)
    by (auto simp: RlpCodec_Encode_def RlpCodec_Decode_def agrees_def encodable_def)
next
  case NBigint
  then show ?thesis using integer_roundtrips(1) [OF assms(1), of x] assms(2,3)
    by (auto simp: RlpCodec_Encode_def RlpCodec_Decode_def agrees_def encodable_def)
next
  case NBytes
  then show ?thesis using BytesRLP_roundtrip_trimmed [OF assms(1), of x] assms(2,3)
    by (auto simp: RlpCodec_Encode_def RlpCodec_Decode_def agrees_def encodable_def)
next
  case OtherKind
  then show ?thesis using assms(2) by (simp add: encodable_def)
qed (use StructRLP_roundtrip [OF assms(1), of x] assms(3) in
    \<open>auto simp: RlpCodec_Encode_def RlpCodec_Decode_def agrees_def StringRLP_Encode_def
      Uint32RLP_Encode_def NUint64RLP_Encode_def StringRLP_Decode_def Uint32RLP_Decode_def NUint64RLP_Decode_def\<close>)

text \<open>
  Every byte string encodes without error, but decoding gives it back without its leading zero
  bytes: the RLP codec loses them, because it encodes the bytes as an integer.
\<close>
theorem RlpCodec_bytes_lose_leading_zeros:
  assumes "codec_law C" "kindOf C x = NBytes" "kindOf C t = NBytes"
  shows "\<exists>b y. RlpCodec_Encode C key (Some x) = Some (b, None) \<and>
    RlpCodec_Decode C key b (Some t) = Some (Inr (Some y), None) \<and>
    nBytesValue C y = trimZeros (nBytesValue C x)"
  using BytesRLP_roundtrip_trimmed [OF assms(1), of x] assms(2,3)
  by (auto simp: RlpCodec_Encode_def RlpCodec_Decode_def)

text \<open>The Go types of what the constructors and setters of the CRDT types return. The wrapper \<open>BigintRLP\<close> is a
  type of its own, which no type switch of the codec lists.\<close>

definition num_kind :: "'v codec_lib \<Rightarrow> ('v, 'n) num_api \<Rightarrow> vkind \<Rightarrow> bool" where
  "num_kind C N k \<longleftrightarrow> kindOf C (numUnbounded N) = k \<and> (\<forall>a b. kindOf C (numBounded N a b) = k) \<and>
     (\<forall>n x. kindOf C (numSetValue N n x) = kindOf C x) \<and> (\<forall>a b x. kindOf C (numSetLimits N a b x) = kindOf C x)"

definition kind_law :: "'v codec_lib \<Rightarrow> bool" where
  "kind_law C \<longleftrightarrow> num_kind C (cUint64 C) CUint64 \<and> num_kind C (cU256 C) CU256 \<and> num_kind C (cInt64 C) CInt64 \<and>
     (\<forall>b. kindOf C (pathDecode C b) = CPath) \<and> (\<forall>n. kindOf C (nInt64New C n) = NInt64) \<and>
     (\<forall>b. kindOf C (nBytesNew C b) = NBytes) \<and> (\<forall>k b v. decStruct C k b = Some v \<longrightarrow> kindOf C v = k) \<and>
     (\<forall>n. kindOf C (nBigintRLP C n) = OtherKind)"

text \<open>
  C8. Decoding keeps types, but for big integers: whatever the bytes are, a value that the RLP codec decodes with a type
  hint has the type of the hint. The exception is a hint of type \<open>Bigint\<close>, for which the wrapper \<open>BigintRLP\<close> comes back.
  So exactly the decoded big integers cannot be encoded again: the type switch of \<open>Encode\<close> does not know their type and panics.
\<close>
theorem RlpCodec_Decode_type:
  assumes "kind_law C" "RlpCodec_Decode C key buffer (Some t) = Some (Inr (Some v), e)"
  shows "kindOf C v = (if kindOf C t = NBigint then OtherKind else kindOf C t) \<and>
    (RlpCodec_Encode C key' (Some v) = None \<longleftrightarrow> kindOf C t = NBigint)"
proof -
  note decs = RlpCodec_Decode_def Uint64RLP_Decode_def U256RLP_Decode_def Int64RLP_Decode_def PathRLP_Decode_def NInt64RLP_Decode_def
    BigintRLP_Decode_def BytesRLP_Decode_def StructRLP_Decode_def StringRLP_Decode_def Uint32RLP_Decode_def NUint64RLP_Decode_def Let_def
  have kinds: "num_kind C (cUint64 C) CUint64" "num_kind C (cU256 C) CU256" "num_kind C (cInt64 C) CInt64"
    and plain: "\<And>b. kindOf C (pathDecode C b) = CPath" "\<And>n. kindOf C (nInt64New C n) = NInt64" "\<And>b. kindOf C (nBytesNew C b) = NBytes"
      "\<And>k b v. decStruct C k b = Some v \<Longrightarrow> kindOf C v = k" "\<And>n. kindOf C (nBigintRLP C n) = OtherKind"
    using assms(1) by (simp_all add: kind_law_def)
  have known: "kindOf C t \<noteq> OtherKind" using assms(2) by (auto simp: RlpCodec_Decode_def)
  have k: "kindOf C v = (if kindOf C t = NBigint then OtherKind else kindOf C t)"
    using assms(2) kinds plain by (cases "kindOf C t") (auto simp: decs num_kind_def split: option.splits list.splits if_splits)
  moreover have "RlpCodec_Encode C key' (Some v) = None \<longleftrightarrow> kindOf C v = OtherKind"
    by (simp add: RlpCodec_Encode_def split: vkind.split)
  ultimately show ?thesis using known by simp
qed

lemma arco_Decode_snoc:
  "arco_Decode B 0 key (e @ [t]) = (if t \<in> set (arcoIds B) then Some (Some (acDecodeAs B t e)) else None)"
proof (cases "t \<in> set (arcoIds B)")
  case True
  then consider "t = idString B" | "t = idBigint B" | "t = idBytesNC B" | "t = idPath B" | "t = idInt64C B"
    | "t = idUint64C B" | "t = idU256 B" | "t = idInt64NC B"
    by (auto simp: arcoIds_def)
  then show ?thesis using True by cases (simp_all add: arco_Decode_def)
next
  case False
  then show ?thesis by (simp add: arco_Decode_def) (simp add: arcoIds_def)
qed

text \<open>
  C29. The Arcology codec round trips for the eight types it knows and panics on decoding what it
  has itself encoded for a value of any other type: encoding a CRDT never fails, and the result
  decodes to the value if its type identifier is one of the eight, and not at all otherwise.
\<close>
theorem arco_roundtrip:
  assumes "arco_law B" "acIsCRDT B v"
  shows "\<exists>b. arco_Encode B key (Some v) = Some (b, None) \<and>
    arco_Decode B 0 key b = (if acTypeID B v \<in> set (arcoIds B) then Some (Some v) else None)"
proof -
  have dec: "acDecodeAs B (acTypeID B v) (acEncode B v) = v"
    using assms by (auto simp: arco_law_def)
  then show ?thesis using assms(2) by (simp add: arco_Encode_def arco_Decode_snoc)
qed

section \<open>A concrete library\<close>

text \<open>A small self-delimiting encoding that satisfies the laws: a byte string behind the tag 0, a
  list of byte strings behind the tag 1 with its bytes escaped.\<close>

function beBytes :: "nat \<Rightarrow> bytes" where
  "beBytes n = (if n = 0 then [] else beBytes (n div 256) @ [word_of_nat (n mod 256)])"
  by auto
termination by (relation "measure id") auto

declare beBytes.simps [simp del]

lemma bytesVal_snoc: "bytesVal (bs @ [b]) = 256 * bytesVal bs + uint b"
  by (simp add: bytesVal_def)

lemma bytesVal_beBytes: "bytesVal (beBytes n) = int n"
proof (induction n rule: beBytes.induct)
  case (1 n)
  show ?case
  proof (cases "n = 0")
    case True
    then show ?thesis by (simp add: beBytes.simps bytesVal_def)
  next
    case False
    have "uint (word_of_nat (n mod 256) :: u8) = int (n mod 256)"
      by (simp add: unsigned_of_nat take_bit_eq_mod)
    then show ?thesis using False 1 by (simp add: beBytes.simps [of n] bytesVal_snoc)
       (simp add: zdiv_int zmod_int)
  qed
qed

lemma trimZeros_beBytes: "trimZeros b = beBytes (nat (bytesVal b))"
proof (induction b rule: rev_induct)
  case Nil
  then show ?case by (simp add: trimZeros_def bytesVal_def beBytes.simps)
next
  case (snoc x xs)
  have n: "nat (bytesVal (xs @ [x])) = 256 * nat (bytesVal xs) + unat x"
    using bytesVal_nonneg [of xs] by (simp add: bytesVal_snoc nat_add_distrib nat_mult_distrib)
  have x: "unat x < 256" using unsigned_less [of x] by simp
  have "beBytes (256 * m + unat x) = (if m = 0 \<and> x = 0 then [] else beBytes m @ [x])" for m
    using x by (subst beBytes.simps) (auto simp: unat_eq_zero beBytes.simps [of 0])
  then have "beBytes (nat (bytesVal (xs @ [x]))) =
      (if nat (bytesVal xs) = 0 \<and> x = 0 then [] else beBytes (nat (bytesVal xs)) @ [x])" by (simp add: n)
  moreover have "nat (bytesVal xs) = 0 \<longleftrightarrow> trimZeros xs = []"
    using snoc by (metis append_is_Nil_conv beBytes.simps list.distinct(1))
  ultimately show ?case using snoc by (auto simp: trimZeros_def dropWhile_append beBytes.simps [of 0])
qed

definition escItem :: "bytes \<Rightarrow> bytes" where
  "escItem b = concat (map (\<lambda>x. [1, x]) b) @ [0]"

fun unesc :: "bytes \<Rightarrow> bytes \<Rightarrow> bytes list" where
  "unesc (x # y # r) acc = (if x = 1 then unesc r (acc @ [y]) else acc # unesc (y # r) [])"
| "unesc [x] acc = [acc]"
| "unesc [] acc = []"

lemma unesc_item: "unesc (escItem b @ r) acc = (acc @ b) # unesc r []"
  by (induction b arbitrary: acc) (cases r, auto simp: escItem_def)

lemma unesc_items: "unesc (concat (map escItem bs)) [] = bs"
  by (induction bs) (simp_all add: unesc_item)

lemma length_escItem: "length (escItem b) = 2 * length b + 1"
  by (induction b) (simp_all add: escItem_def)

definition tagged_rlp :: rlp_api where
  "tagged_rlp = \<lparr>
     encBig = (\<lambda>n. if n < 0 then ([], Some ''negative'') else (0 # beBytes (nat n), None)),
     encBigs = (\<lambda>ns. (1 # concat (map (\<lambda>n. escItem (beBytes (nat n))) ns), None)),
     encBytes = (\<lambda>b. (0 # b, None)),
     encByteList = (\<lambda>bs. (1 # concat (map escItem bs), None)),
     encU256s = (\<lambda>ws. (1 # concat (map (\<lambda>w. escItem (beBytes (unat w))) ws), None)),
     decBig = (\<lambda>b. case b of x # r \<Rightarrow> if x = 0 then Some (bytesVal r) else None | [] \<Rightarrow> None),
     decBigs = (\<lambda>b. case b of x # r \<Rightarrow> if x = 1 then Some (map bytesVal (unesc r [])) else None | [] \<Rightarrow> None),
     decBytes = (\<lambda>b. case b of x # r \<Rightarrow> if x = 0 then Some r else None | [] \<Rightarrow> None),
     decAny = (\<lambda>b. case b of x # r \<Rightarrow> if x = 1 then Some (unesc r []) else None | [] \<Rightarrow> None)\<rparr>"

lemma unesc_map: "unesc (concat (map (\<lambda>x. escItem (f x)) xs)) [] = map f xs"
  using unesc_items [of "map f xs"] by (simp add: comp_def)

lemma sum_escItem: "sum_list (map length bs) \<le> length (concat (map escItem bs))"
  by (induction bs) (simp_all add: length_escItem)

lemma tagged_rlp_law: "rlp_law tagged_rlp"
proof -
  have u: "int (unat w) = uint w" for w :: "256 word" by simp
  have s: "9 < Suc (length (concat (map escItem bs)))" if "9 < sum_list (map length bs)" for bs
    using that sum_escItem [of bs] by linarith
  have map_nat: "map (\<lambda>x. if 0 \<le> x then x else 0) ns = ns" if "Ball (set ns) ((\<le>) 0)" for ns :: "int list"
    using that by (induction ns) simp_all
  show ?thesis
    unfolding rlp_law_def tagged_rlp_def
    using s by (simp add: bytesVal_beBytes unesc_map unesc_items trimZeros_beBytes bytesVal_nonneg
        map_nat not_less comp_def)
qed

text \<open>A value that can be of any of the supported numeric kinds and bytes.\<close>

record wval =
  wkind :: vkind
  wnum :: u64
  wlim :: "(u64 \<times> u64) option"
  wbig :: "256 word \<times> (256 word \<times> 256 word)"
  wint :: int
  wbytes :: bytes

definition blank :: wval where
  "blank = \<lparr>wkind = CUint64, wnum = 0, wlim = None, wbig = (0, 0, 0), wint = 0, wbytes = []\<rparr>"

definition w64_api :: "(wval, u64) num_api" where
  "w64_api = \<lparr>numValue = wnum, numHasLimits = (\<lambda>x. wlim x \<noteq> None),
     numLimits = (\<lambda>x. case wlim x of None \<Rightarrow> (0, - 1) | Some l \<Rightarrow> l), numUnbounded = blank,
     numBounded = (\<lambda>a b. blank\<lparr>wlim := Some (a, b)\<rparr>), numSetValue = (\<lambda>n x. x\<lparr>wnum := n\<rparr>),
     numSetLimits = (\<lambda>a b x. x\<lparr>wlim := Some (a, b)\<rparr>)\<rparr>"

definition w256_api :: "(wval, 256 word) num_api" where
  "w256_api = \<lparr>numValue = (\<lambda>x. fst (wbig x)), numHasLimits = (\<lambda>_. True), numLimits = (\<lambda>x. snd (wbig x)),
     numUnbounded = blank, numBounded = (\<lambda>a b. blank\<lparr>wbig := (0, a, b)\<rparr>),
     numSetValue = (\<lambda>n x. x\<lparr>wbig := (n, snd (wbig x))\<rparr>),
     numSetLimits = (\<lambda>a b x. x\<lparr>wbig := (fst (wbig x), a, b)\<rparr>)\<rparr>"

definition wKind :: "wval \<Rightarrow> vkind" where
  "wKind v = (if wkind v \<in> {CUint64, CU256, CInt64, NInt64, NBigint, NBytes} then wkind v else OtherKind)"

definition pad8 :: "bytes \<Rightarrow> bytes" where
  "pad8 bs = replicate (8 - length bs) 0 @ bs"

definition tagged_codec :: "wval codec_lib" where
  "tagged_codec = \<lparr>kindOf = wKind, rlpOf = tagged_rlp, cUint64 = w64_api, cU256 = w256_api, cInt64 = w64_api,
     int64Bytes = (\<lambda>n. pad8 (beBytes (unat n))), int64Parse = (\<lambda>b. word_of_int (bytesVal b)),
     pathEncode = wbytes, pathDecode = (\<lambda>b. blank), nInt64Value = wnum, nInt64New = (\<lambda>n. blank\<lparr>wnum := n\<rparr>),
     nBigintValue = wint, nBigintRLP = (\<lambda>n. blank\<lparr>wint := n\<rparr>), nBytesValue = wbytes,
     nBytesNew = (\<lambda>b. blank\<lparr>wbytes := b\<rparr>), encStruct = (\<lambda>v. ([], None)), decStruct = (\<lambda>_ _. None)\<rparr>"

lemma length_beBytes: "n < 256 ^ k \<Longrightarrow> length (beBytes n) \<le> k"
proof (induction k arbitrary: n)
  case 0
  then show ?case by (simp add: beBytes.simps [of 0])
next
  case (Suc k)
  have "n div 256 < 256 ^ k" using Suc.prems by (simp add: less_mult_imp_div_less mult.commute)
  then show ?case using Suc.IH [of "n div 256"] by (subst beBytes.simps) simp
qed

lemma bytesVal_pad: "bytesVal (replicate k 0 @ bs) = bytesVal bs"
proof -
  have "foldl (\<lambda>n b. 256 * n + uint b) 0 (replicate k (0 :: u8)) = 0" by (induction k) simp_all
  then show ?thesis by (simp add: bytesVal_def)
qed

lemma tagged_codec_law: "codec_law tagged_codec"
proof -
  have "length (beBytes (unat n)) \<le> 8" for n :: "64 word"
    using length_beBytes [of "unat n" 8] unsigned_less [of n] by simp
  then have l: "length (pad8 (beBytes (unat n))) = 8" for n :: "64 word" by (simp add: pad8_def)
  have p: "word_of_int (bytesVal (pad8 (beBytes (unat n)))) = n" for n :: "64 word"
    by (simp add: pad8_def bytesVal_pad bytesVal_beBytes)
  have "num_law w64_api" "num_law w256_api" by (auto simp: num_law_def w64_api_def w256_api_def)
  then show ?thesis using l p tagged_rlp_law
    by (auto simp: codec_law_def tagged_codec_def wKind_def)
qed

text \<open>The same library with values that know their types.\<close>

definition kinded_codec :: "wval codec_lib" where
  "kinded_codec = tagged_codec\<lparr>kindOf := wkind,
     cU256 := w256_api\<lparr>numUnbounded := blank\<lparr>wkind := CU256\<rparr>, numBounded := (\<lambda>a b. blank\<lparr>wkind := CU256, wbig := (0, a, b)\<rparr>)\<rparr>,
     cInt64 := w64_api\<lparr>numUnbounded := blank\<lparr>wkind := CInt64\<rparr>, numBounded := (\<lambda>a b. blank\<lparr>wkind := CInt64, wlim := Some (a, b)\<rparr>)\<rparr>,
     pathDecode := (\<lambda>b. blank\<lparr>wkind := CPath\<rparr>), nInt64New := (\<lambda>n. blank\<lparr>wkind := NInt64, wnum := n\<rparr>),
     nBigintRLP := (\<lambda>n. blank\<lparr>wkind := OtherKind, wint := n\<rparr>), nBytesNew := (\<lambda>b. blank\<lparr>wkind := NBytes, wbytes := b\<rparr>)\<rparr>"

lemma kinded_codec_law: "kind_law kinded_codec"
  by (simp add: kind_law_def num_kind_def kinded_codec_def tagged_codec_def w64_api_def w256_api_def blank_def)

theorem RlpCodec_Decode_type_witness:
  "\<exists>b v. RlpCodec_Encode kinded_codec [] (Some (blank\<lparr>wkind := NBigint, wint := 5\<rparr>)) = Some (b, None) \<and>
     RlpCodec_Decode kinded_codec [] b (Some (blank\<lparr>wkind := NBigint\<rparr>)) = Some (Inr (Some v), None) \<and> wint v = 5 \<and>
     RlpCodec_Encode kinded_codec [] (Some v) = None"
proof -
  obtain b where b: "encBig tagged_rlp 5 = (b, None)" "decBig tagged_rlp b = Some 5"
    using rlp_big [OF tagged_rlp_law, of 5] by auto
  have enc: "RlpCodec_Encode kinded_codec [] (Some (blank\<lparr>wkind := NBigint, wint := 5\<rparr>)) = Some (b, None)"
    using b by (simp add: RlpCodec_Encode_def BigintRLP_Encode_def kinded_codec_def tagged_codec_def)
  have dec: "RlpCodec_Decode kinded_codec [] b (Some (blank\<lparr>wkind := NBigint\<rparr>)) =
      Some (Inr (Some (blank\<lparr>wkind := OtherKind, wint := 5\<rparr>)), None)"
    using b by (simp add: RlpCodec_Decode_def BigintRLP_Decode_def kinded_codec_def tagged_codec_def)
  show ?thesis using RlpCodec_Decode_type [OF kinded_codec_law dec, of "[]"] enc dec
    by (intro exI [of _ b] exI [of _ "blank\<lparr>wkind := OtherKind, wint := 5\<rparr>"]) (simp add: kinded_codec_def)
qed

theorem RlpCodec_roundtrip_witness:
  "\<exists>b y. RlpCodec_Encode tagged_codec [] (Some (blank\<lparr>wnum := 7, wlim := Some (3, 9)\<rparr>)) = Some (b, None) \<and>
     RlpCodec_Decode tagged_codec [] b (Some blank) = Some (Inr (Some y), None) \<and>
     wnum y = 7 \<and> wlim y \<noteq> None"
proof -
  let ?x = "blank\<lparr>wnum := 7, wlim := Some (3, 9)\<rparr>"
  have k: "kindOf tagged_codec ?x = CUint64" "kindOf tagged_codec blank = CUint64"
    by (simp_all add: tagged_codec_def wKind_def blank_def)
  obtain b y where by': "RlpCodec_Encode tagged_codec [] (Some ?x) = Some (b, None)"
    "RlpCodec_Decode tagged_codec [] b (Some blank) = Some (Inr (Some y), None)" "agrees tagged_codec ?x y"
    using RlpCodec_roundtrip [OF tagged_codec_law, of ?x blank "[]"] k by (auto simp: encodable_def)
  have "sameNum w64_api ?x y" using by'(3) unfolding agrees_def k(1) by (simp add: tagged_codec_def)
  then have "wnum y = 7 \<and> wlim y \<noteq> None"
    by (auto simp: sameNum_def w64_api_def split: option.splits)
  with by' show ?thesis by blast
qed

theorem RlpCodec_bytes_lose_leading_zeros_witness:
  "\<exists>b y. RlpCodec_Encode tagged_codec [] (Some (blank\<lparr>wkind := NBytes, wbytes := [0, 0, 5]\<rparr>)) = Some (b, None) \<and>
     RlpCodec_Decode tagged_codec [] b (Some (blank\<lparr>wkind := NBytes\<rparr>)) = Some (Inr (Some y), None) \<and> wbytes y = [5]"
proof -
  let ?x = "blank\<lparr>wkind := NBytes, wbytes := [0, 0, 5]\<rparr>" and ?t = "blank\<lparr>wkind := NBytes\<rparr>"
  have k: "kindOf tagged_codec ?x = NBytes" "kindOf tagged_codec ?t = NBytes"
    by (simp_all add: tagged_codec_def wKind_def)
  have v: "nBytesValue tagged_codec = wbytes" by (simp add: tagged_codec_def)
  show ?thesis
    using RlpCodec_bytes_lose_leading_zeros [OF tagged_codec_law k, of "[]"] unfolding v by (simp add: trimZeros_def)
qed

text \<open>Values of the Arcology codec: a type identifier and its bytes.\<close>

definition tagged_arco :: "(u8 \<times> bytes) arco_api" where
  "tagged_arco = \<lparr>acEncode = snd, acTypeID = fst, acIsCRDT = (\<lambda>_. True), idString = 101, idBigint = 102,
     idBytesNC = 103, idPath = 104, idInt64C = 105, idUint64C = 106, idU256 = 107, idInt64NC = 108,
     acDecodeAs = Pair\<rparr>"

theorem arco_roundtrip_witness:
  "(\<exists>b. arco_Encode tagged_arco [] (Some (104, [1, 2])) = Some (b, None) \<and>
      arco_Decode tagged_arco 0 [] b = Some (Some (104, [1, 2]))) \<and>
   (\<exists>b. arco_Encode tagged_arco [] (Some (109, [1, 2])) = Some (b, None) \<and> arco_Decode tagged_arco 0 [] b = None)"
proof -
  have law: "arco_law tagged_arco" by (simp add: arco_law_def tagged_arco_def arcoIds_def)
  show ?thesis
    using arco_roundtrip [OF law, of "(104, [1, 2])" "[]"] arco_roundtrip [OF law, of "(109, [1, 2])" "[]"]
    by (simp add: tagged_arco_def arcoIds_def)
qed

end
