(* ===== verification/ExecStore.thy ===== *)
theory ExecStore
  imports Platform Cells Codec
begin

text \<open>
  \<open>src/state/cache\<close>: the ExecutionStateStore, the working set of state cells of one execution.
  Reads go to the local cells, then to pending wildcard deletions, then to the committed store;
  writes need an existing parent path, set the cell and keep the parent's metadata up to date.

  The committed store is read-only here and a record of pure functions. Cells live in the heap;
  \<open>localCells\<close> holds references. The methods of \<open>StateCell\<close> that call back into the store (\<open>Set\<close>,
  \<open>Get\<close>, \<open>CopyTo\<close>) are functions of the whole state. The memory pool is allocation in the heap:
  a cell handed out is not handed out again while it is in use.
\<close>

section \<open>State\<close>

record 'v ReadOnlyStore =
  csHas :: "string \<Rightarrow> bool"
  csGet :: "string \<Rightarrow> 'v option \<times> err"
  csGetAs :: "string \<Rightarrow> 'v option \<Rightarrow> 'v option \<times> err"

record 'v ExecutionStateStore =
  committedStore :: "'v ReadOnlyStore option"
  localCells :: "string \<rightharpoonup> ref"
  pendingWildcardDeletes :: "(u64 \<times> string) list"
  stPlatform :: Platform
  stateVersion :: u64
  storeId :: u64

type_synonym ('v, 'c) world = "'v ExecutionStateStore \<times> 'c heap"
type_synonym ('v, 'c) callback = "(ref \<Rightarrow> ('v, 'c) world \<Rightarrow> ('v, 'c) world option) option"

text \<open>
  The third-party operations. \<open>'m\<close> is what \<open>StateCell.Get\<close> returns: a raw value or, for a path, the
  set of its keys (\<open>softdeltaset.DeltaSet\<close>). \<open>xNotInParent\<close> is the text of the error \<open>ErrNotInParent\<close>.
\<close>

record ('v, 'c, 'm) exec_api =
  xCell :: "('c, 'v) cell_api"
  xCodec :: "'v codec_lib"
  xInit :: "u64 \<Rightarrow> string \<Rightarrow> u32 \<Rightarrow> u32 \<Rightarrow> u32 \<Rightarrow> 'v option \<Rightarrow> bool \<Rightarrow> 'c"
  xNew :: "u64 \<Rightarrow> string \<Rightarrow> u32 \<Rightarrow> u32 \<Rightarrow> u32 \<Rightarrow> 'v option \<Rightarrow> 'c"
  xSet :: "ref \<Rightarrow> u64 \<Rightarrow> string \<Rightarrow> 'v option \<Rightarrow> ('v, 'c) world \<Rightarrow> (err \<times> ('v, 'c) world) option"
  xGet :: "ref \<Rightarrow> u64 \<Rightarrow> string \<Rightarrow> ('v, 'c) world \<Rightarrow> ('m option \<times> ('v, 'c) world) option"
  xCopyTo :: "ref \<Rightarrow> ('v, 'c) world \<Rightarrow> ('v, 'c) world option"
  xIncrementWrites :: "u32 \<Rightarrow> 'c \<Rightarrow> 'c"
  xSetBlockBound :: "bool \<Rightarrow> 'c \<Rightarrow> 'c"
  xDebugSetPreexist :: "bool \<Rightarrow> 'c \<Rightarrow> 'c"
  xPathLookupOnly :: "'c \<Rightarrow> bool"
  xIsCommitted :: "'c \<Rightarrow> bool"
  xMemSize :: "'v \<Rightarrow> u64"
  xTypeID :: "'v \<Rightarrow> u8"
  xPathExists :: "'v \<Rightarrow> string \<Rightarrow> bool"
  xPathIsBlockBound :: "'v \<Rightarrow> bool"
  xIsDeltaApplied :: "'v \<Rightarrow> bool"
  xPathClone :: "'v \<Rightarrow> 'v"
  xFreshCopy :: "'v \<Rightarrow> 'v"
  xRawOf :: "'v \<Rightarrow> 'm option"
  xNewPath :: 'v
  xIsPath :: "string \<Rightarrow> bool"
  xValues :: "(string \<rightharpoonup> ref) \<Rightarrow> ref list"
  xMoveIf :: "(ref \<Rightarrow> bool) \<Rightarrow> ref list \<Rightarrow> ref list \<times> ref list"
  xSorter :: "'c heap \<Rightarrow> ref list \<Rightarrow> ref list"
  xIsDeltaSet :: "'m \<Rightarrow> bool"
  xIdxOf :: "'v \<Rightarrow> string \<Rightarrow> u64"
  xViewKeyAt :: "'v \<Rightarrow> u64 \<Rightarrow> string option"
  xDo :: "ref \<Rightarrow> u64 \<Rightarrow> string \<Rightarrow> ('v, 'c) world \<Rightarrow> (ref \<times> ('v, 'c) world) option"
  xKeyAt :: "'m \<Rightarrow> u64 \<Rightarrow> string option"
  xLast :: "'m \<Rightarrow> string option"
  xNotInParent :: string

section \<open>Construction and accessors (execution_state_store.go)\<close>

definition NewExecutionStateStore :: "type_ids \<Rightarrow> 'v ReadOnlyStore option \<Rightarrow> 'v ExecutionStateStore" where
  "NewExecutionStateStore T cs =
     \<lparr>committedStore = cs, localCells = Map.empty, pendingWildcardDeletes = [],
      stPlatform = NewPlatform T, stateVersion = LATEST_STATE_VERSION, storeId = 0\<rparr>"

definition NewDefaultExecutionStateStore :: "type_ids \<Rightarrow> 'v ReadOnlyStore option \<Rightarrow> 'v ExecutionStateStore" where
  "NewDefaultExecutionStateStore T backend = NewExecutionStateStore T backend"

definition SetCommittedStore :: "'v ReadOnlyStore option \<Rightarrow> 'v ExecutionStateStore \<Rightarrow> 'v ExecutionStateStore" where
  "SetCommittedStore backend this = this\<lparr>committedStore := backend\<rparr>"

definition SetID :: "u64 \<Rightarrow> 'v ExecutionStateStore \<Rightarrow> 'v ExecutionStateStore" where
  "SetID i this = this\<lparr>storeId := i\<rparr>"

definition SetVersion :: "u64 \<Rightarrow> 'v ExecutionStateStore \<Rightarrow> 'v ExecutionStateStore" where
  "SetVersion v this = this\<lparr>stateVersion := v\<rparr>"

definition addToLocalCache ::
  "('v, 'c, 'm) exec_api \<Rightarrow> ref \<Rightarrow> ('v, 'c) world \<Rightarrow> ('v, 'c) world option" where
  "addToLocalCache X v w = (case w of (this, h) \<Rightarrow> do {
     p \<leftarrow> pathAt (xCell X) h v;
     Some (this\<lparr>localCells := (localCells this)(p \<mapsto> v)\<rparr>, h)
   })"

section \<open>Lookup\<close>

definition getFromCommitted ::
  "('v, 'c, 'm) exec_api \<Rightarrow> u64 \<Rightarrow> string \<Rightarrow> 'v option \<Rightarrow> ('v, 'c) world \<Rightarrow>
   (ref \<times> err) \<times> ('v, 'c) world" where
  "getFromCommitted X tx path T w = (case w of (this, h) \<Rightarrow>
     let (typedv, e) = (case committedStore this of None \<Rightarrow> (None, None) | Some cs \<Rightarrow> csGetAs cs path T);
         (r, h') = alloc (xInit X tx path 0 0 0 typedv (typedv \<noteq> None)) h
     in ((r, e), (this, h')))"

text \<open>\<open>ResolveWildcardDeletion\<close> of \<open>state_cache_wildcard.go\<close>: the first pending wildcard that is a
  prefix of the path gives a cell with the value nil.\<close>

fun wildcardLoop ::
  "('v, 'c, 'm) exec_api \<Rightarrow> string \<Rightarrow> 'v option \<Rightarrow> (u64 \<times> string) list \<Rightarrow> ('v, 'c) world \<Rightarrow>
   (bool \<times> ref \<times> err) option \<times> ('v, 'c) world" where
  "wildcardLoop X path T [] w = (None, w)"
| "wildcardLoop X path T ((_, wildcardPath) # rest) w =
     (if length path < length wildcardPath then wildcardLoop X path T rest w
      else if take (length wildcardPath) path = wildcardPath
      then (case getFromCommitted X 0 path T w of
              ((r, e), (this, h)) \<Rightarrow>
                (Some (True, r, e),
                 (this, upd r (xIncrementWrites X 1) (upd r (SetValue (xCell X) None) h))))
      else wildcardLoop X path T rest w)"

definition ResolveWildcardDeletion ::
  "('v, 'c, 'm) exec_api \<Rightarrow> string \<Rightarrow> 'v option \<Rightarrow> ('v, 'c) world \<Rightarrow>
   (bool \<times> ref \<times> err) option \<times> ('v, 'c) world" where
  "ResolveWildcardDeletion X path T w = wildcardLoop X path T (pendingWildcardDeletes (fst w)) w"

definition ResolveCellForRead ::
  "('v, 'c, 'm) exec_api \<Rightarrow> u64 \<Rightarrow> string \<Rightarrow> 'v option \<Rightarrow> ('v, 'c) callback \<Rightarrow> bool \<Rightarrow> ('v, 'c) world \<Rightarrow>
   (('v option \<times> ref \<times> err) \<times> ('v, 'c) world) option" where
  "ResolveCellForRead X tx path T act cached w = (case w of (this, h) \<Rightarrow>
     case localCells this path of
       Some r \<Rightarrow> Some ((valueAt (xCell X) h r, r, None), w)
     | None \<Rightarrow>
         (case ResolveWildcardDeletion X path T w of
            (found, w1) \<Rightarrow>
              if found \<noteq> None \<and> cached
              then (case (the found, w1) of
                      ((_, r, e), (this1, h1)) \<Rightarrow>
                        Some ((valueAt (xCell X) h1 r, r, e),
                              (this1\<lparr>localCells := (localCells this1)(path \<mapsto> r)\<rparr>, h1)))
              else (case getFromCommitted X tx path T w1 of
                      ((r, e), w2) \<Rightarrow> do {
                        w3 \<leftarrow> (case act of None \<Rightarrow> Some w2 | Some f \<Rightarrow> f r w2);
                        Some ((valueAt (xCell X) (snd w3) r, r, e), w3)
                      })))"

definition ExistsInParent ::
  "('v, 'c, 'm) exec_api \<Rightarrow> u64 \<Rightarrow> string \<Rightarrow> ('v, 'c) callback \<Rightarrow> ('v, 'c) world \<Rightarrow>
   (bool \<times> ('v, 'c) world) option" where
  "ExistsInParent X tx path act w =
     (if IsImmediateChildOfSysPath (stPlatform (fst w)) path then Some (True, w)
      else let (parentPath, _) = GetParentPath path in do {
        ((meta, _, _), w1) \<leftarrow> ResolveCellForRead X tx parentPath (Some (xNewPath X)) act True w;
        case meta of
          None \<Rightarrow> Some (False, w1)
        | Some m \<Rightarrow> do {
            m \<leftarrow> (if kindOf (xCodec X) m = NBytes
                  then case RlpCodec_Decode (xCodec X) [] (nBytesValue (xCodec X) m) (Some (xNewPath X)) of
                         Some (Inr v, _) \<Rightarrow> v
                       | _ \<Rightarrow> None
                  else Some m);
            if kindOf (xCodec X) m = CPath
            then Some (xPathExists X m (drop (length parentPath) path), w1)
            else None
          }
      })"

definition ReadCell ::
  "('v, 'c, 'm) exec_api \<Rightarrow> u64 \<Rightarrow> string \<Rightarrow> 'v option \<Rightarrow> ('v, 'c) callback \<Rightarrow> ('v, 'c) world \<Rightarrow>
   (('v option \<times> ref \<times> err) \<times> ('v, 'c) world) option" where
  "ReadCell X tx path T act w = do {
     (ex, w1) \<leftarrow> ExistsInParent X tx path act w;
     if \<not> ex
     then (case w1 of (this, h) \<Rightarrow>
             let (r, h') = alloc (xInit X tx path 0 0 0 None False) h
             in Some ((None, r, Some (xNotInParent X)), (this, h')))
     else ResolveCellForRead X tx path T act True w1
   }"

definition Has :: "('v, 'c, 'm) exec_api \<Rightarrow> string \<Rightarrow> ('v, 'c) world \<Rightarrow> bool" where
  "Has X path w = (case w of (this, h) \<Rightarrow>
     if length path \<le> ETH_ACCOUNT_PREFIX_LENGTH then True
     else case localCells this path of
            Some r \<Rightarrow> valueAt (xCell X) h r \<noteq> None
          | None \<Rightarrow> (case committedStore this of None \<Rightarrow> False | Some cs \<Rightarrow> csHas cs path))"

text \<open>The size charged for a value: a raw value panics.\<close>

definition sizeOf :: "('v, 'c, 'm) exec_api \<Rightarrow> 'v option \<Rightarrow> u64 option" where
  "sizeOf X v = (case v of None \<Rightarrow> Some 0 | Some x \<Rightarrow> if isCRDT (xCell X) x then Some (xMemSize X x) else None)"

definition ReadCommitted ::
  "('v, 'c, 'm) exec_api \<Rightarrow> u64 \<Rightarrow> string \<Rightarrow> 'v option \<Rightarrow> ('v, 'c) world \<Rightarrow>
   (('m option \<times> u64) \<times> ('v, 'c) world) option" where
  "ReadCommitted X tx path T w =
     (case getFromCommitted X tx path T w of
        ((r, Some e), w1) \<Rightarrow> Some ((None, MIN_READ_SIZE), w1)
      | ((r, None), w1) \<Rightarrow> do {
          sz \<leftarrow> sizeOf X (valueAt (xCell X) (snd w1) r);
          (v, w2) \<leftarrow> xGet X r tx path w1;
          Some ((v, MIN_READ_SIZE + sz), w2)
        })"

definition Read ::
  "('v, 'c, 'm) exec_api \<Rightarrow> u64 \<Rightarrow> string \<Rightarrow> 'v option \<Rightarrow> ('v, 'c) world \<Rightarrow>
   (('m option \<times> ref \<times> u64) \<times> ('v, 'c) world) option" where
  "Read X tx path T w = do {
     ((_, r, _), w1) \<leftarrow> ReadCell X tx path T (Some (addToLocalCache X)) w;
     sz \<leftarrow> sizeOf X (valueAt (xCell X) (snd w1) r);
     (v, w2) \<leftarrow> xGet X r tx path w1;
     Some ((v, r, MIN_READ_SIZE + sz), w2)
   }"

section \<open>Writing\<close>

definition DiffSize ::
  "('v, 'c, 'm) exec_api \<Rightarrow> u64 \<Rightarrow> string \<Rightarrow> 'v option \<Rightarrow> ('v, 'c) world \<Rightarrow>
   (64 word \<times> ('v, 'c) world) option" where
  "DiffSize X tx path newVal w = do {
     ((oldVal, _, _), w1) \<leftarrow> ReadCell X tx path newVal None w;
     oldSize \<leftarrow> sizeOf X oldVal;
     let newSize = (case newVal of None \<Rightarrow> 0 | Some v \<Rightarrow> xMemSize X v);
     Some (newSize - oldSize, w1)
   }"

definition isWildcard :: "string \<Rightarrow> bool" where
  "isWildcard path \<longleftrightarrow> HasSuffix path ''*'' \<or> HasSuffix path ''[:]''"

text \<open>The second half of \<open>write\<close>: the parent's metadata, then the transient status. The error of
  reading the parent replaces the error of updating it.\<close>

definition updateParentMeta ::
  "('v, 'c, 'm) exec_api \<Rightarrow> u64 \<Rightarrow> string \<Rightarrow> string \<Rightarrow> ref \<Rightarrow> ('v, 'c) world \<Rightarrow>
   ((ref \<times> err) \<times> ('v, 'c) world) option" where
  "updateParentMeta X tx path parentPath r w1 = do {
     (e, w2) \<leftarrow> (if IsContainerPath parentPath \<or> \<not> IsSysPath (stPlatform (fst w1)) parentPath \<and> tx \<noteq> SYSTEM
        then do {
          ((_, pm, _), w2) \<leftarrow> ResolveCellForRead X tx parentPath (Some (xNewPath X)) (Some (addToLocalCache X)) True w1;
          xSet X pm tx path (valueAt (xCell X) (snd w2) r) w2
        }
        else Some (None, w1));
     if IsContainerPath parentPath
     then do {
       ((pathMeta, _, e), w3) \<leftarrow> ReadCell X tx parentPath (Some (xNewPath X)) None w2;
       case pathMeta of
         None \<Rightarrow> Some ((r, e), w3)
       | Some m \<Rightarrow>
           if kindOf (xCodec X) m = CPath
           then Some ((r, e), (fst w3, upd r (xSetBlockBound X (xPathIsBlockBound X m)) (snd w3)))
           else None
     }
     else Some ((r, e), w2)
   }"

definition writeCell ::
  "('v, 'c, 'm) exec_api \<Rightarrow> u64 \<Rightarrow> string \<Rightarrow> 'v option \<Rightarrow> ('v, 'c) world \<Rightarrow>
   ((ref \<times> err) \<times> ('v, 'c) world) option" where
  "writeCell X tx path value w = (case w of (this, h) \<Rightarrow>
     let (parentPath, _) = GetParentPath path;
         (r0, h0) = alloc (xNew X tx path 0 1 0 value) h;
         w0 = (this, h0)
     in if Has X parentPath w0 \<or> tx = SYSTEM
        then do {
          ((r, e), w1) \<leftarrow> (if \<not> isWildcard path
             then do {
               ((_, r, _), w1) \<leftarrow> ResolveCellForRead X tx path value (Some (addToLocalCache X)) True w0;
               (e, w2) \<leftarrow> xSet X r tx path value w1;
               Some ((r, e), w2)
             }
             else Some ((r0, None), w0));
          if e = None then updateParentMeta X tx path parentPath r w1 else Some ((r, e), w1)
        }
        else Some ((r0, Some (''Error: The parent path '' @ parentPath @ '' doesn't exist for '' @ path)), w0))"

definition Write ::
  "('v, 'c, 'm) exec_api \<Rightarrow> u64 \<Rightarrow> string \<Rightarrow> 'v option \<Rightarrow>
   (ref \<Rightarrow> 64 word \<Rightarrow> ('v, 'c) world \<Rightarrow> ('v, 'c) world option) option \<Rightarrow> ('v, 'c) world \<Rightarrow>
   ((64 word \<times> err) \<times> ('v, 'c) world) option" where
  "Write X tx path newVal setter w =
     (if (case newVal of None \<Rightarrow> False | Some v \<Rightarrow> xTypeID X v = 0)
      then Some ((0, Some ''Error: Unknown data type !''), w)
      else do {
        ((r, e), w1) \<leftarrow> writeCell X tx path newVal w;
        (sizeDif, w2) \<leftarrow> DiffSize X tx path newVal w1;
        w3 \<leftarrow> (case setter of None \<Rightarrow> Some w2 | Some f \<Rightarrow> f r sizeDif w2);
        Some ((sizeDif, e), w3)
      })"

definition Inject ::
  "('v, 'c, 'm) exec_api \<Rightarrow> u64 \<Rightarrow> string \<Rightarrow> 'v option \<Rightarrow> ('v, 'c) world \<Rightarrow>
   ((ref \<times> err) \<times> ('v, 'c) world) option" where
  "Inject X tx path v w = do {
     ((_, r, _), w1) \<leftarrow> ResolveCellForRead X tx path v (Some (addToLocalCache X)) True w;
     (e, w2) \<leftarrow> xSet X r tx path v w1;
     Some ((r, e), w2)
   }"

section \<open>The store as a read-only backend\<close>

text \<open>\<open>Get\<close> and \<open>GetAs\<close> differ in the type hint only. \<open>xFreshCopy\<close> is \<open>New(raw, nil, nil, min, max)\<close>
  on the raw value and the limits of its argument.\<close>

definition copyOut :: "('v, 'c, 'm) exec_api \<Rightarrow> 'v option \<Rightarrow> 'v option" where
  "copyOut X typedv =
     (case typedv of
        None \<Rightarrow> None
      | Some v \<Rightarrow>
          if \<not> isCRDT (xCell X) v \<or> xIsDeltaApplied X v then Some v
          else if kindOf (xCodec X) v = CPath then Some (xPathClone X v)
          else Some (xFreshCopy X v))"

definition Get ::
  "('v, 'c, 'm) exec_api \<Rightarrow> string \<Rightarrow> ('v, 'c) world \<Rightarrow> (('v option \<times> err) \<times> ('v, 'c) world) option" where
  "Get X path w = do {
     ((typedv, _, _), w1) \<leftarrow> ReadCell X SYSTEM path None None w;
     Some ((copyOut X typedv, None), w1)
   }"

definition GetAs ::
  "('v, 'c, 'm) exec_api \<Rightarrow> string \<Rightarrow> 'v option \<Rightarrow> ('v, 'c) world \<Rightarrow>
   (('v option \<times> err) \<times> ('v, 'c) world) option" where
  "GetAs X path typeHint w = do {
     let typedHint = (case typeHint of None \<Rightarrow> None | Some v \<Rightarrow> if isCRDT (xCell X) v then Some v else None);
     ((typedv, _, _), w1) \<leftarrow> ReadCell X SYSTEM path typedHint None w;
     Some ((copyOut X typedv, None), w1)
   }"

definition GetIfCached :: "string \<Rightarrow> 'v ExecutionStateStore \<Rightarrow> ref option \<times> bool" where
  "GetIfCached path this = (localCells this path, localCells this path \<noteq> None)"

section \<open>Merging, clearing and exporting\<close>

fun copyAll :: "('v, 'c, 'm) exec_api \<Rightarrow> ref list \<Rightarrow> ('v, 'c) world \<Rightarrow> ('v, 'c) world option" where
  "copyAll X [] w = Some w"
| "copyAll X (r # rs) w = do { w1 \<leftarrow> xCopyTo X r w; copyAll X rs w1 }"

definition set_cell :: "('v, 'c, 'm) exec_api \<Rightarrow> ref option \<Rightarrow> ('v, 'c) world \<Rightarrow> ('v, 'c) world option" where
  "set_cell X v w =
     (case v of
        None \<Rightarrow> Some w
      | Some r \<Rightarrow> do {
          p \<leftarrow> pathAt (xCell X) (snd w) r;
          if xIsPath X p \<and> xIsCommitted X (cellAt (snd w) r) then Some w else xCopyTo X r w
        })"

text \<open>\<open>Insert\<close>: new paths first, in sorted order, then everything that is not a path.\<close>

definition Insert :: "('v, 'c, 'm) exec_api \<Rightarrow> ref list \<Rightarrow> ('v, 'c) world \<Rightarrow> ('v, 'c) world option" where
  "Insert X transitions w =
     (if length transitions = 0 then Some w
      else if \<exists>r \<in> set transitions. pathAt (xCell X) (snd w) r = None then None
      else do {
        let p = (\<lambda>r. the (pathAt (xCell X) (snd w) r));
        let (newPaths, rest) =
          xMoveIf X (\<lambda>r. xIsPath X (p r) \<and> \<not> xIsCommitted X (cellAt (snd w) r)) transitions;
        w1 \<leftarrow> copyAll X (xSorter X (snd w) newPaths) w;
        if \<exists>r \<in> set rest. pathAt (xCell X) (snd w1) r = None then None
        else copyAll X (fst (RemoveIf (xCell X) (\<lambda>_ r. xIsPath X (the (pathAt (xCell X) (snd w1) r))) rest)) w1
      })"

definition Clear :: "'v ExecutionStateStore \<Rightarrow> 'v ExecutionStateStore" where
  "Clear this = this\<lparr>localCells := Map.empty\<rparr>"

fun WildcardsToStateCell ::
  "('v, 'c, 'm) exec_api \<Rightarrow> (u64 \<times> string) list \<Rightarrow> 'c heap \<Rightarrow> ref list \<times> 'c heap" where
  "WildcardsToStateCell X [] h = ([], h)"
| "WildcardsToStateCell X ((tx, p) # rest) h =
     (let (r, h1) = alloc (xDebugSetPreexist X True (xNew X tx (p @ ''*'') 0 1 0 None)) h;
          (rs, h2) = WildcardsToStateCell X rest h1
      in (r # rs, h2))"

definition Export ::
  "('v, 'c, 'm) exec_api \<Rightarrow> ('c heap \<Rightarrow> ref list \<Rightarrow> ref list) option list \<Rightarrow> ('v, 'c) world \<Rightarrow>
   ref list \<times> ('v, 'c) world" where
  "Export X preprocs w = (case w of (this, h) \<Rightarrow>
     let buffer = fold (\<lambda>proc buffer. case proc of None \<Rightarrow> buffer | Some f \<Rightarrow> f h buffer)
                    preprocs (xValues X (localCells this));
         buffer = fst (RemoveIf (xCell X) (\<lambda>_ r. xPathLookupOnly X (cellAt h r)) buffer);
         (wild, h') = WildcardsToStateCell X (pendingWildcardDeletes this) h
     in (buffer @ wild, (this, h')))"

section \<open>Path wrappers (state_cache_path.go)\<close>

definition DoReadOnly ::
  "('v, 'c, 'm) exec_api \<Rightarrow> u64 \<Rightarrow> string \<Rightarrow> 'v option \<Rightarrow> ('v, 'c) world \<Rightarrow> (ref \<times> ('v, 'c) world) option" where
  "DoReadOnly X tx path T w = do {
     ((_, r, _), w1) \<leftarrow> ReadCell X tx path T (Some (addToLocalCache X)) w;
     xDo X r tx path w1
   }"

text \<open>The key of \<open>IndexOf\<close> and the index of \<open>KeyAt\<close> have type \<open>any\<close>: None is a value of another type.\<close>

definition IndexOf ::
  "('v, 'c, 'm) exec_api \<Rightarrow> u64 \<Rightarrow> string \<Rightarrow> string option \<Rightarrow> 'v option \<Rightarrow> ('v, 'c) world \<Rightarrow>
   ((u64 \<times> u64) \<times> ('v, 'c) world) option" where
  "IndexOf X tx path key T w =
     (if \<not> xIsPath X path then Some ((- 1, 0), w)
      else do {
        (r, w1) \<leftarrow> DoReadOnly X tx path T w;
        Some (case (valueAt (xCell X) (snd w1) r, key) of
            (Some v, Some k) \<Rightarrow>
              if kindOf (xCodec X) v = CPath then ((xIdxOf X v k, MIN_READ_SIZE), w1)
              else ((- 1, MIN_READ_SIZE), w1)
          | _ \<Rightarrow> ((- 1, MIN_READ_SIZE), w1))
      })"

definition KeyAt ::
  "('v, 'c, 'm) exec_api \<Rightarrow> u64 \<Rightarrow> string \<Rightarrow> u64 option \<Rightarrow> 'v option \<Rightarrow> ('v, 'c) world \<Rightarrow>
   ((string \<times> u64) \<times> ('v, 'c) world) option" where
  "KeyAt X tx path index T w =
     (if \<not> xIsPath X path then Some (([], MIN_READ_SIZE), w)
      else do {
        (r, w1) \<leftarrow> DoReadOnly X tx path T w;
        Some (case (valueAt (xCell X) (snd w1) r, index) of
            (Some v, Some i) \<Rightarrow>
              (if kindOf (xCodec X) v = CPath
               then case xViewKeyAt X v i of Some k \<Rightarrow> ((k, MIN_READ_SIZE), w1)
                                           | None \<Rightarrow> (([], MIN_READ_SIZE), w1)
               else (([], MIN_READ_SIZE), w1))
          | _ \<Rightarrow> (([], MIN_READ_SIZE), w1))
      })"

definition Peek ::
  "('v, 'c, 'm) exec_api \<Rightarrow> string \<Rightarrow> 'v option \<Rightarrow> ('v, 'c) world \<Rightarrow>
   (('m option \<times> 'v option \<times> u64) \<times> ('v, 'c) world) option" where
  "Peek X path T w = do {
     ((v, _, _), w1) \<leftarrow> ReadCell X SYSTEM path T None w;
     case v of
       None \<Rightarrow> Some ((None, None, MIN_READ_SIZE), w1)
     | Some x \<Rightarrow> if isCRDT (xCell X) x then Some ((xRawOf X x, Some x, xMemSize X x), w1) else None
   }"

definition PeekCommitted :: "string \<Rightarrow> 'v ExecutionStateStore \<Rightarrow> ('v option \<times> u64) option" where
  "PeekCommitted path this = do { cs \<leftarrow> committedStore this; Some (fst (csGet cs path), 0) }"

text \<open>
  \<open>getKeyByIdx\<close> reads the length of the key set before it checks the set for nil: a missing path
  panics. The branches after the check are unreachable.
\<close>

definition getKeyByIdx ::
  "('v, 'c, 'm) exec_api \<Rightarrow> u64 \<Rightarrow> string \<Rightarrow> u64 \<Rightarrow> ('v, 'c) world \<Rightarrow>
   ((string option \<times> u64 \<times> err) \<times> ('v, 'c) world) option" where
  "getKeyByIdx X tx path idx w =
     (if \<not> xIsPath X path then Some ((None, MIN_READ_SIZE, Some ''Error: Not a path!!!''), w)
      else do {
        ((meta, _, dataSize), w1) \<leftarrow> Read X tx path (Some (xNewPath X)) w;
        m \<leftarrow> meta;
        if \<not> xIsDeltaSet X m then None
        else Some (case xKeyAt X m idx of
            Some (k # ks) \<Rightarrow> ((Some (path @ k # ks), dataSize, None), w1)
          | _ \<Rightarrow> ((None, dataSize, Some ''Error: Exceeded the length of the path !!!''), w1))
      })"

definition minMaxKey ::
  "('v, 'c, 'm) exec_api \<Rightarrow> u64 \<Rightarrow> string \<Rightarrow> u64 \<Rightarrow> ('v, 'c) world \<Rightarrow>
   ((string option \<times> u64 \<times> err) \<times> ('v, 'c) world) option" where
  "minMaxKey X tx path idx w =
     (if \<not> xIsPath X path then Some ((None, MIN_READ_SIZE, Some ''Error: Not a path!!!''), w)
      else do {
        ((meta, _, dataSize), w1) \<leftarrow> Read X tx path (Some (xNewPath X)) w;
        case meta of
          None \<Rightarrow> Some ((Some [], dataSize, Some ''Error: Key not found in the path!!!''), w1)
        | Some m \<Rightarrow>
            if \<not> xIsDeltaSet X m then None
            else Some (case xKeyAt X m idx of
                Some k \<Rightarrow> ((Some (path @ k), dataSize, None), w1)
              | None \<Rightarrow> ((Some [], dataSize, Some ''Error: Key not found in the path!!!''), w1))
      })"

definition MinKey where "MinKey = minMaxKey"
definition MaxKey where "MaxKey = minMaxKey"

definition ReadAt ::
  "('v, 'c, 'm) exec_api \<Rightarrow> u64 \<Rightarrow> string \<Rightarrow> u64 \<Rightarrow> 'v option \<Rightarrow> ('v, 'c) world \<Rightarrow>
   (('m option \<times> u64 \<times> err) \<times> ('v, 'c) world) option" where
  "ReadAt X tx path idx T w = do {
     ((key, dataSize, e), w1) \<leftarrow> getKeyByIdx X tx path idx w;
     case (e, key) of
       (None, Some k) \<Rightarrow> do {
         ((v, _, readGas), w2) \<leftarrow> Read X tx k T w1;
         Some ((v, dataSize + readGas, None), w2)
       }
     | _ \<Rightarrow> Some ((None, dataSize, e), w1)
   }"

definition PopBack ::
  "('v, 'c, 'm) exec_api \<Rightarrow> u64 \<Rightarrow> string \<Rightarrow> 'v option \<Rightarrow> ('v, 'c) world \<Rightarrow>
   (('m option \<times> 64 word \<times> err) \<times> ('v, 'c) world) option" where
  "PopBack X tx path T w =
     (if \<not> xIsPath X path then Some ((None, MIN_READ_SIZE, Some ''Error: Not a path!!!''), w)
      else do {
        ((meta, _, size1), w1) \<leftarrow> Read X tx path T w;
        m \<leftarrow> meta;
        if \<not> xIsDeltaSet X m then None
        else case xLast X m of
               None \<Rightarrow> Some ((None, size1, Some ''Error: The path is either empty or doesn't exist''), w1)
             | Some subkey \<Rightarrow> do {
                 ((value, _, size2), w2) \<leftarrow> Read X tx (path @ subkey) T w1;
                 if value = None
                 then Some ((None, size1 + size2, Some ''Error: Empty container!''), w2)
                 else do {
                   ((writeDataSize, e), w3) \<leftarrow> Write X tx (path @ subkey) None None w2;
                   Some ((value, (size1 + size2) + writeDataSize, e), w3)
                 }
               }
      })"

definition WriteAt ::
  "('v, 'c, 'm) exec_api \<Rightarrow> u64 \<Rightarrow> string \<Rightarrow> u64 \<Rightarrow> 'v option \<Rightarrow> ('v, 'c) world \<Rightarrow>
   ((64 word \<times> err) \<times> ('v, 'c) world) option" where
  "WriteAt X tx path idx T w =
     (if \<not> xIsPath X path then Some ((MIN_WRITE_SIZE, Some ''Error: Not a path!!!''), w)
      else do {
        ((key, readDataSize, e), w1) \<leftarrow> getKeyByIdx X tx path idx w;
        if e = None
        then do {
          k \<leftarrow> key;
          ((writeDataSize, e), w2) \<leftarrow> Write X tx k T None w1;
          Some ((readDataSize + writeDataSize, e), w2)
        }
        else Some ((readDataSize, e), w1)
      })"

section \<open>What every operation keeps\<close>

text \<open>Every local cell is allocated and is filed under its own path.\<close>

definition storeWf :: "('v, 'c, 'm) exec_api \<Rightarrow> ('v, 'c) world \<Rightarrow> bool" where
  "storeWf X w \<longleftrightarrow> (\<forall>p r. localCells (fst w) p = Some r \<longrightarrow>
     r < nextRef (snd w) \<and> pathAt (xCell X) (snd w) r = Some p)"

text \<open>The store keeps its configuration, its wildcard queue and its local cells; cells keep their
  paths.\<close>

definition storeStep :: "('v, 'c, 'm) exec_api \<Rightarrow> ('v, 'c) world \<Rightarrow> ('v, 'c) world \<Rightarrow> bool" where
  "storeStep X w w' \<longleftrightarrow>
     committedStore (fst w') = committedStore (fst w) \<and>
     pendingWildcardDeletes (fst w') = pendingWildcardDeletes (fst w) \<and>
     stPlatform (fst w') = stPlatform (fst w) \<and> stateVersion (fst w') = stateVersion (fst w) \<and>
     storeId (fst w') = storeId (fst w) \<and> localCells (fst w) \<subseteq>\<^sub>m localCells (fst w') \<and>
     nextRef (snd w) \<le> nextRef (snd w') \<and>
     (\<forall>r < nextRef (snd w). pathAt (xCell X) (snd w') r = pathAt (xCell X) (snd w) r) \<and>
     (storeWf X w \<longrightarrow> storeWf X w')"

text \<open>
  The laws of the cell methods: constructors set path and value, flag setters keep them, and the
  methods that call back into the store use its operations, so that they keep what these keep.
\<close>

definition exec_law :: "('v, 'c, 'm) exec_api \<Rightarrow> bool" where
  "exec_law X \<longleftrightarrow>
     cell_law (xCell X) \<and>
     (\<forall>tx p a b c v e. GetPath (xCell X) (xInit X tx p a b c v e) = Some p \<and> Value (xCell X) (xInit X tx p a b c v e) = v) \<and>
     (\<forall>tx p a b c v. GetPath (xCell X) (xNew X tx p a b c v) = Some p \<and> Value (xCell X) (xNew X tx p a b c v) = v) \<and>
     (\<forall>n c. GetPath (xCell X) (xIncrementWrites X n c) = GetPath (xCell X) c \<and>
        Value (xCell X) (xIncrementWrites X n c) = Value (xCell X) c) \<and>
     (\<forall>n c. GetPath (xCell X) (xSetBlockBound X n c) = GetPath (xCell X) c \<and>
        Value (xCell X) (xSetBlockBound X n c) = Value (xCell X) c) \<and>
     (\<forall>r tx p v w e w'. xSet X r tx p v w = Some (e, w') \<longrightarrow> storeStep X w w') \<and>
     (\<forall>r tx p w m w'. xGet X r tx p w = Some (m, w') \<longrightarrow> storeStep X w w') \<and>
     (\<forall>r tx p w q w'. xDo X r tx p w = Some (q, w') \<longrightarrow> storeStep X w w') \<and>
     (\<forall>r w w'. xCopyTo X r w = Some w' \<longrightarrow> storeStep X w w')"

lemma exec_law_simps [api_laws]:
  assumes "exec_law X"
  shows "GetPath (xCell X) (xInit X tx p a b c v e) = Some p" "Value (xCell X) (xInit X tx p a b c v e) = v"
    "GetPath (xCell X) (xNew X tx p a b c v) = Some p" "Value (xCell X) (xNew X tx p a b c v) = v"
    "GetPath (xCell X) (xIncrementWrites X n d) = GetPath (xCell X) d"
    "GetPath (xCell X) (xSetBlockBound X f d) = GetPath (xCell X) d"
    "Value (xCell X) (xSetBlockBound X f d) = Value (xCell X) d"
    "GetPath (xCell X) (SetValue (xCell X) u d) = GetPath (xCell X) d"
  using assms by (simp_all add: exec_law_def cell_law_def)

lemma xSet_step: "exec_law X \<Longrightarrow> xSet X r tx p v w = Some (e, w') \<Longrightarrow> storeStep X w w'"
  unfolding exec_law_def by metis

lemma xGet_step: "exec_law X \<Longrightarrow> xGet X r tx p w = Some (m, w') \<Longrightarrow> storeStep X w w'"
  unfolding exec_law_def by metis

lemma xDo_step: "exec_law X \<Longrightarrow> xDo X r tx p w = Some (q, w') \<Longrightarrow> storeStep X w w'"
  unfolding exec_law_def by metis

lemma xCopyTo_step: "exec_law X \<Longrightarrow> xCopyTo X r w = Some w' \<Longrightarrow> storeStep X w w'"
  unfolding exec_law_def by metis

lemma storeStep_refl [simp]: "storeStep X w w"
  by (simp add: storeStep_def)

lemma storeStep_trans [trans]: "storeStep X w w' \<Longrightarrow> storeStep X w' w'' \<Longrightarrow> storeStep X w w''"
proof -
  assume 1: "storeStep X w w'" and 2: "storeStep X w' w''"
  have "pathAt (xCell X) (snd w'') r = pathAt (xCell X) (snd w) r" if "r < nextRef (snd w)" for r
  proof -
    have "r < nextRef (snd w')" using that 1 by (simp add: storeStep_def)
    then show ?thesis using that 1 2 by (simp add: storeStep_def)
  qed
  moreover have "localCells (fst w) \<subseteq>\<^sub>m localCells (fst w'')"
    using 1 2 map_le_trans unfolding storeStep_def by blast
  ultimately show ?thesis using 1 2 by (simp add: storeStep_def)
qed

lemma storeStep_alloc: "storeStep X (this, h) (this, snd (alloc c h))"
  by (auto simp: storeStep_def storeWf_def dest: less_SucI)

lemma storeStep_upd:
  "GetPath (xCell X) (f (cellAt h r)) = pathAt (xCell X) h r \<Longrightarrow> storeStep X (this, h) (this, upd r f h)"
  by (auto simp: storeStep_def storeWf_def)

lemma storeStep_file:
  assumes "localCells this p = None" "pathAt (xCell X) h r = Some p" "r < nextRef h"
  shows "storeStep X (this, h) (this\<lparr>localCells := (localCells this)(p \<mapsto> r)\<rparr>, h)"
  using assms by (auto simp: storeStep_def storeWf_def map_le_def dom_def)

lemma storeStep_local: "storeStep X w w' \<Longrightarrow> localCells (fst w) p = Some r \<Longrightarrow> localCells (fst w') p = Some r"
  by (auto simp: storeStep_def map_le_def dom_def)

text \<open>The callbacks the store passes to its own lookups: none, or filing the cell.\<close>

definition actOk :: "('v, 'c, 'm) exec_api \<Rightarrow> ('v, 'c) callback \<Rightarrow> bool" where
  "actOk X act \<longleftrightarrow> act = None \<or> act = Some (addToLocalCache X)"

lemma actOk_simps [simp]: "actOk X None" "actOk X (Some (addToLocalCache X))"
  by (simp_all add: actOk_def)

lemma getFromCommitted_ok:
  assumes "exec_law X" "getFromCommitted X tx path T (this, h) = ((r, e), w')"
  shows "storeStep X (this, h) w' \<and> fst w' = this \<and> r = nextRef h \<and> r < nextRef (snd w') \<and>
    pathAt (xCell X) (snd w') r = Some path \<and>
    valueAt (xCell X) (snd w') r = (case committedStore this of None \<Rightarrow> None | Some cs \<Rightarrow> fst (csGetAs cs path T)) \<and>
    (\<forall>q < nextRef h. cellAt (snd w') q = cellAt h q)"
  using assms(2) storeStep_alloc [of X this h]
  by (auto simp: getFromCommitted_def alloc_def exec_law_simps [OF assms(1)]
      split: option.splits prod.splits)

lemma wildcardLoop_ok:
  assumes "exec_law X" "wildcardLoop X path T ws (this, h) = (res, w')"
  shows "storeStep X (this, h) w' \<and> fst w' = this \<and>
    (case res of None \<Rightarrow> w' = (this, h)
     | Some (ok, r, e) \<Rightarrow> r < nextRef (snd w') \<and> pathAt (xCell X) (snd w') r = Some path)"
  using assms(2)
proof (induction ws)
  case Nil
  then show ?case by auto
next
  case (Cons p ws)
  obtain tx wp where p: "p = (tx, wp)" by fastforce
  obtain r e this1 h1 where g: "getFromCommitted X 0 path T (this, h) = ((r, e), (this1, h1))"
    by (metis prod.exhaust)
  note ok = getFromCommitted_ok [OF assms(1) g]
  show ?case
  proof (cases "length path < length wp \<or> take (length wp) path \<noteq> wp")
    case True
    then show ?thesis using Cons p by (auto split: if_splits)
  next
    case False
    let ?g = "upd r (SetValue (xCell X) None) h1"
    let ?h = "upd r (xIncrementWrites X 1) ?g"
    have res: "res = Some (True, r, e)" "w' = (this1, ?h)" using False Cons.prems g p by auto
    have "storeStep X (this1, h1) (this1, ?g)"
      by (rule storeStep_upd) (simp add: exec_law_simps [OF assms(1)])
    also have "storeStep X (this1, ?g) (this1, ?h)"
      by (rule storeStep_upd) (simp add: exec_law_simps [OF assms(1)])
    finally have "storeStep X (this, h) (this1, ?h)" using ok by (auto intro: storeStep_trans)
    moreover have "pathAt (xCell X) h1 r = Some path" "r < nextRef h1" "this1 = this" using ok by auto
    ultimately show ?thesis unfolding res by (simp add: exec_law_simps [OF assms(1)])
  qed
qed

lemma ResolveCellForRead_ok:
  assumes "exec_law X" "storeWf X w" "actOk X act"
  shows "\<exists>r e w'. ResolveCellForRead X tx path T act cached w = Some ((valueAt (xCell X) (snd w') r, r, e), w') \<and>
    storeStep X w w' \<and> r < nextRef (snd w') \<and> pathAt (xCell X) (snd w') r = Some path \<and>
    (act \<noteq> None \<longrightarrow> localCells (fst w') path = Some r)"
proof -
  obtain this h where w: "w = (this, h)" by fastforce
  show ?thesis
  proof (cases "localCells this path")
    case (Some r)
    then show ?thesis using assms(2) unfolding w by (auto simp: ResolveCellForRead_def storeWf_def)
  next
    case None
    obtain found w1 where f: "ResolveWildcardDeletion X path T w = (found, w1)"
      by (metis prod.exhaust)
    then have 1: "storeStep X w w1 \<and> fst w1 = this \<and> (case found of None \<Rightarrow> w1 = w
       | Some (ok, r, e) \<Rightarrow> r < nextRef (snd w1) \<and> pathAt (xCell X) (snd w1) r = Some path)"
      using wildcardLoop_ok [OF assms(1), of path T "pendingWildcardDeletes this" this h found w1]
      unfolding ResolveWildcardDeletion_def w by simp
    obtain h1 where w1: "w1 = (this, h1)" using 1 by (cases w1) auto
    show ?thesis
    proof (cases "found \<noteq> None \<and> cached")
      case True
      then obtain ok r e where fr: "found = Some (ok, r, e)" by auto
      have "storeStep X w (this\<lparr>localCells := (localCells this)(path \<mapsto> r)\<rparr>, h1)"
        using 1 fr w1 storeStep_file [OF None, of X h1 r] by (auto intro: storeStep_trans)
      then show ?thesis using None True f fr w1 1 by (auto simp: ResolveCellForRead_def w)
    next
      case False
      obtain r e h2 where g: "getFromCommitted X tx path T w1 = ((r, e), (this, h2))"
        using getFromCommitted_ok [OF assms(1)] w1 by (metis prod.exhaust fst_conv)
      note ok = getFromCommitted_ok [OF assms(1) g [unfolded w1]]
      have step: "storeStep X w (this, h2)" using 1 ok w1 by (auto intro: storeStep_trans)
      have filed: "storeStep X w (this\<lparr>localCells := (localCells this)(path \<mapsto> r)\<rparr>, h2)"
        using step storeStep_file [OF None, of X h2 r] ok by (auto intro: storeStep_trans)
      show ?thesis using None False f g ok step filed assms(3)
        by (auto simp: ResolveCellForRead_def w actOk_def addToLocalCache_def)
    qed
  qed
qed

text \<open>A computation keeps the store if every result it can give is a step away.\<close>

definition keeps :: "('v, 'c, 'm) exec_api \<Rightarrow> ('v, 'c) world \<Rightarrow> ('a \<times> ('v, 'c) world) option \<Rightarrow> bool" where
  "keeps X w m \<longleftrightarrow> (storeWf X w \<longrightarrow> (\<forall>x w'. m = Some (x, w') \<longrightarrow> storeStep X w w'))"

lemma storeStep_wf: "storeStep X w w' \<Longrightarrow> storeWf X w \<Longrightarrow> storeWf X w'"
  by (simp add: storeStep_def)

lemma keepsD: "keeps X w m \<Longrightarrow> storeWf X w \<Longrightarrow> m = Some (x, w') \<Longrightarrow> storeStep X w w'"
  unfolding keeps_def by blast

lemma keeps_bind1:
  "keeps X w m \<Longrightarrow> (\<And>x w'. keeps X w' (g x w')) \<Longrightarrow> keeps X w (m \<bind> (\<lambda>(x, w'). g x w'))"
  unfolding keeps_def by (auto simp: bind_eq_Some_conv intro: storeStep_trans dest: storeStep_wf)
    (metis storeStep_trans storeStep_wf)

lemma keeps_bind2:
  "keeps X w m \<Longrightarrow> (\<And>a b w'. keeps X w' (g a b w')) \<Longrightarrow> keeps X w (m \<bind> (\<lambda>((a, b), w'). g a b w'))"
  using keeps_bind1 [of X w m "\<lambda>(a, b) w'. g a b w'"] by (simp add: case_prod_unfold)

lemma keeps_bind3:
  "keeps X w m \<Longrightarrow> (\<And>a b c w'. keeps X w' (g a b c w')) \<Longrightarrow> keeps X w (m \<bind> (\<lambda>((a, b, c), w'). g a b c w'))"
  using keeps_bind1 [of X w m "\<lambda>(a, b, c) w'. g a b c w'"] by (simp add: case_prod_unfold)

lemma keeps_value: "(\<And>x. keeps X w (f x)) \<Longrightarrow> keeps X w (m \<bind> f)"
  unfolding keeps_def by (auto simp: bind_eq_Some_conv)

lemma keeps_return: "keeps X w (Some (x, w))"
  by (simp add: keeps_def)

lemma keeps_None: "keeps X w None"
  by (simp add: keeps_def)

lemma keeps_if: "keeps X w a \<Longrightarrow> keeps X w b \<Longrightarrow> keeps X w (if c then a else b)"
  by simp

lemma keeps_let: "(\<And>y. keeps X w (f y)) \<Longrightarrow> keeps X w (let x = y in f x)"
  by simp

lemma keeps_option:
  "keeps X w a \<Longrightarrow> (\<And>y. keeps X w (f y)) \<Longrightarrow> keeps X w (case m of None \<Rightarrow> a | Some y \<Rightarrow> f y)"
  by (cases m) simp_all

lemma keeps_set: "exec_law X \<Longrightarrow> keeps X w (xSet X r tx p v w)"
  unfolding keeps_def using xSet_step by blast

lemma keeps_get: "exec_law X \<Longrightarrow> keeps X w (xGet X r tx p w)"
  unfolding keeps_def using xGet_step by blast

lemma keeps_do: "exec_law X \<Longrightarrow> keeps X w (xDo X r tx p w)"
  unfolding keeps_def using xDo_step by blast

lemma keeps_alloc: "keeps X (this, h) (Some (x, (this, snd (alloc c h))))"
  using storeStep_alloc [of X this h c] by (simp add: keeps_def)

lemma keeps_resolve:
  "exec_law X \<Longrightarrow> actOk X act \<Longrightarrow> keeps X w (ResolveCellForRead X tx path T act cached w)"
  unfolding keeps_def using ResolveCellForRead_ok [of X w act tx path T cached] by auto

lemmas keeps_rules = keeps_bind3 keeps_bind2 keeps_bind1 keeps_return keeps_None keeps_option keeps_if
  keeps_let keeps_set keeps_get keeps_do keeps_resolve actOk_simps

lemma keeps_exists:
  assumes "exec_law X" "actOk X act"
  shows "keeps X w (ExistsInParent X tx path act w)"
proof -
  obtain pp s where p: "GetParentPath path = (pp, s)" by fastforce
  show ?thesis
    unfolding ExistsInParent_def p Let_def prod.case using assms
    by (intro keeps_if keeps_return keeps_bind3 keeps_option keeps_resolve keeps_None keeps_value) auto
qed

lemma keeps_readcell:
  assumes "exec_law X" "actOk X act"
  shows "keeps X w (ReadCell X tx path T act w)"
  unfolding ReadCell_def
proof (rule keeps_bind1 [OF keeps_exists [OF assms]], rule keeps_if)
  show "keeps X w' (case w' of (this, h) \<Rightarrow>
      let (r, h') = alloc (xInit X tx path 0 0 0 None False) h in Some ((None, r, Some (xNotInParent X)), this, h'))" for w'
    by (cases w') (simp add: case_prod_unfold keeps_alloc)
qed (rule keeps_resolve [OF assms])

lemma keeps_read: "exec_law X \<Longrightarrow> keeps X w (Read X tx path T w)"
  unfolding Read_def
  by (intro keeps_bind3 keeps_readcell keeps_value keeps_bind1 keeps_get keeps_return actOk_simps)

lemma keeps_diffsize: "exec_law X \<Longrightarrow> keeps X w (DiffSize X tx path v w)"
  unfolding DiffSize_def Let_def
  by (intro keeps_bind3 keeps_readcell keeps_value keeps_return actOk_simps)

lemma keeps_inject: "exec_law X \<Longrightarrow> keeps X w (Inject X tx path v w)"
  unfolding Inject_def
  by (intro keeps_bind3 keeps_resolve keeps_bind1 keeps_set keeps_return actOk_simps)

lemma keeps_blockbound:
  "exec_law X \<Longrightarrow> keeps X w (Some (x, (fst w, upd r (xSetBlockBound X b) (snd w))))"
  using storeStep_upd [of X "xSetBlockBound X b" "snd w" r "fst w"]
  by (simp add: keeps_def exec_law_simps)

lemma keeps_step: "storeStep X w w' \<Longrightarrow> keeps X w' m \<Longrightarrow> keeps X w m"
  unfolding keeps_def using storeStep_trans storeStep_wf by blast

lemma keeps_updateparent: "exec_law X \<Longrightarrow> keeps X w (updateParentMeta X tx path pp r w)"
  unfolding updateParentMeta_def
  by (intro keeps_if keeps_bind2 keeps_bind3 keeps_bind1 keeps_resolve keeps_set keeps_return keeps_readcell
      keeps_option keeps_blockbound keeps_None actOk_simps)

lemma keeps_writecell:
  assumes "exec_law X"
  shows "keeps X w (writeCell X tx path value w)"
proof -
  obtain this h where w: "w = (this, h)" by fastforce
  obtain pp s where p: "GetParentPath path = (pp, s)" by fastforce
  define r h0 where "r = fst (alloc (xNew X tx path 0 1 0 value) h)" and "h0 = snd (alloc (xNew X tx path 0 1 0 value) h)"
  then have a: "alloc (xNew X tx path 0 1 0 value) h = (r, h0)" by (simp only: prod.collapse)
  have "storeStep X w (this, h0)" unfolding w h0_def by (rule storeStep_alloc)
  moreover have "keeps X (this, h0) (writeCell X tx path value w)"
    unfolding writeCell_def w p a Let_def prod.case
    by (intro keeps_if keeps_bind2 keeps_bind3 keeps_bind1 keeps_resolve keeps_set keeps_return
        keeps_updateparent actOk_simps assms)
  ultimately show ?thesis by (rule keeps_step)
qed

lemma keeps_write: "exec_law X \<Longrightarrow> keeps X w (Write X tx path v None w)"
  unfolding Write_def option.case
  by (intro keeps_if keeps_return keeps_bind2 keeps_writecell keeps_bind1 keeps_diffsize) (simp_all add: keeps_return)

lemma keeps_getkey: "exec_law X \<Longrightarrow> keeps X w (getKeyByIdx X tx path idx w)"
proof -
  assume X: "exec_law X"
  have "keeps X w' (Some (case y of Some (k # ks) \<Rightarrow> ((Some (path @ k # ks), d, None), w')
      | _ \<Rightarrow> ((None, d, Some ''Error: Exceeded the length of the path !!!''), w')))" for w' d and y :: "string option"
    by (cases y; simp add: keeps_return split: list.split)
  then show ?thesis unfolding getKeyByIdx_def
    by (intro keeps_if keeps_return keeps_bind3 keeps_read keeps_value keeps_None X)
qed

lemma keeps_popback: "exec_law X \<Longrightarrow> keeps X w (PopBack X tx path T w)"
  unfolding PopBack_def
  by (intro keeps_if keeps_return keeps_bind3 keeps_read keeps_value keeps_None keeps_option keeps_bind2 keeps_write)

lemma keeps_readat: "exec_law X \<Longrightarrow> keeps X w (ReadAt X tx path idx T w)"
proof -
  assume X: "exec_law X"
  have "keeps X w' (case (e, key) of
       (None, Some k) \<Rightarrow> do { ((v, _, g), w2) \<leftarrow> Read X tx k T w'; Some ((v, d + g, None), w2) }
     | _ \<Rightarrow> Some ((None, d, e), w'))" for w' and d :: u64 and e :: err and key
    by (cases e; cases key) (simp_all add: keeps_return, intro keeps_bind3 keeps_read keeps_return X)
  then show ?thesis unfolding ReadAt_def by (intro keeps_bind3 keeps_getkey X)
qed

lemma keeps_writeat: "exec_law X \<Longrightarrow> keeps X w (WriteAt X tx path idx T w)"
  unfolding WriteAt_def
  by (intro keeps_if keeps_return keeps_bind3 keeps_getkey keeps_value keeps_bind2 keeps_write)

end
