(* ===== verification/ExecStoreProps.thy ===== *)
theory ExecStoreProps
  imports ExecStore
begin

text \<open>
  Properties of the ExecutionStateStore: what a write makes visible to later reads, the error branch of a write, the size
  it reports, the behaviour of the container operations on a missing path, and the creation of accounts.
\<close>

section \<open>What a write leaves behind\<close>

lemma updateParentMeta_ref: "updateParentMeta X tx path pp r w = Some ((r', e), w') \<Longrightarrow> r' = r"
  by (auto simp: updateParentMeta_def bind_eq_Some_conv split: if_splits option.splits)

lemma Has_alloc: "storeWf X (this, h) \<Longrightarrow> Has X q (this, snd (alloc c h)) = Has X q (this, h)"
  by (auto simp: Has_def storeWf_def split: option.splits)

lemma writeCell_files:
  assumes "exec_law X" "storeWf X w" "\<not> isWildcard p" "Has X (fst (GetParentPath p)) w \<or> tx = SYSTEM"
    and "writeCell X tx p v w = Some ((r, e), w')"
  shows "localCells (fst w') p = Some r \<and> storeWf X w'"
proof -
  obtain this h where w: "w = (this, h)" by fastforce
  obtain pp s where pp: "GetParentPath p = (pp, s)" by fastforce
  define hn where "hn = snd (alloc (xNew X tx p 0 1 0 v) h)"
  let ?w0 = "(this, hn)"
  have a: "alloc (xNew X tx p 0 1 0 v) h = (nextRef h, hn)" by (simp add: alloc_def hn_def)
  have step0: "storeStep X w ?w0" unfolding w hn_def by (rule storeStep_alloc)
  have wf0: "storeWf X ?w0" using storeStep_wf [OF step0 assms(2)] .
  have guard: "Has X pp ?w0 \<or> tx = SYSTEM" using assms(2,4) unfolding w pp fst_conv hn_def by (simp add: Has_alloc)
  obtain r1 e1 w1 where res: "ResolveCellForRead X tx p v (Some (addToLocalCache X)) True ?w0 =
      Some ((valueAt (xCell X) (snd w1) r1, r1, e1), w1)" "storeStep X ?w0 w1" "localCells (fst w1) p = Some r1"
    using ResolveCellForRead_ok [OF assms(1) wf0, of "Some (addToLocalCache X)"] by fastforce
  obtain e2 w2 where set: "xSet X r1 tx p v w1 = Some (e2, w2)"
    and rest: "(if e2 = None then updateParentMeta X tx p pp r1 w2 else Some ((r1, e2), w2)) = Some ((r, e), w')"
    using assms(5) guard assms(3) res(1) unfolding writeCell_def w pp
    by (auto simp: Let_def bind_eq_Some_conv a)
  have wf2: "storeWf X w2" and l2: "localCells (fst w2) p = Some r1"
    using xSet_step [OF assms(1) set] res(2,3) wf0 storeStep_wf storeStep_local by blast+
  show ?thesis
  proof (cases "e2 = None")
    case True
    then have u: "updateParentMeta X tx p pp r1 w2 = Some ((r, e), w')" using rest by simp
    have "storeStep X w2 w'" using keepsD [OF keeps_updateparent [OF assms(1)] wf2 u] .
    then show ?thesis using updateParentMeta_ref [OF u] l2 wf2 storeStep_local storeStep_wf by blast
  next
    case False
    then show ?thesis using rest l2 wf2 by auto
  qed
qed

lemma Write_cases:
  assumes "Write X tx p v None w = Some ((d, e), w')" "\<And>x. v = Some x \<Longrightarrow> xTypeID X x \<noteq> 0"
  obtains r w1 where "writeCell X tx p v w = Some ((r, e), w1)" "DiffSize X tx p v w1 = Some (d, w')"
  using assms by (auto simp: Write_def bind_eq_Some_conv split: option.splits if_splits)

lemma Write_files:
  assumes "exec_law X" "storeWf X w" "\<not> isWildcard p" "Has X (fst (GetParentPath p)) w \<or> tx = SYSTEM"
    and "Write X tx p v None w = Some ((d, e), w')" "\<And>x. v = Some x \<Longrightarrow> xTypeID X x \<noteq> 0"
  obtains r w1 where "writeCell X tx p v w = Some ((r, e), w1)" "DiffSize X tx p v w1 = Some (d, w')"
    "localCells (fst w1) p = Some r" "localCells (fst w') p = Some r" "storeWf X w1" "storeStep X w1 w'"
proof -
  obtain r w1 where 1: "writeCell X tx p v w = Some ((r, e), w1)" "DiffSize X tx p v w1 = Some (d, w')"
    using Write_cases [OF assms(5,6)] by blast
  have 2: "localCells (fst w1) p = Some r" "storeWf X w1"
    using writeCell_files [OF assms(1-4) 1(1)] by simp_all
  have 3: "storeStep X w1 w'" using keepsD [OF keeps_diffsize [OF assms(1)] 2(2) 1(2)] .
  show ?thesis using that [OF 1 2(1) storeStep_local [OF 3 2(1)] 2(2) 3] .
qed

text \<open>
  For a path whose parent needs no membership record, the size a write reports is the size of
  the new value minus the size of what the cell holds after the write: it is zero whenever the
  cell has taken the new value, whatever it held before.
\<close>
theorem Write_reports_size_after_write:
  assumes "exec_law X" "storeWf X w" "\<not> isWildcard p" "Has X (fst (GetParentPath p)) w \<or> tx = SYSTEM"
    and "Write X tx p (Some v) None w = Some ((d, e), w')" "xTypeID X v \<noteq> 0"
    and "IsImmediateChildOfSysPath (stPlatform (fst w)) p"
  shows "\<exists>r. localCells (fst w') p = Some r \<and>
    (\<forall>x. valueAt (xCell X) (snd w') r = Some x \<longrightarrow> d = xMemSize X v - xMemSize X x)"
proof -
  obtain r w1 where 1: "writeCell X tx p (Some v) w = Some ((r, e), w1)" "DiffSize X tx p (Some v) w1 = Some (d, w')"
    "localCells (fst w1) p = Some r" "localCells (fst w') p = Some r"
    using Write_files [OF assms(1-5)] assms(6) by (metis option.inject)
  have "stPlatform (fst w1) = stPlatform (fst w)"
    using keepsD [OF keeps_writecell [OF assms(1)] assms(2) 1(1)] by (simp add: storeStep_def)
  then have "ExistsInParent X tx p None w1 = Some (True, w1)"
    using assms(7) by (simp add: ExistsInParent_def)
  then have rd: "ReadCell X tx p (Some v) None w1 = Some ((valueAt (xCell X) (snd w1) r, r, None), w1)"
    using 1(3) by (cases w1) (simp add: ReadCell_def ResolveCellForRead_def)
  then have "w' = w1" "\<And>x. valueAt (xCell X) (snd w1) r = Some x \<Longrightarrow> d = xMemSize X v - xMemSize X x"
    using 1(2) by (auto simp: DiffSize_def sizeOf_def bind_eq_Some_conv split: option.splits if_splits)
  then show ?thesis using 1(4) by auto
qed

section \<open>Lookups without side effects\<close>

text \<open>The value a lookup finds when no wildcard is pending.\<close>

definition lookupValue :: "('v, 'c, 'm) exec_api \<Rightarrow> ('v, 'c) world \<Rightarrow> string \<Rightarrow> 'v option \<Rightarrow> 'v option" where
  "lookupValue X w p T =
     (case localCells (fst w) p of
        Some r \<Rightarrow> valueAt (xCell X) (snd w) r
      | None \<Rightarrow> (case committedStore (fst w) of None \<Rightarrow> None | Some cs \<Rightarrow> fst (csGetAs cs p T)))"

text \<open>Two states with the same store object and the same cells in use.\<close>

definition sameStore :: "('v, 'c) world \<Rightarrow> ('v, 'c) world \<Rightarrow> bool" where
  "sameStore w w' \<longleftrightarrow> fst w' = fst w \<and> nextRef (snd w) \<le> nextRef (snd w') \<and>
     (\<forall>r < nextRef (snd w). cellAt (snd w') r = cellAt (snd w) r)"

lemma sameStore_refl [simp]: "sameStore w w"
  by (simp add: sameStore_def)

lemma sameStore_trans: "sameStore w w' \<Longrightarrow> sameStore w' w'' \<Longrightarrow> sameStore w w''"
  by (auto simp: sameStore_def)

lemma sameStore_alloc: "sameStore (this, h) (this, snd (alloc c h))"
  by (simp add: sameStore_def)

lemma sameStore_wf: "sameStore w w' \<Longrightarrow> storeWf X w \<Longrightarrow> storeWf X w'"
  unfolding sameStore_def storeWf_def by (metis order.strict_trans2)

lemma sameStore_lookup: "sameStore w w' \<Longrightarrow> storeWf X w \<Longrightarrow> lookupValue X w' p T = lookupValue X w p T"
  by (auto simp: sameStore_def storeWf_def lookupValue_def split: option.splits)

lemma Resolve_plain:
  assumes "exec_law X" "pendingWildcardDeletes (fst w) = []"
  shows "\<exists>r e w'. ResolveCellForRead X tx p T None c w = Some ((lookupValue X w p T, r, e), w') \<and> sameStore w w'"
proof -
  obtain this h where w: "w = (this, h)" by fastforce
  obtain r e w' where g: "getFromCommitted X tx p T (this, h) = ((r, e), w')" by (metis prod.exhaust)
  note ok = getFromCommitted_ok [OF assms(1) g]
  then have "sameStore (this, h) w'" by (auto simp: sameStore_def storeStep_def)
  moreover have "valueAt (xCell X) (snd w') r =
      (case committedStore this of None \<Rightarrow> None | Some cs \<Rightarrow> fst (csGetAs cs p T))" using ok by blast
  then have "localCells this p = None \<Longrightarrow>
      ResolveCellForRead X tx p T None c w = Some ((lookupValue X w p T, r, e), w')"
    using g assms(2) by (simp add: ResolveCellForRead_def ResolveWildcardDeletion_def w lookupValue_def)
  moreover have "localCells this p = Some q \<Longrightarrow>
      ResolveCellForRead X tx p T None c w = Some ((lookupValue X w p T, q, None), w)" for q
    by (simp add: ResolveCellForRead_def w lookupValue_def)
  ultimately show ?thesis unfolding w by (metis option.exhaust sameStore_refl)
qed

text \<open>A committed store has no value for a path it does not have, and stores typed values.\<close>

definition cs_law :: "('v, 'c, 'm) exec_api \<Rightarrow> 'v ReadOnlyStore option \<Rightarrow> bool" where
  "cs_law X cs \<longleftrightarrow>
     (case cs of None \<Rightarrow> True
      | Some s \<Rightarrow> (\<forall>p T. \<not> csHas s p \<longrightarrow> fst (csGetAs s p T) = None) \<and>
          (\<forall>p T v. fst (csGetAs s p T) = Some v \<longrightarrow> isCRDT (xCell X) v))"

definition typedStore :: "('v, 'c, 'm) exec_api \<Rightarrow> ('v, 'c) world \<Rightarrow> bool" where
  "typedStore X w \<longleftrightarrow> cs_law X (committedStore (fst w)) \<and>
     (\<forall>p r. localCells (fst w) p = Some r \<longrightarrow> typedAt (xCell X) (snd w) r)"

lemma typedStore_size: "typedStore X w \<Longrightarrow> sizeOf X (lookupValue X w p T) \<noteq> None"
  by (auto simp: typedStore_def cs_law_def sizeOf_def lookupValue_def typedAt_def split: option.splits)

lemma not_Has_lookup:
  "typedStore X w \<Longrightarrow> \<not> Has X p w \<Longrightarrow> lookupValue X w p T = None"
  by (cases w) (auto simp: Has_def typedStore_def cs_law_def lookupValue_def split: option.splits if_splits)

lemma ReadCell_plain_orphan:
  assumes "exec_law X" "storeWf X w" "pendingWildcardDeletes (fst w) = []"
    and "lookupValue X w (fst (GetParentPath p)) (Some (xNewPath X)) = None"
  shows "\<exists>v r e w'. ReadCell X tx p T None w = Some ((v, r, e), w') \<and> sameStore w w' \<and>
    (v = None \<or> v = lookupValue X w p T)"
proof (cases "IsImmediateChildOfSysPath (stPlatform (fst w)) p")
  case True
  then have "ExistsInParent X tx p None w = Some (True, w)" by (simp add: ExistsInParent_def)
  moreover obtain r e w' where "ResolveCellForRead X tx p T None True w = Some ((lookupValue X w p T, r, e), w')"
    "sameStore w w'"
    using Resolve_plain [OF assms(1,3)] by blast
  ultimately show ?thesis by (auto simp: ReadCell_def)
next
  case False
  obtain r e this h where p: "ResolveCellForRead X tx (fst (GetParentPath p)) (Some (xNewPath X)) None True w =
      Some ((None, r, e), (this, h))" "sameStore w (this, h)"
    using Resolve_plain [OF assms(1,3)] assms(4) by (metis prod.exhaust)
  then have "ExistsInParent X tx p None w = Some (False, (this, h))"
    using False by (simp add: ExistsInParent_def case_prod_unfold)
  then have "ReadCell X tx p T None w =
      Some ((None, nextRef h, Some (xNotInParent X)), (this, snd (alloc (xInit X tx p 0 0 0 None False) h)))"
    by (simp add: ReadCell_def alloc_def)
  moreover have "sameStore w (this, snd (alloc (xInit X tx p 0 0 0 None False) h))"
    using p(2) sameStore_alloc sameStore_trans by metis
  ultimately show ?thesis by blast
qed

text \<open>
  C25. A write below a path that does not exist is refused for every transaction but SYSTEM: the
  write returns the error that names both paths, no local cell is added, and no existing cell and
  nothing else of the store changes.
\<close>
theorem Write_refused:
  assumes "exec_law X" "storeWf X w" "typedStore X w" "pendingWildcardDeletes (fst w) = []"
    and "\<not> Has X (fst (GetParentPath p)) w" "tx \<noteq> SYSTEM" "\<And>x. v = Some x \<Longrightarrow> xTypeID X x \<noteq> 0"
  shows "\<exists>d w'. Write X tx p v None w =
      Some ((d, Some (''Error: The parent path '' @ fst (GetParentPath p) @ '' doesn't exist for '' @ p)), w') \<and>
    sameStore w w'"
proof -
  obtain this h where w: "w = (this, h)" by fastforce
  obtain pp s where pp: "GetParentPath p = (pp, s)" by fastforce
  define hn where "hn = snd (alloc (xNew X tx p 0 1 0 v) h)"
  let ?w0 = "(this, hn)"
  have a: "alloc (xNew X tx p 0 1 0 v) h = (nextRef h, hn)" by (simp add: alloc_def hn_def)
  have ss: "sameStore w ?w0" unfolding w hn_def by (rule sameStore_alloc)
  have "\<not> Has X pp ?w0" using assms(2,5) unfolding w pp fst_conv hn_def by (simp add: Has_alloc)
  then have wr: "writeCell X tx p v w =
      Some ((nextRef h, Some (''Error: The parent path '' @ pp @ '' doesn't exist for '' @ p)), ?w0)"
    using assms(6) by (simp add: writeCell_def w pp a)
  have none: "lookupValue X ?w0 (fst (GetParentPath p)) (Some (xNewPath X)) = None"
    using not_Has_lookup [OF assms(3,5)] sameStore_lookup [OF ss assms(2)] by simp
  obtain u r e w' where rd: "ReadCell X tx p v None ?w0 = Some ((u, r, e), w')" "sameStore ?w0 w'"
    "u = None \<or> u = lookupValue X ?w0 p v"
    using ReadCell_plain_orphan [OF assms(1) sameStore_wf [OF ss assms(2)] _ none] assms(4) w by fastforce
  have "sizeOf X u \<noteq> None"
    using rd(3) typedStore_size [OF assms(3), of p v] sameStore_lookup [OF ss assms(2)] by (auto simp: sizeOf_def)
  then obtain d where "DiffSize X tx p v ?w0 = Some (d, w')"
    using rd(1) by (auto simp: DiffSize_def)
  moreover have "sameStore w w'" using ss rd(2) by (rule sameStore_trans)
  moreover have "\<not> (case v of None \<Rightarrow> False | Some x \<Rightarrow> xTypeID X x = 0)"
    using assms(7) by (simp split: option.split)
  ultimately have "Write X tx p v None w =
      Some ((d, Some (''Error: The parent path '' @ pp @ '' doesn't exist for '' @ p)), w')"
    using wr by (simp add: Write_def)
  then show ?thesis using \<open>sameStore w w'\<close> by (simp add: pp)
qed

section \<open>Lookups that file the cell\<close>

lemma Resolve_add:
  assumes "exec_law X" "storeWf X w" "pendingWildcardDeletes (fst w) = []"
  shows "\<exists>r e w'. ResolveCellForRead X tx p T (Some (addToLocalCache X)) c w = Some ((lookupValue X w p T, r, e), w') \<and>
    fst w' = (fst w)\<lparr>localCells := (localCells (fst w))(p \<mapsto> r)\<rparr> \<and> nextRef (snd w) \<le> nextRef (snd w') \<and>
    (\<forall>q < nextRef (snd w). cellAt (snd w') q = cellAt (snd w) q) \<and>
    r < nextRef (snd w') \<and> pathAt (xCell X) (snd w') r = Some p \<and>
    valueAt (xCell X) (snd w') r = lookupValue X w p T \<and>
    (case localCells (fst w) p of None \<Rightarrow> nextRef (snd w) \<le> r | Some q \<Rightarrow> q = r)"
proof -
  obtain this h where w: "w = (this, h)" by fastforce
  show ?thesis
  proof (cases "localCells this p")
    case None
    obtain r e w' where g: "getFromCommitted X tx p T (this, h) = ((r, e), w')" by (metis prod.exhaust)
    note ok = getFromCommitted_ok [OF assms(1) g]
    obtain h' where w': "w' = (this, h')" using ok by (cases w') auto
    have val: "valueAt (xCell X) h' r = lookupValue X w p T" "pathAt (xCell X) h' r = Some p" "r < nextRef h'"
      "nextRef h \<le> nextRef h'" "\<forall>q < nextRef h. cellAt h' q = cellAt h q" "nextRef h \<le> r"
      using ok None by (auto simp: w w' lookupValue_def storeStep_def)
    have "ResolveCellForRead X tx p T (Some (addToLocalCache X)) c w =
        Some ((lookupValue X w p T, r, e), (this\<lparr>localCells := (localCells this)(p \<mapsto> r)\<rparr>, h'))"
      using None g val assms(3)
      by (simp add: ResolveCellForRead_def ResolveWildcardDeletion_def w w' addToLocalCache_def)
    then show ?thesis using val None by (auto simp: w)
  next
    case (Some r)
    then have "this\<lparr>localCells := (localCells this)(p \<mapsto> r)\<rparr> = this" by (simp add: fun_upd_idem)
    then show ?thesis using Some assms(2)
      by (auto simp: ResolveCellForRead_def w lookupValue_def storeWf_def)
  qed
qed

section \<open>What a write makes visible\<close>

text \<open>\<open>StateCell.Set\<close> of a value, as opposed to a deletion, changes its own cell and no other; under the cell's own path it
  leaves the value \<open>f old v\<close>, where \<open>f\<close> is the rule of the value's CRDT type (replacing, adding).\<close>

definition set_law :: "('v, 'c, 'm) exec_api \<Rightarrow> ('v option \<Rightarrow> 'v \<Rightarrow> 'v) \<Rightarrow> bool" where
  "set_law X f \<longleftrightarrow> (\<forall>r tx p v w e w'. xSet X r tx p (Some v) w = Some (e, w') \<longrightarrow>
     (\<forall>q < nextRef (snd w). q \<noteq> r \<longrightarrow> cellAt (snd w') q = cellAt (snd w) q) \<and>
     (e = None \<and> pathAt (xCell X) (snd w) r = Some p \<longrightarrow>
        valueAt (xCell X) (snd w') r = Some (f (valueAt (xCell X) (snd w) r) v)))"

lemma ReadCell_plain:
  assumes "exec_law X" "pendingWildcardDeletes (fst w) = []" "ReadCell X tx p T None w = Some (res, w')"
  shows "sameStore w w'"
proof -
  obtain ex w1 where e1: "ExistsInParent X tx p None w = Some (ex, w1)" using assms(3) by (auto simp: ReadCell_def bind_eq_Some_conv)
  have 1: "sameStore w w1"
  proof (cases "IsImmediateChildOfSysPath (stPlatform (fst w)) p")
    case True
    then show ?thesis using e1 by (simp add: ExistsInParent_def)
  next
    case False
    obtain pp s where pp: "GetParentPath p = (pp, s)" by fastforce
    obtain r e w2 where "ResolveCellForRead X tx pp (Some (xNewPath X)) None True w =
        Some ((lookupValue X w pp (Some (xNewPath X)), r, e), w2)" "sameStore w w2"
      using Resolve_plain [OF assms(1,2)] by blast
    moreover from this have "w1 = w2"
      using e1 False by (auto simp: ExistsInParent_def pp bind_eq_Some_conv split: option.splits if_splits)
    ultimately show ?thesis by simp
  qed
  then have "pendingWildcardDeletes (fst w1) = []" using assms(2) by (simp add: sameStore_def)
  then obtain r e w2 where 2: "ResolveCellForRead X tx p T None True w1 = Some ((lookupValue X w1 p T, r, e), w2)" "sameStore w1 w2"
    using Resolve_plain [OF assms(1)] by blast
  have "w' = w2 \<or> (\<exists>c. w' = (fst w1, snd (alloc c (snd w1))))"
    using assms(3) e1 2(1) by (cases w1) (auto simp: ReadCell_def alloc_def split: if_splits)
  then show ?thesis using 1 2(2) sameStore_trans sameStore_alloc by (metis prod.collapse)
qed

lemma updateParentMeta_value:
  assumes "exec_law X" "set_law X f" "storeWf X w" "pendingWildcardDeletes (fst w) = []" "localCells (fst w) p = Some r" "pp \<noteq> p"
    and "valueAt (xCell X) (snd w) r = Some x" "updateParentMeta X tx p pp r w = Some ((r', e), w')"
  shows "valueAt (xCell X) (snd w') r = Some x \<and> storeStep X w w'"
proof -
  have r: "r < nextRef (snd w)" "pathAt (xCell X) (snd w) r = Some p" using assms(3,5) by (simp_all add: storeWf_def)
  obtain e2 w2 where meta: "(if IsContainerPath pp \<or> \<not> IsSysPath (stPlatform (fst w)) pp \<and> tx \<noteq> SYSTEM
        then do {
          ((_, pm, _), w2) \<leftarrow> ResolveCellForRead X tx pp (Some (xNewPath X)) (Some (addToLocalCache X)) True w;
          xSet X pm tx p (valueAt (xCell X) (snd w2) r) w2 } else Some (None, w)) = Some (e2, w2)"
    and rest: "(if IsContainerPath pp
     then do {
       ((pathMeta, _, e), w3) \<leftarrow> ReadCell X tx pp (Some (xNewPath X)) None w2;
       case pathMeta of None \<Rightarrow> Some ((r, e), w3)
       | Some m \<Rightarrow> if kindOf (xCodec X) m = CPath
           then Some ((r, e), (fst w3, upd r (xSetBlockBound X (xPathIsBlockBound X m)) (snd w3))) else None }
     else Some ((r, e2), w2)) = Some ((r', e), w')"
    using assms(8) unfolding updateParentMeta_def by (auto simp: bind_eq_Some_conv)
  have 2: "valueAt (xCell X) (snd w2) r = Some x \<and> storeStep X w w2 \<and> pendingWildcardDeletes (fst w2) = []"
  proof (cases "IsContainerPath pp \<or> \<not> IsSysPath (stPlatform (fst w)) pp \<and> tx \<noteq> SYSTEM")
    case False
    have "w2 = w" using meta [unfolded if_not_P [OF False]] by simp
    then show ?thesis using assms(4,7) by simp
  next
    case True
    obtain v1 pm e1 w1 where res: "ResolveCellForRead X tx pp (Some (xNewPath X)) (Some (addToLocalCache X)) True w = Some ((v1, pm, e1), w1)"
      and 1: "\<forall>q < nextRef (snd w). cellAt (snd w1) q = cellAt (snd w) q" "nextRef (snd w) \<le> nextRef (snd w1)"
        "pathAt (xCell X) (snd w1) pm = Some pp" "fst w1 = (fst w)\<lparr>localCells := (localCells (fst w))(pp \<mapsto> pm)\<rparr>"
      using Resolve_add [OF assms(1,3,4)] by blast
    have set: "xSet X pm tx p (Some x) w1 = Some (e2, w2)" using meta [unfolded if_P [OF True]] res 1(1) r(1) assms(7) by simp
    have "pm \<noteq> r" using 1(1,3) r assms(6) by auto
    moreover have "r < nextRef (snd w1)" using r(1) 1(2) by simp
    ultimately have "cellAt (snd w2) r = cellAt (snd w) r" using assms(2) set 1(1) r(1) unfolding set_law_def by metis
    moreover have "storeStep X w w1" using keepsD [OF keeps_resolve [OF assms(1) actOk_simps(2)] assms(3) res] .
    moreover have "storeStep X w1 w2" using xSet_step [OF assms(1) set] .
    moreover have "pendingWildcardDeletes (fst w2) = []" using \<open>storeStep X w1 w2\<close> 1(4) assms(4) by (simp add: storeStep_def)
    ultimately show ?thesis using assms(7) storeStep_trans by metis
  qed
  have r2: "r < nextRef (snd w2)" using 2 r(1) by (simp add: storeStep_def)
  have "valueAt (xCell X) (snd w') r = Some x"
  proof (cases "IsContainerPath pp")
    case False
    then show ?thesis using rest 2 by simp
  next
    case True
    then obtain res w3 where rd: "ReadCell X tx pp (Some (xNewPath X)) None w2 = Some (res, w3)" using rest by (auto simp: bind_eq_Some_conv)
    have "cellAt (snd w3) r = cellAt (snd w2) r" using ReadCell_plain [OF assms(1) _ rd] 2 r2 by (simp add: sameStore_def)
    moreover have "w' = w3 \<or> (\<exists>b. w' = (fst w3, upd r (xSetBlockBound X b) (snd w3)))"
      using rest True rd by (auto split: option.splits if_splits prod.splits)
    ultimately show ?thesis using 2 exec_law_simps(7) [OF assms(1)] by auto
  qed
  moreover have "storeStep X w w'" using keepsD [OF keeps_updateparent [OF assms(1)] assms(3,8)] .
  ultimately show ?thesis by blast
qed

lemma writeCell_value:
  assumes "exec_law X" "set_law X f" "storeWf X w" "pendingWildcardDeletes (fst w) = []" "\<not> isWildcard p" "p \<noteq> []" "p \<noteq> ''/''"
    and "Has X (fst (GetParentPath p)) w \<or> tx = SYSTEM" "writeCell X tx p (Some v) w = Some ((r, None), w')"
  shows "localCells (fst w') p = Some r \<and> valueAt (xCell X) (snd w') r = Some (f (lookupValue X w p (Some v)) v)"
proof -
  obtain this h where w: "w = (this, h)" by fastforce
  obtain pp s where pp: "GetParentPath p = (pp, s)" by fastforce
  have ne: "pp \<noteq> p" using GetParentPath_parts(3) [OF assms(6,7) pp] by auto
  define hn where "hn = snd (alloc (xNew X tx p 0 1 0 (Some v)) h)"
  let ?w0 = "(this, hn)"
  have a: "alloc (xNew X tx p 0 1 0 (Some v)) h = (nextRef h, hn)" by (simp add: alloc_def hn_def)
  have ss: "sameStore w ?w0" unfolding w hn_def by (rule sameStore_alloc)
  have wf0: "storeWf X ?w0" using sameStore_wf [OF ss assms(3)] .
  have guard: "Has X pp ?w0 \<or> tx = SYSTEM" using assms(3,8) unfolding w pp fst_conv hn_def by (simp add: Has_alloc)
  have pend: "pendingWildcardDeletes (fst ?w0) = []" using assms(4) by (simp add: w)
  obtain r1 e1 w1 where res: "ResolveCellForRead X tx p (Some v) (Some (addToLocalCache X)) True ?w0 =
      Some ((lookupValue X ?w0 p (Some v), r1, e1), w1)" "fst w1 = this\<lparr>localCells := (localCells this)(p \<mapsto> r1)\<rparr>"
    "pathAt (xCell X) (snd w1) r1 = Some p" "valueAt (xCell X) (snd w1) r1 = lookupValue X ?w0 p (Some v)"
    using Resolve_add [OF assms(1) wf0 pend, of tx p "Some v" True] by auto
  obtain e2 w2 where set: "xSet X r1 tx p (Some v) w1 = Some (e2, w2)"
    and rest: "(if e2 = None then updateParentMeta X tx p pp r1 w2 else Some ((r1, e2), w2)) = Some ((r, None), w')"
    using assms(9) guard assms(5) res(1) unfolding writeCell_def w pp by (auto simp: Let_def bind_eq_Some_conv a)
  have u: "updateParentMeta X tx p pp r1 w2 = Some ((r, None), w')" "e2 = None" using rest by (auto split: if_splits)
  have val: "valueAt (xCell X) (snd w2) r1 = Some (f (lookupValue X w p (Some v)) v)"
    using assms(2) set u(2) res(3,4) sameStore_lookup [OF ss assms(3)] unfolding set_law_def by metis
  have "storeStep X ?w0 w1" using keepsD [OF keeps_resolve [OF assms(1) actOk_simps(2)] wf0 res(1)] .
  then have step: "storeStep X ?w0 w2" using xSet_step [OF assms(1) set] storeStep_trans by metis
  have l2: "localCells (fst w2) p = Some r1" using storeStep_local [OF xSet_step [OF assms(1) set]] res(2) by simp
  have p2: "pendingWildcardDeletes (fst w2) = []" using step pend by (simp add: storeStep_def)
  have "valueAt (xCell X) (snd w') r1 = Some (f (lookupValue X w p (Some v)) v) \<and> storeStep X w2 w'"
    by (rule updateParentMeta_value [OF assms(1,2) storeStep_wf [OF step wf0] p2 l2 ne val u(1)])
  moreover have "r = r1" using updateParentMeta_ref [OF u(1)] .
  ultimately show ?thesis using storeStep_local [OF _ l2] by blast
qed

text \<open>
  C10. A write of a value that succeeds is visible: afterwards the path is served by a local cell that holds what setting the
  value \<open>v\<close> makes of the value that the path had before, local or committed, so that the path exists. Whatever
  operations of the store come later, short of clearing it and installing other cells, every lookup, by any transaction and with any
  type hint, returns that same cell without consulting the wildcard queue or the committed store and without changing the store;
  as long as only lookups come, it returns that value.
\<close>
theorem Write_visible:
  assumes "exec_law X" "set_law X f" "storeWf X w" "pendingWildcardDeletes (fst w) = []" "\<not> isWildcard p"
    and "Has X (fst (GetParentPath p)) w \<or> tx = SYSTEM" "xTypeID X v \<noteq> 0" "ETH_ACCOUNT_PREFIX_LENGTH < length p"
    and "Write X tx p (Some v) None w = Some ((d, None), w')"
  shows "\<exists>r. localCells (fst w') p = Some r \<and> valueAt (xCell X) (snd w') r = Some (f (lookupValue X w p (Some v)) v) \<and> Has X p w' \<and>
    (\<forall>w'' tx' T act c. storeStep X w' w'' \<longrightarrow>
       ResolveCellForRead X tx' p T act c w'' = Some ((valueAt (xCell X) (snd w'') r, r, None), w'')) \<and>
    (\<forall>w'' tx' T act c. sameStore w' w'' \<longrightarrow>
       ResolveCellForRead X tx' p T act c w'' = Some ((Some (f (lookupValue X w p (Some v)) v), r, None), w''))"
proof -
  have typed: "\<And>x. Some v = Some x \<Longrightarrow> xTypeID X x \<noteq> 0" using assms(7) by simp
  obtain r w1 where 1: "writeCell X tx p (Some v) w = Some ((r, None), w1)" "DiffSize X tx p (Some v) w1 = Some (d, w')"
    "localCells (fst w') p = Some r" "storeWf X w1" "localCells (fst w1) p = Some r"
    using Write_files [OF assms(1,3,5,6,9) typed] by metis
  have ne: "p \<noteq> []" "p \<noteq> ''/''" using assms(8) by (auto simp: account_lengths)
  have v1: "valueAt (xCell X) (snd w1) r = Some (f (lookupValue X w p (Some v)) v)"
    using writeCell_value [OF assms(1-5) ne assms(6) 1(1)] by blast
  have "pendingWildcardDeletes (fst w1) = []" using keepsD [OF keeps_writecell [OF assms(1)] assms(3) 1(1)] assms(4) by (simp add: storeStep_def)
  moreover obtain res where "ReadCell X tx p (Some v) None w1 = Some (res, w')" using 1(2) by (auto simp: DiffSize_def bind_eq_Some_conv)
  ultimately have "sameStore w1 w'" by (rule ReadCell_plain [OF assms(1)])
  then have r: "r < nextRef (snd w')" "valueAt (xCell X) (snd w') r = Some (f (lookupValue X w p (Some v)) v)"
    using 1(4,5) v1 by (simp_all add: sameStore_def storeWf_def) (metis order.strict_trans2)
  have served: "ResolveCellForRead X tx' p T act c w'' = Some ((valueAt (xCell X) (snd w'') r, r, None), w'')"
    if "localCells (fst w'') p = Some r" for w'' tx' T act c
    using that by (cases w'') (simp add: ResolveCellForRead_def)
  have "Has X p w'" using 1(3) r(2) by (cases w') (simp add: Has_def)
  moreover have "localCells (fst w'') p = Some r" if "storeStep X w' w''" for w'' using storeStep_local [OF that 1(3)] .
  moreover have "localCells (fst w'') p = Some r \<and> valueAt (xCell X) (snd w'') r = Some (f (lookupValue X w p (Some v)) v)"
    if "sameStore w' w''" for w'' using that 1(3) r by (simp add: sameStore_def)
  ultimately show ?thesis using 1(3) r(2) served by metis
qed

section \<open>Missing containers\<close>

text \<open>\<open>StateCell.Get\<close> on a cell without a value returns nil.\<close>

definition nil_get_law :: "('v, 'c, 'm) exec_api \<Rightarrow> bool" where
  "nil_get_law X \<longleftrightarrow> (\<forall>r tx p w m w'. valueAt (xCell X) (snd w) r = None \<and> xGet X r tx p w = Some (m, w') \<longrightarrow> m = None)"

lemma ReadCell_missing:
  assumes "exec_law X" "storeWf X w" "pendingWildcardDeletes (fst w) = []" "p \<noteq> []" "p \<noteq> ''/''"
    and "localCells (fst w) p = None" "\<And>U. lookupValue X w p U = None"
    and "ReadCell X tx p T (Some (addToLocalCache X)) w = Some ((v, r, e), w')"
  shows "valueAt (xCell X) (snd w') r = None"
proof -
  obtain ex w1 where e1: "ExistsInParent X tx p (Some (addToLocalCache X)) w = Some (ex, w1)"
    using assms(8) by (auto simp: ReadCell_def bind_eq_Some_conv)
  have step: "storeStep X w w1" using keepsD [OF keeps_exists [OF assms(1)] assms(2) e1] by simp
  have "localCells (fst w1) p = None"
  proof (cases "IsImmediateChildOfSysPath (stPlatform (fst w)) p")
    case True
    then show ?thesis using e1 assms(6) by (auto simp: ExistsInParent_def)
  next
    case False
    obtain pp s where pp: "GetParentPath p = (pp, s)" by fastforce
    have ne: "pp \<noteq> p" using GetParentPath_parts(3) [OF assms(4,5) pp] by auto
    obtain q e2 w2 where "ResolveCellForRead X tx pp (Some (xNewPath X)) (Some (addToLocalCache X)) True w =
        Some ((lookupValue X w pp (Some (xNewPath X)), q, e2), w2)"
      "fst w2 = (fst w)\<lparr>localCells := (localCells (fst w))(pp \<mapsto> q)\<rparr>"
      using Resolve_add [OF assms(1-3)] by blast
    moreover from this have "w1 = w2"
      using e1 False by (auto simp: ExistsInParent_def pp bind_eq_Some_conv split: option.splits if_splits)
    ultimately show ?thesis using assms(6) ne by simp
  qed
  moreover have "committedStore (fst w1) = committedStore (fst w)" using step by (simp add: storeStep_def)
  ultimately have none: "lookupValue X w1 p T = None" using assms(6,7) by (simp add: lookupValue_def)
  have inv1: "storeWf X w1" "pendingWildcardDeletes (fst w1) = []"
    using step assms(2,3) by (auto simp: storeStep_def)
  obtain q e2 w2 where "ResolveCellForRead X tx p T (Some (addToLocalCache X)) True w1 = Some ((None, q, e2), w2)"
    "valueAt (xCell X) (snd w2) q = None"
    using Resolve_add [OF assms(1) inv1, of tx p T True] none by auto
  then show ?thesis using assms(8) e1
    by (cases w1) (auto simp: ReadCell_def alloc_def exec_law_simps [OF assms(1)] split: if_splits)
qed

lemma Read_missing:
  assumes "exec_law X" "nil_get_law X" "storeWf X w" "pendingWildcardDeletes (fst w) = []" "p \<noteq> []" "p \<noteq> ''/''"
    and "localCells (fst w) p = None" "\<And>U. lookupValue X w p U = None"
    and "Read X tx p T w = Some ((m, r, d), w')"
  shows "m = None"
proof -
  obtain v e w1 where rc: "ReadCell X tx p T (Some (addToLocalCache X)) w = Some ((v, r, e), w1)"
    and g: "xGet X r tx p w1 = Some (m, w')"
    using assms(9) by (auto simp: Read_def bind_eq_Some_conv)
  then have "valueAt (xCell X) (snd w1) r = None" using ReadCell_missing [OF assms(1,3-8)] by blast
  then show ?thesis using assms(2) g unfolding nil_get_law_def by blast
qed

text \<open>
  C34. On a container that neither the local cells nor the committed store knows, \<open>PopBack\<close> and the
  lookup of a key by its index panic instead of returning their errors: they use the key set
  before they check it for nil.
\<close>
theorem container_ops_panic_on_missing:
  assumes "exec_law X" "nil_get_law X" "storeWf X w" "pendingWildcardDeletes (fst w) = []"
    and "xIsPath X p" "p \<noteq> []" "p \<noteq> ''/''" "localCells (fst w) p = None" "\<And>U. lookupValue X w p U = None"
  shows "PopBack X tx p T w = None \<and> getKeyByIdx X tx p i w = None \<and> WriteAt X tx p i T w = None"
proof -
  have miss: "Read X tx p U w = None \<or> (\<exists>r d w'. Read X tx p U w = Some ((None, r, d), w'))" for U
    using Read_missing [OF assms(1-4,6-9)] by (metis prod.exhaust option.exhaust)
  have k: "getKeyByIdx X tx p i w = None"
    using miss [of "Some (xNewPath X)"] assms(5) by (auto simp: getKeyByIdx_def)
  moreover have "PopBack X tx p T w = None"
    using miss [of T] assms(5) by (auto simp: PopBack_def)
  ultimately show ?thesis using assms(5) by (simp add: WriteAt_def)
qed

section \<open>Creating accounts on the store\<close>

text \<open>\<open>StateCell.Set\<close> of a typed value on a cell without one stores a typed value in that cell and
  touches nothing else.\<close>

definition fresh_set_law :: "('v, 'c, 'm) exec_api \<Rightarrow> bool" where
  "fresh_set_law X \<longleftrightarrow>
     (\<forall>r tx p v this h. valueAt (xCell X) h r = None \<and> isCRDT (xCell X) v \<longrightarrow>
        (\<exists>c x. xSet X r tx p (Some v) (this, h) = Some (None, (this, upd r (\<lambda>_. c) h)) \<and>
           GetPath (xCell X) c = pathAt (xCell X) h r \<and> Value (xCell X) c = Some x \<and> isCRDT (xCell X) x))"

definition accountInv :: "('v, 'c, 'm) exec_api \<Rightarrow> type_ids \<Rightarrow> ('v, 'c) world \<Rightarrow> bool" where
  "accountInv X T w \<longleftrightarrow> exec_law X \<and> fresh_set_law X \<and> storeWf X w \<and> typedStore X w \<and>
     pendingWildcardDeletes (fst w) = [] \<and> stPlatform (fst w) = NewPlatform T"

lemma sysEntry_not_wildcard: "sysEntry T p \<Longrightarrow> \<not> isWildcard p"
  by (auto simp: sysEntry_def isWildcard_def HasSuffix_def suffix_def)

text \<open>Filing a cell with a typed value under a path that does not exist.\<close>

lemma filed_world:
  assumes "storeWf X w" "typedStore X w" "\<not> Has X p w"
    and "fst w' = (fst w)\<lparr>localCells := (localCells (fst w))(p \<mapsto> r)\<rparr>"
    and "nextRef (snd w) \<le> nextRef (snd w')" "r < nextRef (snd w')"
    and "\<forall>q < nextRef (snd w). q \<noteq> r \<longrightarrow> cellAt (snd w') q = cellAt (snd w) q"
    and "pathAt (xCell X) (snd w') r = Some p" "valueAt (xCell X) (snd w') r = Some x" "isCRDT (xCell X) x"
    and "localCells (fst w) p = None \<longrightarrow> nextRef (snd w) \<le> r"
    and "localCells (fst w) p \<noteq> None \<longrightarrow> localCells (fst w) p = Some r"
  shows "storeWf X w' \<and> typedStore X w' \<and> Has X p w' \<and> (\<forall>q. q \<noteq> p \<longrightarrow> Has X q w' = Has X q w)"
proof -
  have other: "s < nextRef (snd w) \<and> pathAt (xCell X) (snd w) s = Some q \<and> cellAt (snd w') s = cellAt (snd w) s"
    if "localCells (fst w) q = Some s" "q \<noteq> p" for q s
  proof -
    have s: "s < nextRef (snd w)" "pathAt (xCell X) (snd w) s = Some q"
      using assms(1) that(1) by (auto simp: storeWf_def)
    moreover have "s \<noteq> r"
    proof
      assume "s = r"
      then have "localCells (fst w) p = Some r" using s(1) assms(11,12) by (cases "localCells (fst w) p") auto
      then have "pathAt (xCell X) (snd w) r = Some p" using assms(1) by (simp add: storeWf_def)
      then show False using s(2) that(2) \<open>s = r\<close> by simp
    qed
    ultimately show ?thesis using assms(7) by simp
  qed
  have "storeWf X w'"
    using other assms(4-6,8) unfolding storeWf_def by (fastforce split: if_splits)
  moreover have "typedStore X w'"
    using other assms(2,4,9,10) unfolding typedStore_def typedAt_def by (auto split: if_splits)
  moreover have "Has X p w'" using assms(4,9) by (cases w') (auto simp: Has_def)
  moreover have "Has X q w' = Has X q w" if "q \<noteq> p" for q
    using that other [of q] assms(4) by (cases w; cases w') (auto simp: Has_def split: option.splits if_splits)
  ultimately show ?thesis by blast
qed

lemma Write_sysEntry:
  assumes "accountInv X T w" "sysEntry T p" "Has X (fst (GetParentPath p)) w" "\<not> Has X p w"
    and "isCRDT (xCell X) v" "xTypeID X v \<noteq> 0"
  shows "\<exists>d w'. Write X tx p (Some v) None w = Some ((d, None), w') \<and> accountInv X T w' \<and> Has X p w' \<and>
    (\<forall>q. Has X q w \<longrightarrow> Has X q w') \<and> committedStore (fst w') = committedStore (fst w)"
proof -
  obtain this h where w: "w = (this, h)" by fastforce
  obtain pp s where pp: "GetParentPath p = (pp, s)" by fastforce
  have X: "exec_law X" "fresh_set_law X" and inv: "storeWf X w" "typedStore X w" "pendingWildcardDeletes this = []"
    "stPlatform this = NewPlatform T" using assms(1) by (auto simp: accountInv_def w)
  define hn where "hn = snd (alloc (xNew X tx p 0 1 0 (Some v)) h)"
  have a: "alloc (xNew X tx p 0 1 0 (Some v)) h = (nextRef h, hn)" by (simp add: alloc_def hn_def)
  have ss: "sameStore w (this, hn)" unfolding w hn_def by (rule sameStore_alloc)
  have wfn: "storeWf X (this, hn)" by (rule sameStore_wf [OF ss inv(1)])
  have hasn: "Has X pp (this, hn)" using assms(3) inv(1) unfolding w hn_def pp fst_conv by (simp add: Has_alloc)
  have none: "lookupValue X (this, hn) p (Some v) = None"
    using not_Has_lookup [OF inv(2) assms(4)] sameStore_lookup [OF ss inv(1)] by simp
  obtain r e h1 where res: "ResolveCellForRead X tx p (Some v) (Some (addToLocalCache X)) True (this, hn) =
      Some ((None, r, e), (this\<lparr>localCells := (localCells this)(p \<mapsto> r)\<rparr>, h1))"
    "nextRef hn \<le> nextRef h1" "\<forall>q < nextRef hn. cellAt h1 q = cellAt hn q" "r < nextRef h1"
    "pathAt (xCell X) h1 r = Some p" "valueAt (xCell X) h1 r = None"
    "case localCells this p of None \<Rightarrow> nextRef hn \<le> r | Some q \<Rightarrow> q = r"
    using Resolve_add [OF X(1) wfn, of tx p "Some v" True, unfolded fst_conv snd_conv] inv(3) none
    by (auto simp: prod_eq_iff)
  let ?st = "this\<lparr>localCells := (localCells this)(p \<mapsto> r)\<rparr>"
  obtain c x where set: "xSet X r tx p (Some v) (?st, h1) = Some (None, (?st, upd r (\<lambda>_. c) h1))"
    "GetPath (xCell X) c = Some p" "Value (xCell X) c = Some x" "isCRDT (xCell X) x"
    using X(2) res(5,6) assms(5) unfolding fresh_set_law_def by fastforce
  let ?w' = "(?st, upd r (\<lambda>_. c) h1)"
  have sys: "\<not> IsContainerPath pp" "IsSysPath (NewPlatform T) pp" "IsSysPath (NewPlatform T) p"
    using assms(2) by (simp_all add: sysEntry_def pp)
  have wr: "writeCell X tx p (Some v) w = Some ((r, None), ?w')"
    using hasn res(1) set(1) sysEntry_not_wildcard [OF assms(2)] sys inv(4)
    by (simp add: writeCell_def w pp a updateParentMeta_def)
  have "ReadCell X tx p (Some v) None ?w' = Some ((Some x, r, None), ?w')"
    using sys inv(4) set(3) by (simp add: ReadCell_def ExistsInParent_def IsImmediateChildOfSysPath_def ResolveCellForRead_def)
  then have diff: "DiffSize X tx p (Some v) ?w' = Some (xMemSize X v - xMemSize X x, ?w')"
    using set(4) by (simp add: DiffSize_def sizeOf_def)
  have cell: "case localCells this p of None \<Rightarrow> nextRef hn \<le> r | Some q \<Rightarrow> q = r" using res(7) by simp
  have mono: "nextRef h \<le> nextRef hn" "\<forall>q < nextRef h. cellAt hn q = cellAt h q"
    using ss by (simp_all add: sameStore_def w)
  have filed: "storeWf X ?w' \<and> typedStore X ?w' \<and> Has X p ?w' \<and> (\<forall>q. q \<noteq> p \<longrightarrow> Has X q ?w' = Has X q w)"
  proof (rule filed_world [OF inv(1,2) assms(4), where r = r and x = x])
    show "localCells (fst w) p = None \<longrightarrow> nextRef (snd w) \<le> r" "localCells (fst w) p \<noteq> None \<longrightarrow> localCells (fst w) p = Some r"
      using cell mono(1) by (auto simp: w split: option.splits)
    show "\<forall>q < nextRef (snd w). q \<noteq> r \<longrightarrow> cellAt (snd ?w') q = cellAt (snd w) q"
      using res(3) mono by (simp add: w)
  qed (use res set mono in \<open>simp_all add: w\<close>)
  then have "accountInv X T ?w'" using assms(1) by (simp add: accountInv_def w)
  moreover have "Write X tx p (Some v) None w = Some ((xMemSize X v - xMemSize X x, None), ?w')"
    using wr diff assms(6) by (simp add: Write_def)
  moreover have "Has X q ?w'" if "Has X q w" for q using filed that by (cases "q = p") simp_all
  moreover have "committedStore (fst ?w') = committedStore (fst w)" by (simp add: w)
  ultimately show ?thesis using filed by blast
qed

text \<open>Injecting a typed value at a path that does not exist.\<close>

lemma Inject_new:
  assumes "accountInv X T w" "\<not> Has X p w" "isCRDT (xCell X) v"
  shows "\<exists>r w'. Inject X tx p (Some v) w = Some ((r, None), w') \<and> accountInv X T w' \<and> Has X p w' \<and>
    localCells (fst w') = (localCells (fst w))(p \<mapsto> r) \<and> committedStore (fst w') = committedStore (fst w) \<and>
    (\<forall>q. q \<noteq> p \<longrightarrow> Has X q w' = Has X q w)"
proof -
  obtain this h where w: "w = (this, h)" by fastforce
  have X: "exec_law X" "fresh_set_law X" and inv: "storeWf X w" "typedStore X w" "pendingWildcardDeletes this = []"
    using assms(1) by (auto simp: accountInv_def w)
  have none: "lookupValue X (this, h) p (Some v) = None" using not_Has_lookup [OF inv(2) assms(2)] by (simp add: w)
  obtain r e h1 where res: "ResolveCellForRead X tx p (Some v) (Some (addToLocalCache X)) True (this, h) =
      Some ((None, r, e), (this\<lparr>localCells := (localCells this)(p \<mapsto> r)\<rparr>, h1))"
    "nextRef h \<le> nextRef h1" "\<forall>q < nextRef h. cellAt h1 q = cellAt h q" "r < nextRef h1"
    "pathAt (xCell X) h1 r = Some p" "valueAt (xCell X) h1 r = None"
    "case localCells this p of None \<Rightarrow> nextRef h \<le> r | Some q \<Rightarrow> q = r"
    using Resolve_add [OF X(1) inv(1), of tx p "Some v" True, unfolded w fst_conv snd_conv] inv(3) none
    by (auto simp: prod_eq_iff)
  let ?st = "this\<lparr>localCells := (localCells this)(p \<mapsto> r)\<rparr>"
  obtain c x where set: "xSet X r tx p (Some v) (?st, h1) = Some (None, (?st, upd r (\<lambda>_. c) h1))"
    "GetPath (xCell X) c = Some p" "Value (xCell X) c = Some x" "isCRDT (xCell X) x"
    using X(2) res(5,6) assms(3) unfolding fresh_set_law_def by fastforce
  let ?w' = "(?st, upd r (\<lambda>_. c) h1)"
  have "storeWf X ?w' \<and> typedStore X ?w' \<and> Has X p ?w' \<and> (\<forall>q. q \<noteq> p \<longrightarrow> Has X q ?w' = Has X q w)"
  proof (rule filed_world [OF inv(1,2) assms(2), where r = r and x = x])
    show "localCells (fst w) p = None \<longrightarrow> nextRef (snd w) \<le> r" "localCells (fst w) p \<noteq> None \<longrightarrow> localCells (fst w) p = Some r"
      using res(7) by (auto simp: w split: option.splits)
  qed (use res set in \<open>simp_all add: w\<close>)
  moreover from this have "accountInv X T ?w'" using assms(1) by (simp add: accountInv_def w)
  moreover have "Inject X tx p (Some v) w = Some ((r, None), ?w')" using res(1) set(1) by (simp add: Inject_def w)
  ultimately show ?thesis by (intro exI [of _ r] exI [of _ ?w']) (simp add: w)
qed

text \<open>The execution store provides what creating an account needs.\<close>

interpretation es: path_store T "Has X" "\<lambda>tx p v. Write X tx p v None"
  "\<lambda>w. accountInv X T w \<and> committedStore (fst w) = cs" "\<lambda>v. isCRDT (xCell X) v \<and> xTypeID X v \<noteq> 0"
  for X :: "('v, 'c, 'm) exec_api" and T cs
proof (unfold_locales, goal_cases)
  case (1 p s)
  then show ?case by (cases s) (simp add: Has_def)
next
  case (2 tx p v s)
  then show ?case using Write_sysEntry [of X T s p v tx] by auto
qed

lemma CreateDefaultPaths_store:
  assumes "kvs_law KVs" "sort1st_law SortBy1st" "length acct = 42" "CHR ''/'' \<notin> set acct" "accountInv X T w" "ids_law T"
    and "\<forall>t v. defaultValue T iv t = Some v \<longrightarrow> isCRDT (xCell X) v \<and> xTypeID X v \<noteq> 0"
  shows "\<exists>cells w'. CreateDefaultPaths KVs SortBy1st T iv newCell (Has X) (\<lambda>tx p v. Write X tx p v None) tx acct w =
      Some ((cells, None), w') \<and> (accountInv X T w' \<and> committedStore (fst w') = committedStore (fst w)) \<and>
    (\<forall>b \<in> set builtinPaths. Has X (ETH_ACCOUNT_PREFIX @ acct @ b) w') \<and> (\<forall>q. Has X q w \<longrightarrow> Has X q w')"
  by (rule es.CreateDefaultPaths_ok [OF assms(1-4) _ assms(6)]) (use assms(5,7) in auto)

text \<open>
  C11. Creating an account succeeds on every well-formed store, from any mixture of built-in paths
  that already exist and that are missing: no write is refused or panics, all eight built-in paths
  exist afterwards, and no path that existed is lost.
\<close>
theorem CreateDefaultPaths_creates_account:
  assumes "kvs_law KVs" "sort1st_law SortBy1st" "length acct = 42" "CHR ''/'' \<notin> set acct" "ids_law T"
    and "accountInv X T w"
    and "\<And>t v. defaultValue T iv t = Some v \<Longrightarrow> isCRDT (xCell X) v \<and> xTypeID X v \<noteq> 0"
  shows "\<exists>cells w'. CreateDefaultPaths KVs SortBy1st T iv newCell (Has X) (\<lambda>tx p v. Write X tx p v None) tx acct w =
      Some ((cells, None), w') \<and>
    (\<forall>b \<in> set builtinPaths. Has X (ETH_ACCOUNT_PREFIX @ acct @ b) w') \<and> (\<forall>q. Has X q w \<longrightarrow> Has X q w')"
  using CreateDefaultPaths_store [OF assms(1-4,6,5), of iv newCell tx] assms(7) by blast

section \<open>A concrete store\<close>

text \<open>Cells over the values of the codec's concrete library: \<open>Set\<close> replaces the value.\<close>

record xcell =
  xcPath :: "string option"
  xcTx :: u64
  xcVal :: "wval option"
  xcSkip :: bool
  xcBound :: bool

definition xcell_api :: "(xcell, wval) cell_api" where
  "xcell_api = \<lparr>GetPath = xcPath, SetPath = (\<lambda>p. xcPath_update (\<lambda>_. p)), GetTx = xcTx,
     Value = xcVal, SetValue = (\<lambda>v. xcVal_update (\<lambda>_. v)), IfSkipConflictCheck = xcSkip,
     IsBlockBound = xcBound, ApplyDelta = (\<lambda>c cs. (c, None)), isCRDT = (\<lambda>_. True), Preload = (\<lambda>_ v. v),
     RemoveIf = (\<lambda>P xs. (map snd (filter (\<lambda>(i, x). \<not> P i x) (enumerate 0 xs)), xs))\<rparr>"

definition sample_exec :: "(wval, xcell, string list) exec_api" where
  "sample_exec = \<lparr>xCell = xcell_api, xCodec = tagged_codec,
     xInit = (\<lambda>tx p _ _ _ v _. \<lparr>xcPath = Some p, xcTx = tx, xcVal = v, xcSkip = False, xcBound = False\<rparr>),
     xNew = (\<lambda>tx p _ _ _ v. \<lparr>xcPath = Some p, xcTx = tx, xcVal = v, xcSkip = False, xcBound = False\<rparr>),
     xSet = (\<lambda>r tx p v (this, h). Some (None, (this, upd r (\<lambda>c. c\<lparr>xcVal := v\<rparr>) h))),
     xGet = (\<lambda>r tx p (this, h). Some (map_option (\<lambda>_. []) (xcVal (cellAt h r)), (this, h))),
     xCopyTo = (\<lambda>r w. Some w), xIncrementWrites = (\<lambda>_ c. c), xSetBlockBound = (\<lambda>b c. c\<lparr>xcBound := b\<rparr>),
     xDebugSetPreexist = (\<lambda>_ c. c), xPathLookupOnly = (\<lambda>_. False), xIsCommitted = (\<lambda>_. False),
     xMemSize = (\<lambda>_. 8), xTypeID = (\<lambda>_. 1), xPathExists = (\<lambda>_ _. True), xPathIsBlockBound = (\<lambda>_. False),
     xIsDeltaApplied = (\<lambda>_. True), xPathClone = (\<lambda>v. v), xFreshCopy = (\<lambda>v. v), xRawOf = (\<lambda>_. None),
     xNewPath = blank, xIsPath = (\<lambda>p. HasSuffix p ''/''), xValues = (\<lambda>_. []), xMoveIf = (\<lambda>P xs. (filter P xs, filter (\<lambda>x. \<not> P x) xs)),
     xSorter = (\<lambda>_ xs. xs), xIsDeltaSet = (\<lambda>_. True), xIdxOf = (\<lambda>_ _. 0), xViewKeyAt = (\<lambda>_ _. None),
     xDo = (\<lambda>r tx p w. Some (r, w)), xKeyAt = (\<lambda>m i. None), xLast = (\<lambda>m. None),
     xNotInParent = ''not in parent''\<rparr>"

lemma xcell_api_law: "cell_law xcell_api"
  by (simp add: cell_law_def xcell_api_def filter_enumerate)

lemma sample_exec_law: "exec_law sample_exec"
proof -
  have st: "storeStep sample_exec (this, h) (this, upd r (\<lambda>c. c\<lparr>xcVal := v\<rparr>) h)" for this h r v
    by (rule storeStep_upd) (simp add: sample_exec_def xcell_api_def)
  have cells: "xCell sample_exec = xcell_api" by (simp add: sample_exec_def)
  show ?thesis
    unfolding exec_law_def cells using xcell_api_law st
    by (auto simp: sample_exec_def xcell_api_def)
qed

lemma sample_exec_laws: "fresh_set_law sample_exec" "nil_get_law sample_exec"
proof -
  show "fresh_set_law sample_exec"
    unfolding fresh_set_law_def
  proof (intro allI impI, goal_cases)
    case (1 r tx p v this h)
    have "upd r (\<lambda>c. c\<lparr>xcVal := Some v\<rparr>) h = upd r (\<lambda>_. (cellAt h r)\<lparr>xcVal := Some v\<rparr>) h" by (simp add: upd_def)
    then show ?case by (intro exI [of _ "(cellAt h r)\<lparr>xcVal := Some v\<rparr>"] exI [of _ v])
        (simp add: sample_exec_def xcell_api_def)
  qed
  show "nil_get_law sample_exec" by (auto simp: nil_get_law_def sample_exec_def xcell_api_def)
qed

definition emptyHeap :: "xcell heap" where
  "emptyHeap = \<lparr>cellAt = (\<lambda>_. \<lparr>xcPath = None, xcTx = 0, xcVal = None, xcSkip = False, xcBound = False\<rparr>), nextRef = 2\<rparr>"

abbreviation newWorld :: "(wval, xcell) world" where
  "newWorld \<equiv> (NewExecutionStateStore sample_ids None, emptyHeap)"

lemma newWorld_inv: "accountInv sample_exec sample_ids newWorld"
  using sample_exec_law sample_exec_laws
  by (simp add: accountInv_def storeWf_def typedStore_def cs_law_def NewExecutionStateStore_def)

abbreviation sampleAcct :: string where
  "sampleAcct \<equiv> replicate 42 (CHR ''a'')"

definition sampleRoot :: string where
  "sampleRoot = (ETH_ACCOUNT_PREFIX @ sampleAcct) @ ''/''"

lemma sampleRoot_entry: "sysEntry sample_ids sampleRoot" "fst (GetParentPath sampleRoot) = ETH_ACCOUNT_PREFIX"
  "length sampleRoot = 65"
  using builtin_sysEntry [of sampleAcct "''/''" sample_ids] account_root_parent [of sampleAcct]
  by (simp_all add: builtinPaths_eq account_lengths sampleRoot_def)

lemma sample_guard:
  "Has sample_exec (fst (GetParentPath sampleRoot)) newWorld" "\<not> Has sample_exec sampleRoot newWorld"
  using sampleRoot_entry(3)
  by (simp_all add: sampleRoot_entry(2) Has_def account_lengths NewExecutionStateStore_def)

lemma newWorld_wf: "storeWf sample_exec newWorld" "pendingWildcardDeletes (fst newWorld) = []"
  "typedStore sample_exec newWorld"
  using newWorld_inv by (simp_all add: accountInv_def)

lemma sampleWrite:
  obtains d w' where "Write sample_exec 7 sampleRoot (Some blank) None newWorld = Some ((d, None), w')"
  using that Write_sysEntry [OF newWorld_inv sampleRoot_entry(1) sample_guard, of blank 7]
  by (auto simp: sample_exec_def xcell_api_def)

lemma sample_set_law: "set_law sample_exec (\<lambda>old v. v)"
  by (auto simp: set_law_def sample_exec_def xcell_api_def)

theorem Write_visible_witness:
  "\<exists>d w' r. Write sample_exec 7 sampleRoot (Some blank) None newWorld = Some ((d, None), w') \<and>
     ResolveCellForRead sample_exec 9 sampleRoot None None True w' = Some ((Some blank, r, None), w') \<and> Has sample_exec sampleRoot w'"
proof -
  obtain d w' where wr: "Write sample_exec 7 sampleRoot (Some blank) None newWorld = Some ((d, None), w')"
    by (rule sampleWrite)
  have tid: "xTypeID sample_exec blank \<noteq> 0" by (simp add: sample_exec_def)
  have len: "ETH_ACCOUNT_PREFIX_LENGTH < length sampleRoot" by (simp add: sampleRoot_entry(3) account_lengths)
  note vis = Write_visible [OF sample_exec_law sample_set_law newWorld_wf(1,2) sysEntry_not_wildcard [OF sampleRoot_entry(1)]
      disjI1 [OF sample_guard(1)] tid len wr]
  then show ?thesis using wr sameStore_refl [of w'] by blast
qed

theorem Write_reports_size_after_write_witness:
  "\<exists>d w' r. Write sample_exec 7 sampleRoot (Some blank) None newWorld = Some ((d, None), w') \<and>
     localCells (fst w') sampleRoot = Some r \<and>
     (\<forall>x. valueAt xcell_api (snd w') r = Some x \<longrightarrow> d = xMemSize sample_exec blank - xMemSize sample_exec x)"
proof -
  obtain d w' where wr: "Write sample_exec 7 sampleRoot (Some blank) None newWorld = Some ((d, None), w')"
    by (rule sampleWrite)
  have c: "xCell sample_exec = xcell_api" by (simp add: sample_exec_def)
  have "\<exists>r. localCells (fst w') sampleRoot = Some r \<and>
      (\<forall>x. valueAt (xCell sample_exec) (snd w') r = Some x \<longrightarrow> d = xMemSize sample_exec blank - xMemSize sample_exec x)"
  proof (rule Write_reports_size_after_write
      [OF sample_exec_law newWorld_wf(1) sysEntry_not_wildcard [OF sampleRoot_entry(1)] _ wr])
    show "Has sample_exec (fst (GetParentPath sampleRoot)) newWorld \<or> 7 = SYSTEM" using sample_guard(1) by simp
    show "xTypeID sample_exec blank \<noteq> 0" by (simp add: sample_exec_def)
    show "IsImmediateChildOfSysPath (stPlatform (fst newWorld)) sampleRoot"
      using sampleRoot_entry(1) by (simp add: IsImmediateChildOfSysPath_def sysEntry_def NewExecutionStateStore_def)
  qed
  then show ?thesis using wr unfolding c by blast
qed

text \<open>The balance of an account that has not been created.\<close>

theorem Write_refused_witness:
  "\<exists>d w'. Write sample_exec 7 (sampleRoot @ ''balance'') (Some blank) None newWorld =
      Some ((d, Some (''Error: The parent path '' @ sampleRoot @ '' doesn't exist for '' @ sampleRoot @ ''balance'')), w') \<and>
    sameStore newWorld w'"
proof -
  have p: "GetParentPath (sampleRoot @ ''balance'') = (sampleRoot, ''balance'')"
    by (rule GetParentPath_child) (simp_all add: sampleRoot_def)
  show ?thesis
    using Write_refused [OF sample_exec_law newWorld_wf(1,3,2), of "sampleRoot @ ''balance''" 7 "Some blank"]
      sample_guard(2) by (simp add: p SYSTEM_def) (simp add: sample_exec_def)
qed

theorem container_ops_panic_on_missing_witness:
  "PopBack sample_exec 7 ''zz/'' None newWorld = None \<and> getKeyByIdx sample_exec 7 ''zz/'' 0 newWorld = None \<and>
   WriteAt sample_exec 7 ''zz/'' 0 None newWorld = None"
  by (rule container_ops_panic_on_missing [OF sample_exec_law sample_exec_laws(2) newWorld_wf(1,2)])
     (simp_all add: sample_exec_def HasSuffix_def NewExecutionStateStore_def lookupValue_def suffix_def)

theorem CreateDefaultPaths_creates_account_witness:
  "\<exists>cells w'. CreateDefaultPaths KVs_sorted SortBy1st_ins sample_ids
      \<lparr>newPath = blank, newString = blank, newUnboundedU256 = blank, newUnboundedUint64 = blank,
       newInt64 = blank, newBytes = blank\<rparr> (\<lambda>tx p v. (tx, p, v)) (Has sample_exec)
      (\<lambda>tx p v. Write sample_exec tx p v None) 1 sampleAcct newWorld = Some ((cells, None), w') \<and>
    (\<forall>b \<in> set builtinPaths. Has sample_exec (ETH_ACCOUNT_PREFIX @ sampleAcct @ b) w') \<and>
    (\<forall>q. Has sample_exec q newWorld \<longrightarrow> Has sample_exec q w')"
  by (rule CreateDefaultPaths_creates_account [OF KVs_sorted_law SortBy1st_ins_law _ _ _ newWorld_inv])
     (simp_all add: ids_law_def sample_ids_def sample_exec_def xcell_api_def)

end
