(* ===== verification/ExecWriter.thy ===== *)
theory ExecWriter
  imports ExecStoreProps Staging
begin

text \<open>
  \<open>src/state/cache\<close>: the writer through which the committer carries the transitions of one
  generation back into the execution store (\<open>execution_store_indexer.go\<close>,
  \<open>execution_store_writer.go\<close>), so that the next generation reads them before the block is
  committed, and the filter that drops the transitions of reverted accounts
  (\<open>state_cache_filter.go\<close>).
\<close>

section \<open>ExecutionCacheIndexer\<close>

record 'c ExecutionCacheIndexer =
  eciVersion :: int
  eciBuffer :: "ref list"
  eciFilter :: "'c filt"

definition NewExecutionCacheIndexer :: "int \<Rightarrow> 'c filt option \<Rightarrow> 'c ExecutionCacheIndexer" where
  "NewExecutionCacheIndexer version flt =
     \<lparr>eciVersion = version, eciBuffer = [],
      eciFilter = (case flt of None \<Rightarrow> (\<lambda>_ h. Some (True, h)) | Some f \<Rightarrow> f)\<rparr>"

definition ExecutionCacheIndexer_SetVersion :: "int \<Rightarrow> 'c ExecutionCacheIndexer \<Rightarrow> 'c ExecutionCacheIndexer" where
  "ExecutionCacheIndexer_SetVersion version this = this\<lparr>eciVersion := version\<rparr>"

definition ExecutionCacheIndexer_Import :: "ref list \<Rightarrow> 'c ExecutionCacheIndexer \<Rightarrow> 'c ExecutionCacheIndexer" where
  "ExecutionCacheIndexer_Import transitions this = this\<lparr>eciBuffer := eciBuffer this @ transitions\<rparr>"

definition ExecutionCacheIndexer_Finalize ::
  "('c, 'v) cell_api \<Rightarrow> 'c heap \<Rightarrow> 'c ExecutionCacheIndexer \<Rightarrow> 'c ExecutionCacheIndexer" where
  "ExecutionCacheIndexer_Finalize A h this =
     this\<lparr>eciBuffer := fst (RemoveIf A (\<lambda>_ r. pathAt A h r = None) (eciBuffer this))\<rparr>"

section \<open>ExecutionCacheWriter\<close>

record ('v, 'c) ExecutionCacheWriter =
  ecwIndexer :: "'c ExecutionCacheIndexer"
  ecwStore :: "'v ExecutionStateStore"

definition NewExecutionCacheWriter :: "'v ExecutionStateStore \<Rightarrow> int \<Rightarrow> ('v, 'c) ExecutionCacheWriter" where
  "NewExecutionCacheWriter writeCache version =
     \<lparr>ecwIndexer = NewExecutionCacheIndexer version None, ecwStore = writeCache\<rparr>"

definition ExecutionCacheWriter_Import ::
  "ref list \<Rightarrow> ('v, 'c) ExecutionCacheWriter \<Rightarrow> ('v, 'c) ExecutionCacheWriter" where
  "ExecutionCacheWriter_Import transitions this =
     this\<lparr>ecwIndexer := ExecutionCacheIndexer_Import transitions (ecwIndexer this)\<rparr>"

text \<open>The loop of \<open>Precommit\<close>: a nil path would panic.\<close>

fun installCells ::
  "('c, 'v) cell_api \<Rightarrow> 'c heap \<Rightarrow> ref list \<Rightarrow> 'v ExecutionStateStore \<Rightarrow> 'v ExecutionStateStore option" where
  "installCells A h [] store = Some store"
| "installCells A h (r # rs) store = do {
     p \<leftarrow> pathAt A h r;
     installCells A h rs (store\<lparr>localCells := (localCells store)(p \<mapsto> r)\<rparr>)
   }"

definition ExecutionCacheWriter_Precommit ::
  "('c, 'v) cell_api \<Rightarrow> bool \<Rightarrow> 'c heap \<Rightarrow> ('v, 'c) ExecutionCacheWriter \<Rightarrow>
   (('v, 'c) ExecutionCacheWriter \<times> err) option" where
  "ExecutionCacheWriter_Precommit A isSync h this = do {
     let ix = ExecutionCacheIndexer_Finalize A h (ecwIndexer this);
     store \<leftarrow> installCells A h (eciBuffer ix) (ecwStore this);
     Some (this\<lparr>ecwIndexer := ix, ecwStore := store\<rparr>, None)
   }"

definition ExecutionCacheWriter_Commit ::
  "u64 \<Rightarrow> ('v, 'c) ExecutionCacheWriter \<Rightarrow> ('v, 'c) ExecutionCacheWriter \<times> err" where
  "ExecutionCacheWriter_Commit version this =
     (let ix = NewExecutionCacheIndexer (sint version) None
      in (this\<lparr>ecwIndexer := ix\<lparr>eciBuffer := []\<rparr>, ecwStore := Clear (ecwStore this)\<rparr>, None))"

definition ExecutionCacheWriter_IsSync :: "('v, 'c) ExecutionCacheWriter \<Rightarrow> bool" where
  "ExecutionCacheWriter_IsSync this \<longleftrightarrow> True"

section \<open>StateCacheFilter\<close>

record 'v StateCacheFilter =
  scfStore :: "'v ExecutionStateStore"
  ignoreAddresses :: "(string \<times> bool) list"

definition NewStateCacheFilter :: "'v ExecutionStateStore \<Rightarrow> 'v StateCacheFilter" where
  "NewStateCacheFilter writeCache = \<lparr>scfStore = writeCache, ignoreAddresses = []\<rparr>"

text \<open>
  \<open>mapi.RemoveIf\<close> deletes the entries of a map a closure selects; \<open>StateCells.To\<close> converts cells to
  accesses or to transitions, which may allocate.
\<close>

record ('v, 'c, 'm) filter_lib =
  fExec :: "('v, 'c, 'm) exec_api"
  fMapRemoveIf :: "(string \<Rightarrow> ref \<Rightarrow> bool option) \<Rightarrow> (string \<rightharpoonup> ref) \<Rightarrow> (string \<rightharpoonup> ref) option"
  fToAccess :: "ref list \<Rightarrow> 'c heap \<Rightarrow> ref list \<times> 'c heap"
  fToTransition :: "ref list \<Rightarrow> 'c heap \<Rightarrow> ref list \<times> 'c heap"

definition mapremoveif_law :: "('v, 'c, 'm) filter_lib \<Rightarrow> bool" where
  "mapremoveif_law F \<longleftrightarrow>
     (\<forall>P m. (\<exists>k r. m k = Some r \<and> P k r = None) \<longrightarrow> fMapRemoveIf F P m = None) \<and>
     (\<forall>P m. (\<forall>k r. m k = Some r \<longrightarrow> P k r \<noteq> None) \<longrightarrow>
        fMapRemoveIf F P m = Some (\<lambda>k. case m k of None \<Rightarrow> None | Some r \<Rightarrow> if P k r = Some True then None else Some r))"

lemma mapremoveif_panics:
  "mapremoveif_law F \<Longrightarrow> m k = Some r \<Longrightarrow> P k r = None \<Longrightarrow> fMapRemoveIf F P m = None"
  unfolding mapremoveif_law_def by blast

lemma mapremoveif_removes:
  "mapremoveif_law F \<Longrightarrow> (\<And>k r. m k = Some r \<Longrightarrow> P k r \<noteq> None) \<Longrightarrow>
   fMapRemoveIf F P m = Some (\<lambda>k. case m k of None \<Rightarrow> None | Some r \<Rightarrow> if P k r = Some True then None else Some r)"
  unfolding mapremoveif_law_def by blast

definition ToBuffer :: "('v, 'c, 'm) filter_lib \<Rightarrow> 'v StateCacheFilter \<Rightarrow> ref list" where
  "ToBuffer F this = xValues (fExec F) (localCells (scfStore this))"

text \<open>The account address inside a path; slicing a shorter path panics.\<close>

definition addressIn :: "string \<Rightarrow> string option" where
  "addressIn path =
     go_slice path ETH_ACCOUNT_PREFIX_LENGTH (ETH_ACCOUNT_PREFIX_LENGTH + ETH_ACCOUNT_LENGTH)"

definition RemoveByAddress ::
  "('v, 'c, 'm) filter_lib \<Rightarrow> string \<Rightarrow> 'v StateCacheFilter \<Rightarrow> 'v StateCacheFilter option" where
  "RemoveByAddress F addr this = do {
     cells \<leftarrow> fMapRemoveIf F (\<lambda>path _. map_option (\<lambda>a. a = addr) (addressIn path)) (localCells (scfStore this));
     Some (this\<lparr>scfStore := (scfStore this)\<lparr>localCells := cells\<rparr>\<rparr>)
   }"

definition AddToAutoReversion :: "string \<Rightarrow> 'v StateCacheFilter \<Rightarrow> 'v StateCacheFilter" where
  "AddToAutoReversion addr this =
     (if map_of (ignoreAddresses this) addr = None
      then this\<lparr>ignoreAddresses := (addr, True) # ignoreAddresses this\<rparr> else this)"

text \<open>The closure of \<open>filterByAddress\<close> runs on every transition and panics on a nil or short path.\<close>

definition ignored :: "('c, 'v) cell_api \<Rightarrow> 'v StateCacheFilter \<Rightarrow> 'c heap \<Rightarrow> ref \<Rightarrow> bool option" where
  "ignored A this h r = do {
     p \<leftarrow> pathAt A h r;
     a \<leftarrow> addressIn p;
     Some (map_of (ignoreAddresses this) a \<noteq> None)
   }"

definition filterByAddress ::
  "('v, 'c, 'm) filter_lib \<Rightarrow> ref list \<Rightarrow> 'c heap \<Rightarrow> 'v StateCacheFilter \<Rightarrow> ref list option" where
  "filterByAddress F transitions h this =
     (let A = xCell (fExec F) in
      if length (ignoreAddresses this) = 0 then Some transitions
      else if list_all (\<lambda>r. ignored A this h r \<noteq> None) transitions
      then Some (fst (RemoveIf A (\<lambda>_ r. ignored A this h r = Some True) transitions))
      else None)"

definition ExportAll ::
  "('v, 'c, 'm) filter_lib \<Rightarrow> ('v, 'c) world \<Rightarrow> (ref list \<times> ref list) \<times> ('v, 'c) world" where
  "ExportAll F w =
     (let (everything, (this, h)) = Export (fExec F) [] w;
          (accesses, h1) = fToAccess F everything h;
          (transitions, h2) = fToTransition F everything h1
      in ((accesses, transitions), (this, h2)))"

definition ByType ::
  "('v, 'c, 'm) filter_lib \<Rightarrow> 'c heap \<Rightarrow> 'v StateCacheFilter \<Rightarrow> ((ref list \<times> ref list) \<times> 'c heap) option" where
  "ByType F h this =
     (case ExportAll F (scfStore this, h) of
        ((accesses, transitions), (_, h')) \<Rightarrow> do {
          a \<leftarrow> filterByAddress F accesses h' this;
          t \<leftarrow> filterByAddress F transitions h' this;
          Some ((a, t), h')
        })"

text \<open>
  The remaining reads of the whole store. \<open>KVs\<close> asserts that every transition has a value that is a CRDT.
  \<open>GetWriters\<close> asserts that the committed store, if there is one, is versioned: \<open>versioned\<close> gives its
  writers then.
\<close>

definition KVs ::
  "('v, 'c, 'm) filter_lib \<Rightarrow> ('v, 'c) world \<Rightarrow> ((string list \<times> 'v list) \<times> ('v, 'c) world) option" where
  "KVs F w =
     (let A = xCell (fExec F);
          (everything, (this, h)) = Export (fExec F) [Some (xSorter (fExec F))] w;
          (transitions, h1) = fToTransition F everything h
      in do {
        values \<leftarrow> those (map (\<lambda>r. do { v \<leftarrow> valueAt A h1 r; if isCRDT A v then Some v else None }) transitions);
        keys \<leftarrow> those (map (pathAt A h1) transitions);
        Some ((keys, values), (this, h1))
      })"

definition ExecutionStateStore_GetWriters ::
  "('v ReadOnlyStore \<Rightarrow> 'w list option) \<Rightarrow> 'v ExecutionStateStore \<Rightarrow> (('v, 'c) ExecutionCacheWriter + 'w) list option" where
  "ExecutionStateStore_GetWriters versioned this =
     (let selfWriter = [Inl \<lparr>ecwIndexer = NewExecutionCacheIndexer (sint (stateVersion this)) None, ecwStore = this\<rparr>]
      in case committedStore this of
           None \<Rightarrow> Some selfWriter
         | Some cs \<Rightarrow> do { ws \<leftarrow> versioned cs; Some (selfWriter @ map Inr ws) })"

text \<open>The cells of a store by path, as \<open>Equal\<close>, \<open>Checksum\<close> and \<open>Print\<close> sort them: with two or more
  cells the comparison reads every path, and a nil path panics.\<close>

definition sortedCells :: "('v, 'c, 'm) exec_api \<Rightarrow> 'c heap \<Rightarrow> 'v ExecutionStateStore \<Rightarrow> ref list option" where
  "sortedCells X h this =
     (let values = xValues X (localCells this); A = xCell X in
      if length values < 2 \<or> list_all (\<lambda>r. pathAt A h r \<noteq> None) values
      then Some (SliceStable (\<lambda>i j. the (pathAt A h i) < the (pathAt A h j)) values)
      else None)"

definition Equal ::
  "('v, 'c, 'm) exec_api \<Rightarrow> ('c \<Rightarrow> 'c \<Rightarrow> bool) \<Rightarrow> 'c heap \<Rightarrow> 'v ExecutionStateStore \<Rightarrow> 'v ExecutionStateStore \<Rightarrow> bool option" where
  "Equal X deepEqual h this other = do {
     thisBuffer \<leftarrow> sortedCells X h this;
     otherBuffer \<leftarrow> sortedCells X h other;
     Some (list_all2 (\<lambda>r s. r = s \<or> deepEqual (cellAt h r) (cellAt h s)) thisBuffer otherBuffer)
   }"

definition Checksum ::
  "('v, 'c, 'm) exec_api \<Rightarrow> ('c list \<Rightarrow> bytes) \<Rightarrow> 'c heap \<Rightarrow> 'v ExecutionStateStore \<Rightarrow> bytes option" where
  "Checksum X digest h this = do { values \<leftarrow> sortedCells X h this; Some (digest (map (cellAt h) values)) }"

section \<open>Properties\<close>

text \<open>The cell the execution store holds for a path after the buffer has been installed.\<close>

definition lastLive :: "('c, 'v) cell_api \<Rightarrow> 'c heap \<Rightarrow> ref list \<Rightarrow> string \<Rightarrow> ref option" where
  "lastLive A h rs p = find (\<lambda>r. pathAt A h r = Some p) (rev rs)"

lemma lastLive_simps [simp]:
  "lastLive A h [] p = None"
  "lastLive A h (r # rs) p = (case lastLive A h rs p of Some q \<Rightarrow> Some q
     | None \<Rightarrow> if pathAt A h r = Some p then Some r else None)"
proof -
  have "find P (xs @ [x]) = (case find P xs of Some q \<Rightarrow> Some q | None \<Rightarrow> if P x then Some x else None)"
    for P and xs :: "ref list" and x by (induction xs) auto
  then show "lastLive A h (r # rs) p = (case lastLive A h rs p of Some q \<Rightarrow> Some q
     | None \<Rightarrow> if pathAt A h r = Some p then Some r else None)" by (simp add: lastLive_def)
qed (simp add: lastLive_def)

lemma lastLive_live: "lastLive A h (liveIn A h rs) p = lastLive A h rs p"
  by (induction rs) (auto simp: liveIn_def split: option.split)

lemma installCells_ok:
  assumes "\<And>r. r \<in> set rs \<Longrightarrow> pathAt A h r \<noteq> None"
  shows "installCells A h rs store = Some (store\<lparr>localCells := (\<lambda>p. case lastLive A h rs p of
      Some r \<Rightarrow> Some r | None \<Rightarrow> localCells store p)\<rparr>)"
  using assms
proof (induction rs arbitrary: store)
  case Nil
  then show ?case by simp
next
  case (Cons r rs)
  obtain p where p: "pathAt A h r = Some p" using Cons.prems [of r] by auto
  have "installCells A h (r # rs) store = installCells A h rs (store\<lparr>localCells := (localCells store)(p \<mapsto> r)\<rparr>)"
    using p by simp
  also have "\<dots> = Some (store\<lparr>localCells := (\<lambda>q. case lastLive A h rs q of
      Some r \<Rightarrow> Some r | None \<Rightarrow> ((localCells store)(p \<mapsto> r)) q)\<rparr>)"
    using Cons.IH [of "store\<lparr>localCells := (localCells store)(p \<mapsto> r)\<rparr>"] Cons.prems by (simp cong: option.case_cong)
  also have "(\<lambda>q. case lastLive A h rs q of Some r \<Rightarrow> Some r | None \<Rightarrow> ((localCells store)(p \<mapsto> r)) q) =
    (\<lambda>q. case lastLive A h (r # rs) q of Some r \<Rightarrow> Some r | None \<Rightarrow> localCells store q)"
    using p by (auto simp: fun_eq_iff split: option.split)
  finally show ?case .
qed

lemma ExecutionCacheWriter_Precommit_run:
  assumes "cell_law A"
  shows "ExecutionCacheWriter_Precommit A isSync h w = Some (w
    \<lparr>ecwIndexer := (ecwIndexer w)\<lparr>eciBuffer := liveIn A h (eciBuffer (ecwIndexer w))\<rparr>,
     ecwStore := (ecwStore w)\<lparr>localCells := (\<lambda>p. case lastLive A h (eciBuffer (ecwIndexer w)) p of
       Some r \<Rightarrow> Some r | None \<Rightarrow> localCells (ecwStore w) p)\<rparr>\<rparr>, None)"
proof -
  let ?rs = "eciBuffer (ecwIndexer w)"
  have live: "fst (RemoveIf A (\<lambda>_ r. pathAt A h r = None) ?rs) = liveIn A h ?rs"
    by (simp add: cell_law_simps [OF assms] liveIn_def)
  have inst: "installCells A h (liveIn A h ?rs) (ecwStore w) =
      Some ((ecwStore w)\<lparr>localCells := (\<lambda>p. case lastLive A h ?rs p of
        Some r \<Rightarrow> Some r | None \<Rightarrow> localCells (ecwStore w) p)\<rparr>)"
    using installCells_ok [of "liveIn A h ?rs" A h "ecwStore w"] by (simp add: lastLive_live) (simp add: liveIn_def)
  show ?thesis
    by (simp add: ExecutionCacheWriter_Precommit_def ExecutionCacheIndexer_Finalize_def live inst)
qed

text \<open>
  C15. Closing a generation never panics: every path with a surviving imported transition is served,
  from then on, by the last such cell, every other path by the cell it had, and nothing else of
  the execution store changes. The buffer keeps its surviving transitions, those of earlier
  generations of the block included.
\<close>
theorem ExecutionCacheWriter_Precommit_installs:
  assumes "cell_law (xCell X)"
  shows "\<exists>w'. ExecutionCacheWriter_Precommit (xCell X) isSync h w = Some (w', None) \<and>
    eciBuffer (ecwIndexer w') = liveIn (xCell X) h (eciBuffer (ecwIndexer w)) \<and>
    ecwStore w' = (ecwStore w)\<lparr>localCells := (\<lambda>p. case lastLive (xCell X) h (eciBuffer (ecwIndexer w)) p of
      Some r \<Rightarrow> Some r | None \<Rightarrow> localCells (ecwStore w) p)\<rparr> \<and>
    (\<forall>p r. lastLive (xCell X) h (eciBuffer (ecwIndexer w)) p = Some r \<longrightarrow>
      ResolveCellForRead X tx p T act cached (ecwStore w', h) =
        Some ((valueAt (xCell X) h r, r, None), (ecwStore w', h)))"
  by (simp add: ExecutionCacheWriter_Precommit_run [OF assms] ResolveCellForRead_def)

text \<open>
  C40. Dropping the local cells of one account removes exactly the cells whose path lies under that
  account, provided every local path is long enough to contain an address; a single shorter
  path makes the operation panic.
\<close>
theorem RemoveByAddress_exact:
  assumes "mapremoveif_law F"
  shows "RemoveByAddress F addr this =
    (if \<exists>p. localCells (scfStore this) p \<noteq> None \<and> length p < ETH_ACCOUNT_PREFIX_LENGTH + ETH_ACCOUNT_LENGTH
     then None
     else Some (this\<lparr>scfStore := (scfStore this)\<lparr>localCells := (\<lambda>p. if addressIn p = Some addr then None
       else localCells (scfStore this) p)\<rparr>\<rparr>))"
proof (cases "\<exists>p. localCells (scfStore this) p \<noteq> None \<and> length p < ETH_ACCOUNT_PREFIX_LENGTH + ETH_ACCOUNT_LENGTH")
  case True
  then obtain p r where "localCells (scfStore this) p = Some r" "addressIn p = None"
    by (auto simp: addressIn_def go_slice_def)
  then have "fMapRemoveIf F (\<lambda>path _. map_option (\<lambda>a. a = addr) (addressIn path)) (localCells (scfStore this)) = None"
    by (intro mapremoveif_panics [OF assms]) auto
  then show ?thesis using True by (simp add: RemoveByAddress_def)
next
  case False
  have long: "addressIn p \<noteq> None" if "localCells (scfStore this) p \<noteq> None" for p
  proof -
    have "ETH_ACCOUNT_PREFIX_LENGTH + ETH_ACCOUNT_LENGTH \<le> length p" using that False by (meson not_le)
    then show ?thesis by (simp add: addressIn_def go_slice_def)
  qed
  have "fMapRemoveIf F (\<lambda>path _. map_option (\<lambda>a. a = addr) (addressIn path)) (localCells (scfStore this)) =
      Some (\<lambda>p. case localCells (scfStore this) p of None \<Rightarrow> None
        | Some r \<Rightarrow> if map_option (\<lambda>a. a = addr) (addressIn p) = Some True then None else Some r)"
    using long by (intro mapremoveif_removes [OF assms]) (simp add: option.map_disc_iff)
  moreover have "(\<lambda>p. case localCells (scfStore this) p of None \<Rightarrow> None
        | Some r \<Rightarrow> if map_option (\<lambda>a. a = addr) (addressIn p) = Some True then None else Some r) =
      (\<lambda>p. if addressIn p = Some addr then None else localCells (scfStore this) p)"
    by (auto simp: fun_eq_iff split: option.split)
  ultimately show ?thesis using False by (auto simp: RemoveByAddress_def)
qed

lemma AddToAutoReversion_fold:
  "dom (map_of (ignoreAddresses (fold AddToAutoReversion addrs this))) = dom (map_of (ignoreAddresses this)) \<union> set addrs"
  by (induction addrs arbitrary: this) (auto simp: AddToAutoReversion_def split: if_splits)

text \<open>
  After any accounts have been marked for reversion, filtering keeps, in order, exactly the
  transitions of the other accounts; it panics only when something is marked and a transition
  has no path or one too short to contain an address.
\<close>
theorem filterByAddress_exact:
  assumes "cell_law (xCell (fExec F))"
    and "addrs \<noteq> [] \<Longrightarrow> (\<And>r. r \<in> set ts \<Longrightarrow> \<exists>p. pathAt (xCell (fExec F)) h r = Some p \<and>
      ETH_ACCOUNT_PREFIX_LENGTH + ETH_ACCOUNT_LENGTH \<le> length p)"
  shows "filterByAddress F ts h (fold AddToAutoReversion addrs (NewStateCacheFilter store)) =
    Some (filter (\<lambda>r. the (addressIn (the (pathAt (xCell (fExec F)) h r))) \<notin> set addrs) ts)"
proof (cases "addrs = []")
  case True
  then show ?thesis by (simp add: filterByAddress_def NewStateCacheFilter_def)
next
  case False
  let ?A = "xCell (fExec F)" and ?flt = "fold AddToAutoReversion addrs (NewStateCacheFilter store)"
  have d: "dom (map_of (ignoreAddresses ?flt)) = set addrs"
    by (simp add: AddToAutoReversion_fold NewStateCacheFilter_def)
  have ig: "ignored ?A ?flt h r = Some (the (addressIn (the (pathAt ?A h r))) \<in> set addrs)" if "r \<in> set ts" for r
    using assms(2) [OF False that] d by (fastforce simp: ignored_def addressIn_def go_slice_def)
  have "ignoreAddresses ?flt \<noteq> []" using d False by auto
  then have "filterByAddress F ts h ?flt = Some (filter (\<lambda>r. ignored ?A ?flt h r \<noteq> Some True) ts)"
    using ig by (simp add: filterByAddress_def Let_def list_all_iff cell_law_simps [OF assms(1)])
  also have "filter (\<lambda>r. ignored ?A ?flt h r \<noteq> Some True) ts =
    filter (\<lambda>r. the (addressIn (the (pathAt ?A h r))) \<notin> set addrs) ts"
    by (rule filter_cong) (simp_all add: ig)
  finally show ?thesis .
qed

subsection \<open>Comparing stores\<close>

text \<open>\<open>mapi.Values\<close> lists the values of a map in some order of its keys.\<close>

definition values_law :: "('v, 'c, 'm) exec_api \<Rightarrow> bool" where
  "values_law X \<longleftrightarrow> (\<forall>m. finite (dom m) \<longrightarrow>
     (\<exists>ks. distinct ks \<and> set ks = dom m \<and> xValues X m = map (\<lambda>k. the (m k)) ks))"

text \<open>Local cells are filed under their own paths, so that there are finitely many.\<close>

lemma localCells_path: "storeWf X w \<Longrightarrow> k \<in> dom (localCells (fst w)) \<Longrightarrow>
  pathAt (xCell X) (snd w) (the (localCells (fst w) k)) = Some k"
  by (auto simp: storeWf_def)

lemma localCells_inj: "storeWf X w \<Longrightarrow> inj_on (\<lambda>p. the (localCells (fst w) p)) (dom (localCells (fst w)))"
  by (rule inj_on_inverseI [where g = "\<lambda>r. the (pathAt (xCell X) (snd w) r)"]) (simp add: localCells_path)

lemma storeWf_finite:
  assumes "storeWf X w"
  shows "finite (dom (localCells (fst w)))"
proof (rule inj_on_finite)
  show "inj_on (\<lambda>p. the (localCells (fst w) p)) (dom (localCells (fst w)))" by (rule localCells_inj [OF assms])
  show "(\<lambda>p. the (localCells (fst w) p)) ` dom (localCells (fst w)) \<subseteq> {..<nextRef (snd w)}"
    using assms by (auto simp: storeWf_def)
qed simp

lemma sortedCells_by_path:
  assumes "values_law X" "storeWf X (this, h)" "finite (dom (localCells this))"
  shows "sortedCells X h this = Some (map (\<lambda>p. the (localCells this p)) (sorted_list_of_set (dom (localCells this))))"
proof -
  let ?m = "localCells this" and ?f = "\<lambda>r. the (pathAt (xCell X) h r)"
  obtain ks where ks: "distinct ks" "set ks = dom ?m" "xValues X ?m = map (\<lambda>k. the (?m k)) ks"
    using assms(1,3) unfolding values_law_def by blast
  have path: "pathAt (xCell X) h (the (?m k)) = Some k" if "k \<in> set ks" for k
    using assms(2) that ks(2) by (auto simp: storeWf_def)
  have f: "map ?f (map (\<lambda>k. the (?m k)) ks) = ks" using path by (simp add: map_idI)
  define rs where "rs = sort_key ?f (map (\<lambda>k. the (?m k)) ks)"
  have "mset (map ?f rs) = mset ks" unfolding rs_def mset_map mset_sort using f by (metis mset_map)
  then have "distinct (map ?f rs)" "set (map ?f rs) = dom ?m"
    using ks(1,2) mset_eq_imp_distinct_iff mset_eq_setD by metis+
  then have "map ?f rs = sorted_list_of_set (dom ?m)"
    by (intro sorted_distinct_set_unique) (simp_all add: rs_def assms(3))
  moreover have "map (\<lambda>p. the (?m p)) (map ?f rs) = rs"
    using path by (auto simp: rs_def intro!: map_idI)
  ultimately have "rs = map (\<lambda>p. the (?m p)) (sorted_list_of_set (dom ?m))" by simp
  moreover have "list_all (\<lambda>r. pathAt (xCell X) h r \<noteq> None) (xValues X ?m)" using path by (auto simp: ks(3) list_all_iff)
  ultimately show ?thesis
    by (simp add: sortedCells_def SliceStable_key Let_def rs_def ks(3))
qed

text \<open>
  What a store exports: \<open>statecell.Sorter\<close> permutes the cells; all local cells but those that were only looked up
  are exported, each once and with its path.
\<close>

definition sorter_law :: "('v, 'c, 'm) exec_api \<Rightarrow> bool" where
  "sorter_law X \<longleftrightarrow> (\<forall>h rs. mset (xSorter X h rs) = mset rs)"

lemma Export_transitions:
  assumes "cell_law (xCell X)" "values_law X" "sorter_law X" "storeWf X w" "pendingWildcardDeletes (fst w) = []"
  shows "\<exists>ts. Export X [Some (xSorter X)] w = (ts, w) \<and> distinct ts \<and>
    set ts = {r \<in> ran (localCells (fst w)). \<not> xPathLookupOnly X (cellAt (snd w) r)} \<and>
    (\<forall>r \<in> set ts. pathAt (xCell X) (snd w) r \<noteq> None)"
proof -
  let ?m = "localCells (fst w)"
  obtain ks where ks: "distinct ks" "set ks = dom ?m" "xValues X ?m = map (\<lambda>k. the (?m k)) ks"
    using assms(2) storeWf_finite [OF assms(4)] unfolding values_law_def by blast
  have d: "distinct (xValues X ?m)" using localCells_inj [OF assms(4)] ks by (simp add: distinct_map)
  have s: "set (xValues X ?m) = ran ?m" unfolding ks(3) set_map ks(2) by (force simp: ran_def)
  let ?ts = "filter (\<lambda>r. \<not> xPathLookupOnly X (cellAt (snd w) r)) (xSorter X (snd w) (xValues X ?m))"
  have sm: "mset (xSorter X (snd w) (xValues X ?m)) = mset (xValues X ?m)" using assms(3) by (simp add: sorter_law_def)
  have "Export X [Some (xSorter X)] w = (?ts, w)"
    using assms(5) by (cases w) (simp add: Export_def cell_law_simps [OF assms(1)])
  moreover have "distinct ?ts" using d mset_eq_imp_distinct_iff [OF sm] by simp
  moreover have "set ?ts = {r \<in> ran ?m. \<not> xPathLookupOnly X (cellAt (snd w) r)}" using mset_eq_setD [OF sm] s by auto
  moreover have "\<forall>r \<in> set ?ts. pathAt (xCell X) (snd w) r \<noteq> None"
    using mset_eq_setD [OF sm] s assms(4) by (auto simp: ran_def storeWf_def)
  ultimately show ?thesis by blast
qed

text \<open>
  C37. Two execution stores are equal exactly when they hold cells for the same paths and the cells
  are equal path by path, and the checksum of a store is that of its cells in the order of their paths: neither
  depends on the order in which Go enumerates the maps.
\<close>
theorem Equal_exact:
  assumes "values_law X" "storeWf X (this, h)" "storeWf X (other, h)"
    and "finite (dom (localCells this))" "finite (dom (localCells other))"
    and "\<And>c d. deepEqual c d \<Longrightarrow> GetPath (xCell X) c = GetPath (xCell X) d"
  shows "Equal X deepEqual h this other = Some (dom (localCells this) = dom (localCells other) \<and>
      (\<forall>p r s. localCells this p = Some r \<longrightarrow> localCells other p = Some s \<longrightarrow> r = s \<or> deepEqual (cellAt h r) (cellAt h s))) \<and>
    Checksum X digest h this = Some (digest (map (\<lambda>p. cellAt h (the (localCells this p))) (sorted_list_of_set (dom (localCells this)))))"
proof -
  let ?E = "\<lambda>r s. r = s \<or> deepEqual (cellAt h r) (cellAt h s)"
  let ?d = "\<lambda>st. sorted_list_of_set (dom (localCells st))" and ?c = "\<lambda>st p. the (localCells st p)"
  have same: "p = q" if "p \<in> dom (localCells this)" "q \<in> dom (localCells other)" "?E (?c this p) (?c other q)" for p q
  proof -
    have "pathAt (xCell X) h (?c this p) = Some p" "pathAt (xCell X) h (?c other q) = Some q"
      using assms(2,3) that(1,2) by (auto simp: storeWf_def)
    moreover have "pathAt (xCell X) h (?c this p) = pathAt (xCell X) h (?c other q)"
      using that(3) assms(6) by auto
    ultimately show ?thesis by simp
  qed
  have "list_all2 ?E (map (?c this) (?d this)) (map (?c other) (?d other)) \<longleftrightarrow>
      dom (localCells this) = dom (localCells other) \<and> (\<forall>p \<in> dom (localCells this). ?E (?c this p) (?c other p))" (is "?l \<longleftrightarrow> ?r")
  proof
    assume ?l
    then have l: "list_all2 (\<lambda>p q. ?E (?c this p) (?c other q)) (?d this) (?d other)"
      by (simp add: list_all2_map1 list_all2_map2)
    then have "list_all2 (=) (?d this) (?d other)"
      by (rule list.rel_mono_strong) (use same assms(4,5) in auto)
    then have d: "?d this = ?d other" by (simp add: list.rel_eq)
    have dom: "dom (localCells this) = dom (localCells other)"
      using arg_cong [OF d, of set] assms(4,5) by simp
    show ?r using l assms(5) unfolding d [symmetric] by (simp add: dom list_all2_same)
  next
    assume ?r then show ?l using assms(4) by (simp add: list_all2_map1 list_all2_map2 list_all2_same)
  qed
  also have "\<dots> \<longleftrightarrow> dom (localCells this) = dom (localCells other) \<and>
      (\<forall>p r s. localCells this p = Some r \<longrightarrow> localCells other p = Some s \<longrightarrow> ?E r s)"
    by (auto simp: dom_def set_eq_iff) (metis option.sel option.exhaust)+
  finally have "Equal X deepEqual h this other = Some (dom (localCells this) = dom (localCells other) \<and>
      (\<forall>p r s. localCells this p = Some r \<longrightarrow> localCells other p = Some s \<longrightarrow> ?E r s))"
    using assms by (simp add: Equal_def sortedCells_by_path)
  moreover have "Checksum X digest h this = Some (digest (map (\<lambda>p. cellAt h (?c this p)) (?d this)))"
    using assms by (simp add: Checksum_def sortedCells_by_path comp_def)
  ultimately show ?thesis ..
qed

section \<open>Reachable stores\<close>

text \<open>A callback of a caller that leaves the store to its operations, as the setter of \<open>Write\<close> should.\<close>

definition setterOk ::
  "('v, 'c, 'm) exec_api \<Rightarrow> (ref \<Rightarrow> 64 word \<Rightarrow> ('v, 'c) world \<Rightarrow> ('v, 'c) world option) option \<Rightarrow> bool" where
  "setterOk X setter \<longleftrightarrow> (\<forall>f r d w w'. setter = Some f \<longrightarrow> f r d w = Some w' \<longrightarrow> storeStep X w w')"

text \<open>
  What can happen to a store: the operations of \<open>execution_state_store.go\<close> and \<open>state_cache_path.go\<close>, writes with a setter,
  exporting, the two phases of the store's own writer, which installs the cells that the committer has kept and clears
  the store, and the filter that drops an account. Other parts of the program may allocate cells and change their
  contents (\<open>op_cells\<close>), but not the path of a cell that is filed in the store.
\<close>

inductive storeOp :: "('v, 'c, 'm) exec_api \<Rightarrow> ('v, 'c) world \<Rightarrow> ('v, 'c) world \<Rightarrow> bool" for X where
  op_write: "setterOk X setter \<Longrightarrow> Write X tx p v setter w = Some (res, w') \<Longrightarrow> storeOp X w w'"
| op_inject: "Inject X tx p v w = Some (res, w') \<Longrightarrow> storeOp X w w'"
| op_read: "Read X tx p T w = Some (res, w') \<Longrightarrow> storeOp X w w'"
| op_readcell: "actOk X act \<Longrightarrow> ReadCell X tx p T act w = Some (res, w') \<Longrightarrow> storeOp X w w'"
| op_resolve: "actOk X act \<Longrightarrow> ResolveCellForRead X tx p T act cached w = Some (res, w') \<Longrightarrow> storeOp X w w'"
| op_readcommitted: "ReadCommitted X tx p T w = Some (res, w') \<Longrightarrow> storeOp X w w'"
| op_get: "Get X p w = Some (res, w') \<Longrightarrow> storeOp X w w'"
| op_getas: "GetAs X p T w = Some (res, w') \<Longrightarrow> storeOp X w w'"
| op_peek: "Peek X p T w = Some (res, w') \<Longrightarrow> storeOp X w w'"
| op_readonly: "DoReadOnly X tx p T w = Some (res, w') \<Longrightarrow> storeOp X w w'"
| op_indexof: "IndexOf X tx p k T w = Some (res, w') \<Longrightarrow> storeOp X w w'"
| op_keyat: "KeyAt X tx p idx T w = Some (res, w') \<Longrightarrow> storeOp X w w'"
| op_getkey: "getKeyByIdx X tx p i w = Some (res, w') \<Longrightarrow> storeOp X w w'"
| op_minkey: "MinKey X tx p i w = Some (res, w') \<Longrightarrow> storeOp X w w'"
| op_maxkey: "MaxKey X tx p i w = Some (res, w') \<Longrightarrow> storeOp X w w'"
| op_readat: "ReadAt X tx p i T w = Some (res, w') \<Longrightarrow> storeOp X w w'"
| op_writeat: "WriteAt X tx p i T w = Some (res, w') \<Longrightarrow> storeOp X w w'"
| op_popback: "PopBack X tx p T w = Some (res, w') \<Longrightarrow> storeOp X w w'"
| op_insert: "Insert X ts w = Some w' \<Longrightarrow> storeOp X w w'"
| op_setcell: "set_cell X c w = Some w' \<Longrightarrow> storeOp X w w'"
| op_export: "Export X preprocs w = (ts, w') \<Longrightarrow> storeOp X w w'"
| op_clear: "storeOp X (this, h) (Clear this, h)"
| op_id: "storeOp X (this, h) (SetID i this, h)"
| op_version: "storeOp X (this, h) (SetVersion v this, h)"
| op_precommit: "\<lbrakk>\<forall>r \<in> set (eciBuffer (ecwIndexer e)). r < nextRef h;
    ExecutionCacheWriter_Precommit (xCell X) isSync h e = Some (e', err)\<rbrakk> \<Longrightarrow> storeOp X (ecwStore e, h) (ecwStore e', h)"
| op_commit: "ExecutionCacheWriter_Commit version (e :: ('v, 'c) ExecutionCacheWriter) = (e', err) \<Longrightarrow> storeOp X (ecwStore e, h) (ecwStore e', h)"
| op_remove: "\<lbrakk>fExec F = X; mapremoveif_law F; RemoveByAddress F addr flt = Some flt'\<rbrakk> \<Longrightarrow> storeOp X (scfStore flt, h) (scfStore flt', h)"
| op_cells: "\<lbrakk>nextRef h \<le> nextRef h'; \<forall>r \<in> ran (localCells this). pathAt (xCell X) h' r = pathAt (xCell X) h r\<rbrakk> \<Longrightarrow>
    storeOp X (this, h) (this, h')"

text \<open>The states of a store over the committed store \<open>cs\<close>, which \<open>SetCommittedStore\<close> replaces.\<close>

inductive storeReachable ::
  "('v, 'c, 'm) exec_api \<Rightarrow> type_ids \<Rightarrow> 'v ReadOnlyStore option \<Rightarrow> ('v, 'c) world \<Rightarrow> bool" for X T where
  reach_new: "storeReachable X T cs (NewExecutionStateStore T cs, h)"
| reach_op: "storeReachable X T cs w \<Longrightarrow> storeOp X w w' \<Longrightarrow> storeReachable X T cs w'"
| reach_backend: "storeReachable X T cs (this, h) \<Longrightarrow> storeReachable X T cs' (SetCommittedStore cs' this, h)"

definition storeInv :: "('v, 'c, 'm) exec_api \<Rightarrow> type_ids \<Rightarrow> 'v ReadOnlyStore option \<Rightarrow> ('v, 'c) world \<Rightarrow> bool" where
  "storeInv X T cs w \<longleftrightarrow> storeWf X w \<and> pendingWildcardDeletes (fst w) = [] \<and>
     committedStore (fst w) = cs \<and> stPlatform (fst w) = NewPlatform T"

lemma storeInv_step: "storeInv X T cs w \<Longrightarrow> storeStep X w w' \<Longrightarrow> storeInv X T cs w'"
  by (simp add: storeInv_def storeStep_def)

lemma storeInv_keeps: "storeInv X T cs w \<Longrightarrow> keeps X w m \<Longrightarrow> m = Some (x, w') \<Longrightarrow> storeInv X T cs w'"
  by (meson keepsD storeInv_def storeInv_step)

text \<open>An operation that changes only the local cells.\<close>

lemma storeInv_cells:
  "storeInv X T cs (this, h) \<Longrightarrow> storeWf X (this\<lparr>localCells := m\<rparr>, h) \<Longrightarrow> storeInv X T cs (this\<lparr>localCells := m\<rparr>, h)"
  by (simp add: storeInv_def)

lemma copyAll_step:
  "exec_law X \<Longrightarrow> copyAll X rs w = Some w' \<Longrightarrow> storeStep X w w'"
proof (induction rs arbitrary: w)
  case Nil
  then show ?case by simp
next
  case (Cons r rs)
  then obtain w1 where "xCopyTo X r w = Some w1" "copyAll X rs w1 = Some w'"
    by (auto simp: bind_eq_Some_conv)
  then show ?case using Cons xCopyTo_step storeStep_trans by metis
qed

lemma Insert_step:
  assumes "exec_law X" "Insert X ts w = Some w'"
  shows "storeStep X w w'"
proof -
  have "storeStep X w w'" if "copyAll X rs w = Some w1" "copyAll X rs' w1 = Some w'" for rs rs' w1
    using that copyAll_step [OF assms(1)] storeStep_trans by metis
  then show ?thesis using assms(2)
    by (auto simp: Insert_def bind_eq_Some_conv Let_def split: if_splits prod.splits)
qed

lemma RemoveByAddress_sub:
  assumes "mapremoveif_law F" "RemoveByAddress F addr this = Some this'"
  shows "\<exists>m. scfStore this' = (scfStore this)\<lparr>localCells := m\<rparr> \<and> m \<subseteq>\<^sub>m localCells (scfStore this)"
proof -
  let ?P = "\<lambda>path (_ :: ref). map_option (\<lambda>a. a = addr) (addressIn path)" and ?m = "localCells (scfStore this)"
  obtain m where m: "fMapRemoveIf F ?P ?m = Some m" "scfStore this' = (scfStore this)\<lparr>localCells := m\<rparr>"
    using assms(2) by (auto simp: RemoveByAddress_def bind_eq_Some_conv)
  then have "?P k r \<noteq> None" if "?m k = Some r" for k r using mapremoveif_panics [where P = ?P and m = ?m and k = k and r = r, OF assms(1) that] by fastforce
  then have "m = (\<lambda>k. case ?m k of None \<Rightarrow> None | Some r \<Rightarrow> if ?P k r = Some True then None else Some r)"
    using mapremoveif_removes [OF assms(1), of ?m ?P] m(1) by simp
  then show ?thesis using m(2) by (auto simp: map_le_def split: option.splits if_splits)
qed

lemma keeps_write_setter:
  assumes "exec_law X" "setterOk X setter"
  shows "keeps X w (Write X tx path v setter w)"
proof -
  have "keeps X w2 (do { w3 \<leftarrow> (case setter of None \<Rightarrow> Some w2 | Some f \<Rightarrow> f r d w2); Some ((d, e), w3) })" for w2 r d and e :: err
    using assms(2) unfolding keeps_def setterOk_def by (cases setter; cases w2) (auto simp: bind_eq_Some_conv)
  then show ?thesis unfolding Write_def
    by (intro keeps_if keeps_return keeps_bind2 keeps_writecell keeps_bind1 keeps_diffsize assms(1))
qed

lemma keeps_readonly: "exec_law X \<Longrightarrow> keeps X w (DoReadOnly X tx path T w)"
  unfolding DoReadOnly_def by (intro keeps_bind3 keeps_readcell keeps_do actOk_simps)

lemma keeps_readcommitted:
  assumes "exec_law X"
  shows "keeps X w (ReadCommitted X tx path T w)"
proof -
  obtain r e w1 where g: "getFromCommitted X tx path T w = ((r, e), w1)" by (metis prod.exhaust)
  have "storeStep X w w1" using getFromCommitted_ok [OF assms, of tx path T "fst w" "snd w"] g by simp
  moreover have "keeps X w1 (ReadCommitted X tx path T w)"
    unfolding ReadCommitted_def g
    by (cases e) (simp_all add: keeps_return, intro keeps_value keeps_bind1 keeps_get keeps_return assms)
  ultimately show ?thesis by (rule keeps_step)
qed

lemma keeps_get_store: "exec_law X \<Longrightarrow> keeps X w (Get X path w)"
  unfolding Get_def by (intro keeps_bind3 keeps_readcell keeps_return actOk_simps)

lemma keeps_getas: "exec_law X \<Longrightarrow> keeps X w (GetAs X path T w)"
  unfolding GetAs_def Let_def by (intro keeps_bind3 keeps_readcell keeps_return actOk_simps)

lemma keeps_peek: "exec_law X \<Longrightarrow> keeps X w (Peek X path T w)"
  unfolding Peek_def by (intro keeps_bind3 keeps_readcell keeps_option keeps_if keeps_return keeps_None actOk_simps)

text \<open>A result that is one of several values in the same state.\<close>

lemma keeps_same: "(\<exists>y. z = (y, w)) \<Longrightarrow> keeps X w (Some z)"
  by (auto simp: keeps_return)

lemma keeps_indexof: "exec_law X \<Longrightarrow> keeps X w (IndexOf X tx path k T w)"
  unfolding IndexOf_def
  by (intro keeps_if keeps_return keeps_bind1 keeps_readonly keeps_same) (auto split: option.split)

lemma keeps_keyat: "exec_law X \<Longrightarrow> keeps X w (KeyAt X tx path i T w)"
  unfolding KeyAt_def
  by (intro keeps_if keeps_return keeps_bind1 keeps_readonly keeps_same) (auto split: option.split)

lemma keeps_minmax: "exec_law X \<Longrightarrow> keeps X w (minMaxKey X tx path i w)"
  unfolding minMaxKey_def
  by (intro keeps_if keeps_return keeps_bind3 keeps_read keeps_option keeps_None keeps_same) (auto split: option.split)

lemmas keeps_ops = keeps_write_setter keeps_inject keeps_read keeps_readcell keeps_resolve keeps_readcommitted keeps_get_store
  keeps_getas keeps_peek keeps_readonly keeps_indexof keeps_keyat keeps_getkey keeps_minmax keeps_readat keeps_writeat keeps_popback

lemma storeOp_inv:
  assumes "exec_law X" "storeOp X w w'" "storeInv X T cs w"
  shows "storeInv X T cs w'"
  using assms(2)
proof cases
  case op_insert
  then show ?thesis using Insert_step [OF assms(1)] storeInv_step [OF assms(3)] by blast
next
  case (op_setcell c)
  then have "w' = w \<or> (\<exists>r. xCopyTo X r w = Some w')"
    by (auto simp: set_cell_def bind_eq_Some_conv split: option.splits if_splits)
  then show ?thesis using xCopyTo_step [OF assms(1)] storeInv_step [OF assms(3)] assms(3) by blast
next
  case (op_export preprocs ts)
  then have "w' = w" using assms(3) by (cases w) (simp add: Export_def storeInv_def)
  then show ?thesis using assms(3) by simp
next
  case (op_clear this h)
  then show ?thesis using assms(3) by (simp add: storeInv_def storeWf_def Clear_def)
next
  case (op_id this h i)
  then show ?thesis using assms(3) by (simp add: storeInv_def storeWf_def SetID_def)
next
  case (op_version this h v)
  then show ?thesis using assms(3) by (simp add: storeInv_def storeWf_def SetVersion_def)
next
  case (op_precommit e h isSync e' err)
  let ?m = "\<lambda>p. case lastLive (xCell X) h (eciBuffer (ecwIndexer e)) p of Some r \<Rightarrow> Some r | None \<Rightarrow> localCells (ecwStore e) p"
  have "cell_law (xCell X)" using assms(1) by (simp add: exec_law_def)
  from ExecutionCacheWriter_Precommit_run [OF this] have e': "ecwStore e' = (ecwStore e)\<lparr>localCells := ?m\<rparr>"
    using op_precommit(4) by fastforce
  have wf: "storeWf X (ecwStore e, h)" using assms(3) op_precommit(1) by (simp add: storeInv_def)
  have "r < nextRef h \<and> pathAt (xCell X) h r = Some p" if "?m p = Some r" for p r
  proof (cases "lastLive (xCell X) h (eciBuffer (ecwIndexer e)) p")
    case None
    then show ?thesis using that wf by (simp add: storeWf_def)
  next
    case (Some q)
    then have "q \<in> set (rev (eciBuffer (ecwIndexer e)))" "pathAt (xCell X) h q = Some p"
      unfolding lastLive_def find_Some_iff by (metis nth_mem)+
    then show ?thesis using that Some op_precommit(3) by simp
  qed
  then have "storeWf X ((ecwStore e)\<lparr>localCells := ?m\<rparr>, h)" by (simp add: storeWf_def)
  then show ?thesis using storeInv_cells assms(3) op_precommit(1,2) e' by metis
next
  case (op_commit version e e' err h)
  then have "ecwStore e' = Clear (ecwStore e)" by (auto simp: ExecutionCacheWriter_Commit_def Let_def)
  then show ?thesis using assms(3) op_commit(1,2) by (simp add: storeInv_def storeWf_def Clear_def)
next
  case (op_remove F addr flt flt' h)
  then obtain m where "scfStore flt' = (scfStore flt)\<lparr>localCells := m\<rparr>" "m \<subseteq>\<^sub>m localCells (scfStore flt)"
    using RemoveByAddress_sub [of F addr flt flt'] by blast
  then show ?thesis using assms(3) op_remove(1,2) by (auto simp: storeInv_def storeWf_def map_le_def dom_def)
next
  case (op_cells h h' this)
  then show ?thesis using assms(3) by (fastforce simp: storeInv_def storeWf_def ran_def)
next
  case op_write
  show ?thesis by (rule storeInv_keeps [OF assms(3) keeps_write_setter [OF assms(1) op_write(1)] op_write(2)])
next
  case op_readcell
  show ?thesis by (rule storeInv_keeps [OF assms(3) keeps_readcell [OF assms(1) op_readcell(1)] op_readcell(2)])
next
  case op_resolve
  show ?thesis by (rule storeInv_keeps [OF assms(3) keeps_resolve [OF assms(1) op_resolve(1)] op_resolve(2)])
qed (unfold MinKey_def MaxKey_def, (rule storeInv_keeps [OF assms(3)], rule keeps_ops, rule assms(1), assumption)+)

text \<open>
  C9. Whatever happens to a store, in every state it can reach each of its local cells is allocated and filed under the
  cell's own path, the committed store is the one that was set last, the platform is the one it was made with, and the queue of wildcard
  deletions is empty. So no operation ever records a wildcard deletion, although a comment on the queue says that it holds those
  encountered during execution.
\<close>
theorem storeReachable_invariant:
  assumes "exec_law X" "storeReachable X T cs w"
  shows "storeWf X w \<and> pendingWildcardDeletes (fst w) = [] \<and> committedStore (fst w) = cs \<and>
    stPlatform (fst w) = NewPlatform T"
  using assms(2)
proof induction
  case (reach_new cs h)
  then show ?case by (simp add: storeWf_def NewExecutionStateStore_def)
next
  case (reach_op cs w w')
  then show ?case using storeOp_inv [OF assms(1)] unfolding storeInv_def by blast
next
  case (reach_backend cs this h cs')
  then show ?case by (simp add: storeWf_def SetCommittedStore_def)
qed

section \<open>Concrete instances\<close>

definition sample_filter :: "(wval, xcell, string list) filter_lib" where
  "sample_filter = \<lparr>fExec = sample_exec,
     fMapRemoveIf = (\<lambda>P m. if \<exists>k r. m k = Some r \<and> P k r = None then None
       else Some (\<lambda>k. case m k of None \<Rightarrow> None | Some r \<Rightarrow> if P k r = Some True then None else Some r)),
     fToAccess = Pair, fToTransition = Pair\<rparr>"

lemma sample_filter_law: "mapremoveif_law sample_filter"
  by (auto simp: mapremoveif_law_def sample_filter_def)

lemma sample_filter_cell: "xCell (fExec sample_filter) = xcell_api"
  by (simp add: sample_filter_def sample_exec_def)

text \<open>Two accounts; the second cell of account a was merged into the first.\<close>

abbreviation acctPath :: "char \<Rightarrow> string" where
  "acctPath c \<equiv> ETH_ACCOUNT_PREFIX @ replicate 42 c @ ''/nonce''"

definition twoAccounts :: "xcell heap" where
  "twoAccounts = \<lparr>cellAt = (\<lambda>r.
     \<lparr>xcPath = (if r = 2 then Some (acctPath (CHR ''a'')) else if r = 3 then Some (acctPath (CHR ''b'')) else None),
      xcTx = 0, xcVal = Some blank, xcSkip = False, xcBound = False\<rparr>), nextRef = 5\<rparr>"

lemma acctPath_length: "length (acctPath c) = 70" "addressIn (acctPath c) = Some (replicate 42 c)"
  by (simp_all add: account_lengths addressIn_def go_slice_def take_replicate)

lemma accts_distinct: "replicate 42 (CHR ''b'') \<noteq> replicate 42 (CHR ''a'')"
  by (simp add: numeral_eq_Suc)

lemma twoAccounts_paths:
  "pathAt xcell_api twoAccounts 2 = Some (acctPath (CHR ''a''))"
  "pathAt xcell_api twoAccounts 3 = Some (acctPath (CHR ''b''))" "pathAt xcell_api twoAccounts 4 = None"
  by (simp_all add: xcell_api_def twoAccounts_def)

theorem storeReachable_invariant_witness:
  "\<exists>w cs. storeReachable sample_exec sample_ids cs w \<and> localCells (fst w) sampleRoot \<noteq> None \<and> cs \<noteq> None \<and> committedStore (fst w) = cs \<and>
     storeWf sample_exec w \<and> pendingWildcardDeletes (fst w) = []"
proof -
  obtain d this h where wr: "Write sample_exec 7 sampleRoot (Some blank) None newWorld = Some ((d, None), (this, h))"
    by (rule sampleWrite) (metis prod.collapse)
  let ?cs = "Some \<lparr>csHas = (\<lambda>_. False), csGet = (\<lambda>_. (None, None)), csGetAs = (\<lambda>_ _. (None, None))\<rparr>"
  have ok: "setterOk sample_exec None" by (simp add: setterOk_def)
  have r: "storeReachable sample_exec sample_ids ?cs (SetCommittedStore ?cs this, h)"
    by (rule reach_backend [OF reach_op [OF reach_new op_write [OF ok wr]]])
  have "localCells this sampleRoot \<noteq> None"
    using Write_files [OF sample_exec_law newWorld_wf(1) sysEntry_not_wildcard [OF sampleRoot_entry(1)] _ wr]
      sample_guard(1) by (auto simp: sample_exec_def)
  then have "localCells (fst (SetCommittedStore ?cs this, h)) sampleRoot \<noteq> None" by (simp add: SetCommittedStore_def)
  then show ?thesis using storeReachable_invariant [OF sample_exec_law r] r by blast
qed

theorem ExecutionCacheWriter_Precommit_installs_witness:
  "\<exists>w'. ExecutionCacheWriter_Precommit xcell_api True twoAccounts (ExecutionCacheWriter_Import [2, 4, 3]
        (NewExecutionCacheWriter (fst newWorld) 1)) = Some (w', None) \<and>
    eciBuffer (ecwIndexer w') = [2, 3] \<and> localCells (ecwStore w') (acctPath (CHR ''a'')) = Some 2 \<and>
    ResolveCellForRead sample_exec 9 (acctPath (CHR ''a'')) None None True (ecwStore w', twoAccounts) =
      Some ((Some blank, 2, None), (ecwStore w', twoAccounts))"
proof -
  let ?w = "ExecutionCacheWriter_Import [2, 4, 3] (NewExecutionCacheWriter (fst newWorld) 1)
    :: (wval, xcell) ExecutionCacheWriter"
  have c: "xCell sample_exec = xcell_api" by (simp add: sample_exec_def)
  have b: "eciBuffer (ecwIndexer ?w) = [2, 4, 3]"
    by (simp add: ExecutionCacheWriter_Import_def ExecutionCacheIndexer_Import_def NewExecutionCacheWriter_def
        NewExecutionCacheIndexer_def)
  have l: "lastLive xcell_api twoAccounts [2, 4, 3] (acctPath (CHR ''a'')) = Some 2"
    using accts_distinct by (simp add: twoAccounts_paths)
  have v: "valueAt xcell_api twoAccounts 2 = Some blank" by (simp add: xcell_api_def twoAccounts_def)
  have live: "liveIn xcell_api twoAccounts [2, 4, 3] = [2, 3]" by (simp add: liveIn_def twoAccounts_paths)
  obtain w' where "ExecutionCacheWriter_Precommit xcell_api True twoAccounts ?w = Some (w', None)"
    "eciBuffer (ecwIndexer w') = [2, 3]"
    "ecwStore w' = (ecwStore ?w)\<lparr>localCells := (\<lambda>p. case lastLive xcell_api twoAccounts [2, 4, 3] p of
      Some r \<Rightarrow> Some r | None \<Rightarrow> localCells (ecwStore ?w) p)\<rparr>"
    "\<forall>p r. lastLive xcell_api twoAccounts [2, 4, 3] p = Some r \<longrightarrow>
      ResolveCellForRead sample_exec 9 p None None True (ecwStore w', twoAccounts) =
        Some ((valueAt xcell_api twoAccounts r, r, None), (ecwStore w', twoAccounts))"
    using ExecutionCacheWriter_Precommit_installs [of sample_exec True twoAccounts ?w 9 None None True]
      xcell_api_law unfolding c b live by blast
  then show ?thesis using l v by (intro exI [of _ w']) simp
qed

theorem RemoveByAddress_exact_witness:
  "\<exists>this. RemoveByAddress sample_filter (replicate 42 (CHR ''a'')) (NewStateCacheFilter
      ((fst newWorld)\<lparr>localCells := Map.empty(acctPath (CHR ''a'') \<mapsto> 2, acctPath (CHR ''b'') \<mapsto> 3)\<rparr>)) = Some this \<and>
    localCells (scfStore this) (acctPath (CHR ''a'')) = None \<and> localCells (scfStore this) (acctPath (CHR ''b'')) = Some 3"
proof -
  have "\<not> (\<exists>p. p \<in> {acctPath (CHR ''a''), acctPath (CHR ''b'')} \<and>
      length p < ETH_ACCOUNT_PREFIX_LENGTH + ETH_ACCOUNT_LENGTH)"
    by (auto simp: account_lengths)
  then show ?thesis using accts_distinct
    unfolding RemoveByAddress_exact [OF sample_filter_law]
    by (auto simp: NewStateCacheFilter_def acctPath_length split: if_splits)
qed

text \<open>A library that enumerates maps in the order of their keys.\<close>

definition ordered_exec :: "(wval, xcell, string list) exec_api" where
  "ordered_exec = sample_exec\<lparr>xValues := (\<lambda>m. map (\<lambda>k. the (m k)) (sorted_list_of_set (dom m)))\<rparr>"

theorem Equal_exact_witness:
  "Equal ordered_exec (=) twoAccounts
     ((fst newWorld)\<lparr>localCells := Map.empty(acctPath (CHR ''a'') \<mapsto> 2, acctPath (CHR ''b'') \<mapsto> 3)\<rparr>)
     ((fst newWorld)\<lparr>localCells := Map.empty(acctPath (CHR ''a'') \<mapsto> 2)\<rparr>) = Some False"
proof -
  let ?a = "(fst newWorld)\<lparr>localCells := Map.empty(acctPath (CHR ''a'') \<mapsto> 2, acctPath (CHR ''b'') \<mapsto> 3)\<rparr>"
  let ?b = "(fst newWorld)\<lparr>localCells := Map.empty(acctPath (CHR ''a'') \<mapsto> 2)\<rparr>"
  have law: "values_law ordered_exec"
    by (auto simp: values_law_def ordered_exec_def intro!: exI [of _ "sorted_list_of_set (dom _)"])
  have c: "xCell ordered_exec = xcell_api" by (simp add: ordered_exec_def sample_exec_def)
  have nextRef_twoAccounts: "nextRef twoAccounts = 5" by (simp add: twoAccounts_def)
  have wf: "storeWf ordered_exec (?a, twoAccounts)" "storeWf ordered_exec (?b, twoAccounts)"
    unfolding storeWf_def c using accts_distinct twoAccounts_paths by (auto simp: nextRef_twoAccounts split: if_splits)
  have "acctPath (CHR ''b'') \<in> dom (localCells ?a)" "acctPath (CHR ''b'') \<notin> dom (localCells ?b)"
    using accts_distinct by auto
  then show ?thesis using Equal_exact [OF law wf, of "(=)" "\<lambda>_. []"] by auto
qed

end
