(* ===== verification/Engine.thy ===== *)
theory Engine
  imports Blocks LiveCache LiveStorage ExecWriter
begin

text \<open>
  The writers of the execution path, the execution cache writer, the live cache writer and the live
  storage writer, behind the one Go interface \<open>StoreWriter\<close>: they provide the contract of a writer that
  carries a block, and are admissible for every block.
\<close>

section \<open>The writers behind one interface\<close>

datatype ('v, 'c, 'k, 'x, 's) engineWriter =
  ExecW "('v, 'c) ExecutionCacheWriter"
| CacheW "('c, 'v, 'k) LiveCacheWriter"
| StgW "('c, 'v, 'x, 's) LiveStorageWriter"

definition engineImport ::
  "('c, 'v) cell_api \<Rightarrow> ref list \<Rightarrow> 'c heap \<Rightarrow> ('v, 'c, 'k, 'x, 's) engineWriter \<Rightarrow>
   (('v, 'c, 'k, 'x, 's) engineWriter \<times> 'c heap) option" where
  "engineImport A ts h w =
     (case w of
        ExecW e \<Rightarrow> Some (ExecW (ExecutionCacheWriter_Import ts e), h)
      | CacheW c \<Rightarrow> map_option (\<lambda>(c', h'). (CacheW c', h')) (LiveCacheWriter_Import ts h c)
      | StgW s \<Rightarrow> map_option (\<lambda>(s', h'). (StgW s', h')) (LiveStorageWriter_Import A ts h s))"

definition enginePrecommit ::
  "('c, 'v) cell_api \<Rightarrow> ('c, 'v, 'k) livecache_lib \<Rightarrow> ('c, 'v, 'x, 's) livestg_lib \<Rightarrow> bool \<Rightarrow> 'c heap \<Rightarrow>
   ('v, 'c, 'k, 'x, 's) engineWriter \<Rightarrow> (('v, 'c, 'k, 'x, 's) engineWriter \<times> err) option" where
  "enginePrecommit A K S isSync h w =
     (case w of
        ExecW e \<Rightarrow> map_option (map_prod ExecW id) (ExecutionCacheWriter_Precommit A isSync h e)
      | CacheW c \<Rightarrow> map_option (map_prod CacheW id) (LiveCacheWriter_Precommit K isSync h c)
      | StgW s \<Rightarrow> map_option (map_prod StgW id) (LiveStorageWriter_Precommit S isSync h s))"

definition engineCommit ::
  "('c, 'v, 'k) livecache_lib \<Rightarrow> ('c, 'v, 'x, 's) livestg_lib \<Rightarrow> u64 \<Rightarrow> 'c heap \<Rightarrow>
   ('v, 'c, 'k, 'x, 's) engineWriter \<Rightarrow> (('v, 'c, 'k, 'x, 's) engineWriter \<times> err) option" where
  "engineCommit K S block h w =
     (case w of
        ExecW e \<Rightarrow> Some (map_prod ExecW id (ExecutionCacheWriter_Commit block e))
      | CacheW c \<Rightarrow> map_option (map_prod CacheW id) (LiveCacheWriter_Commit K block h c)
      | StgW s \<Rightarrow> map_option (map_prod StgW id) (LiveStorageWriter_Commit S block s))"

definition engineIsSync :: "('v, 'c, 'k, 'x, 's) engineWriter \<Rightarrow> bool" where
  "engineIsSync w =
     (case w of ExecW e \<Rightarrow> ExecutionCacheWriter_IsSync e | CacheW c \<Rightarrow> LiveCacheWriter_IsSync c
      | StgW s \<Rightarrow> LiveStorageWriter_IsSync s)"

definition engineOps ::
  "('c, 'v) cell_api \<Rightarrow> ('c, 'v, 'k) livecache_lib \<Rightarrow> ('c, 'v, 'x, 's) livestg_lib \<Rightarrow>
   (('v, 'c, 'k, 'x, 's) engineWriter, 'c) StoreWriter" where
  "engineOps A K S =
     \<lparr>wImport = engineImport A, wPrecommit = enginePrecommit A K S, wCommit = engineCommit K S,
      wIsSync = engineIsSync, wIsEth = (\<lambda>_. False),
      wIsExec = (\<lambda>w. case w of ExecW _ \<Rightarrow> True | _ \<Rightarrow> False)\<rparr>"

text \<open>The libraries share one type of cells.\<close>

definition engine_law ::
  "('c, 'v) cell_api \<Rightarrow> ('c, 'v, 'k) livecache_lib \<Rightarrow> ('c, 'v, 'x, 's) livestg_lib \<Rightarrow> bool" where
  "engine_law A K S \<longleftrightarrow> cell_law A \<and> livecache_law K \<and> lcCell K = A \<and>
     livestg_law S \<and> lsCell S = A"

section \<open>A block in progress\<close>

text \<open>A writer at the beginning of a block.\<close>

definition engineFresh ::
  "('c, 'v, 'k) livecache_lib \<Rightarrow> ('c, 'v, 'x, 's) livestg_lib \<Rightarrow> ('c \<Rightarrow> bool) \<Rightarrow>
   ('v, 'c, 'k, 'x, 's) engineWriter \<Rightarrow> bool" where
  "engineFresh K S acc w \<longleftrightarrow>
     (case w of
        ExecW e \<Rightarrow> eciBuffer (ecwIndexer e) = []
      | CacheW c \<Rightarrow> lcwInv K acc c \<and> lciImportBuffer (lcwIndexer c) = [] \<and> lcwBuffer c = []
      | StgW s \<Rightarrow> lswInv S acc s \<and> lsiImportBuffer (lswIndexer s) = [] \<and> lswBuffer s = [] \<and> lswStore s \<noteq> None)"

text \<open>The same writer after some generations. The live storage writer has encoded the live cells, the others
  keep references to them.\<close>

definition stagedEntries ::
  "('c, 'v) cell_api \<Rightarrow> ('c \<Rightarrow> bool) \<Rightarrow> ('c \<Rightarrow> 'y) \<Rightarrow> 'c generation list \<Rightarrow> (string \<times> 'y) list" where
  "stagedEntries A acc f gs = concat (map (\<lambda>g. map (\<lambda>r. (the (pathAt A (genDone g) r), f (cellAt (genDone g) r)))
     (liveIn A (genDone g) (genAccepted acc g))) gs)"

definition encodedCell :: "('c, 'v, 'x, 's) livestg_lib \<Rightarrow> 'c \<Rightarrow> 'x option" where
  "encodedCell S c = map_option (\<lambda>x. fst (lsForward S (the (GetPath (lsCell S) c)) x)) (Value (lsCell S) c)"

definition engineStaged ::
  "('c, 'v) cell_api \<Rightarrow> ('c, 'v, 'k) livecache_lib \<Rightarrow> ('c, 'v, 'x, 's) livestg_lib \<Rightarrow> ('c \<Rightarrow> bool) \<Rightarrow> 'c generation list \<Rightarrow>
   ('v, 'c, 'k, 'x, 's) engineWriter \<Rightarrow> ('v, 'c, 'k, 'x, 's) engineWriter \<Rightarrow> bool" where
  "engineStaged A K S acc gs w w' \<longleftrightarrow>
     (case w of
        ExecW e \<Rightarrow> (\<exists>e'. w' = ExecW e' \<and> eciBuffer (ecwIndexer e') = liveRefs A gs)
      | CacheW c \<Rightarrow> (\<exists>c'. w' = CacheW c' \<and> lcwInv K acc c' \<and> lciImportBuffer (lcwIndexer c') = [] \<and>
          map lciBuffer (lcwBuffer c') = map (\<lambda>g. liveIn A (genDone g) (genAccepted acc g)) gs \<and> lcwCache c' = lcwCache c)
      | StgW s \<Rightarrow> (\<exists>s'. w' = StgW s' \<and> lswInv S acc s' \<and> lsiImportBuffer (lswIndexer s') = [] \<and> lswStore s' = lswStore s \<and>
          lswStore s \<noteq> None \<and> lswBatch s' = stagedEntries A acc (encodedCell S) gs))"

lemma engineStaged_start: "engineFresh K S acc w \<Longrightarrow> engineStaged A K S acc [] w w"
  by (cases w) (simp_all add: engineFresh_def engineStaged_def liveRefs_def stagedEntries_def lswBatch_def)

section \<open>Import\<close>

text \<open>A writer that has imported the transitions \<open>ts\<close>: \<open>rs\<close> are those its filter accepts.\<close>

definition engineImported ::
  "('c, 'v, 'k) livecache_lib \<Rightarrow> ('c, 'v, 'x, 's) livestg_lib \<Rightarrow> ('c \<Rightarrow> bool) \<Rightarrow> ref list \<Rightarrow> ref list \<Rightarrow>
   ('v, 'c, 'k, 'x, 's) engineWriter \<Rightarrow> ('v, 'c, 'k, 'x, 's) engineWriter \<Rightarrow> bool" where
  "engineImported K S acc ts rs w w' \<longleftrightarrow>
     (case w of
        ExecW e \<Rightarrow> (\<exists>e'. w' = ExecW e' \<and> eciBuffer (ecwIndexer e') = eciBuffer (ecwIndexer e) @ ts \<and> ecwStore e' = ecwStore e)
      | CacheW c \<Rightarrow> (\<exists>c'. w' = CacheW c' \<and> lcwInv K acc c' \<and> lciImportBuffer (lcwIndexer c') = rs \<and>
          lcwBuffer c' = lcwBuffer c \<and> lcwCache c' = lcwCache c)
      | StgW s \<Rightarrow> (\<exists>s'. w' = StgW s' \<and> lswInv S acc s' \<and> lsiImportBuffer (lswIndexer s') = rs \<and>
          lswBuffer s' = lswBuffer s \<and> lswStore s' = lswStore s))"

lemma LiveCacheWriter_Import_frame:
  "LiveCacheWriter_Import ts h c = Some (c', h') \<Longrightarrow> lcwCache c' = lcwCache c \<and> lcwBuffer c' = lcwBuffer c"
  by (auto simp: LiveCacheWriter_Import_def bind_eq_Some_conv)

lemma LiveStorageWriter_Import_frame:
  "LiveStorageWriter_Import A ts h s = Some (s', h') \<Longrightarrow> lswStore s' = lswStore s \<and> lswBuffer s' = lswBuffer s"
  by (auto simp: LiveStorageWriter_Import_def bind_eq_Some_conv)

lemma engineImport_ok:
  assumes law: "engine_law A K S" and w: "engineStaged A K S acc gs w0 w" and ts: "distinct ts"
    and ok: "\<And>r. r \<in> set ts \<Longrightarrow> pathAt A h r \<noteq> None \<and> typedAt A h r"
  shows "\<exists>w' h'. wImport (engineOps A K S) ts h w = Some (w', h') \<and> sameMeta A h h' \<and>
    (\<forall>r \<in> set ts. typedAt A h' r) \<and> (\<forall>r. r \<notin> set ts \<longrightarrow> cellAt h' r = cellAt h r) \<and>
    engineImported K S acc ts (filter (\<lambda>r. acc (cellAt h r)) ts) w w'"
proof (cases w)
  case (ExecW e)
  then show ?thesis using ok
    by (simp add: engineOps_def engineImport_def engineImported_def
        ExecutionCacheWriter_Import_def ExecutionCacheIndexer_Import_def)
next
  case (CacheW c)
  have A: "lcCell K = A" using law by (simp add: engine_law_def)
  have inv: "lcwInv K acc c" "lciImportBuffer (lcwIndexer c) = []"
    using w CacheW by (auto simp: engineStaged_def split: engineWriter.splits)
  obtain c' h' where "LiveCacheWriter_Import ts h c = Some (c', h')" "lcwInv K acc c'" "sameMeta A h h'"
    "\<forall>r \<in> set ts. typedAt A h' r" "\<forall>r. r \<notin> set ts \<longrightarrow> cellAt h' r = cellAt h r"
    "lciImportBuffer (lcwIndexer c') = filter (\<lambda>r. acc (cellAt h r)) ts"
    using lcw.imp_ok [OF inv(1) ts, of h] ok unfolding A inv(2) append_Nil by blast
  then show ?thesis
    using CacheW LiveCacheWriter_Import_frame [of ts h c c' h']
    by (simp add: engineOps_def engineImport_def engineImported_def)
next
  case (StgW s)
  have A: "lsCell S = A" using law by (simp add: engine_law_def)
  have inv: "lswInv S acc s" "lsiImportBuffer (lswIndexer s) = []"
    using w StgW by (auto simp: engineStaged_def split: engineWriter.splits)
  obtain s' h' where "LiveStorageWriter_Import A ts h s = Some (s', h')" "lswInv S acc s'" "sameMeta A h h'"
    "\<forall>r \<in> set ts. typedAt A h' r" "\<forall>r. r \<notin> set ts \<longrightarrow> cellAt h' r = cellAt h r"
    "lsiImportBuffer (lswIndexer s') = filter (\<lambda>r. acc (cellAt h r)) ts"
    using lsw.imp_ok [OF inv(1) ts, of h] ok unfolding A inv(2) append_Nil by blast
  then show ?thesis
    using StgW LiveStorageWriter_Import_frame [of A ts h s s' h']
    by (simp add: engineOps_def engineImport_def engineImported_def)
qed

section \<open>The two precommit phases\<close>

lemma LiveCacheWriter_phases:
  assumes "lcwInv K acc c"
    and "\<And>r. r \<in> set (liveIn (lcCell K) h (lciImportBuffer (lcwIndexer c))) \<Longrightarrow> typedAt (lcCell K) h r"
  shows "\<exists>c1 c2. LiveCacheWriter_Precommit K True h c = Some (c1, None) \<and>
    LiveCacheWriter_Precommit K False h c1 = Some (c2, None) \<and> lcwInv K acc c2 \<and> lciImportBuffer (lcwIndexer c2) = [] \<and>
    map lciBuffer (lcwBuffer c2) = map lciBuffer (lcwBuffer c) @ [liveIn (lcCell K) h (lciImportBuffer (lcwIndexer c))] \<and>
    lcwCache c2 = lcwCache c"
proof -
  have law: "livecache_law K" using assms(1) by (simp add: lcwInv_def)
  show ?thesis
    using LiveCacheIndexer_Finalize_ok [OF law, of h "LiveCacheIndexer_Reset (lcwIndexer c)"] assms
    by (simp add: LiveCacheWriter_Precommit_def LiveCacheIndexer_Reset_def lcwInv_def NewLiveCacheIndexer_def)
qed

lemma LiveStorageWriter_phases:
  assumes "lswInv S acc s"
    and "\<And>r. r \<in> set (liveIn (lsCell S) h (lsiImportBuffer (lswIndexer s))) \<Longrightarrow> typedAt (lsCell S) h r"
  shows "\<exists>s1 s2. LiveStorageWriter_Precommit S True h s = Some (s1, None) \<and>
    LiveStorageWriter_Precommit S False h s1 = Some (s2, None) \<and> lswInv S acc s2 \<and> lsiImportBuffer (lswIndexer s2) = [] \<and>
    lswStore s2 = lswStore s \<and>
    lswBatch s2 = lswBatch s @ map (\<lambda>r. (the (pathAt (lsCell S) h r), lsEncodedOf S h r))
      (liveIn (lsCell S) h (lsiImportBuffer (lswIndexer s)))"
proof -
  have law: "livestg_law S" using assms(1) by (simp add: lswInv_def)
  have len: "length (concat (map lsiKeyBuffer (lswBuffer s))) = length (concat (map lsiEncodedBuffer (lswBuffer s)))"
    using assms(1) by (intro length_concat_eq) (simp add: lswInv_def)
  have z: "zip (map f xs) (map g xs) = map (\<lambda>x. (f x, g x)) xs" for f g and xs :: "ref list"
    by (induction xs) simp_all
  show ?thesis
    using LiveStgIndexer_Finalize_ok [OF law, of h "LiveStgIndexer_Reset (lswIndexer s)"] assms len
    by (simp add: LiveStorageWriter_Precommit_def LiveStgIndexer_Reset_def Let_def lswInv_def lswBatch_def z
        NewLiveStgIndexer_def)
qed

text \<open>Between generations the execution store serves for every path the last merged cell of the block.\<close>

definition engineServed ::
  "('c, 'v) cell_api \<Rightarrow> 'c generation list \<Rightarrow> 'c heap \<Rightarrow> ('v, 'c, 'k, 'x, 's) engineWriter \<Rightarrow>
   ('v, 'c, 'k, 'x, 's) engineWriter \<Rightarrow> bool" where
  "engineServed A gs h w w' \<longleftrightarrow>
     (case w of
        ExecW e \<Rightarrow> (\<exists>e'. w' = ExecW e' \<and> (\<forall>p.
          if genCells A (\<lambda>_. True) gs p = [] then localCells (ecwStore e') p = localCells (ecwStore e) p
          else \<exists>r. localCells (ecwStore e') p = Some r \<and> cellAt h r = last (genCells A (\<lambda>_. True) gs p)))
      | _ \<Rightarrow> True)"

lemma genAccepted_all: "genAccepted (\<lambda>_. True) g = genTrans g"
  by (simp add: genAccepted_def)

lemma find_rev: "find P (rev xs) = (if filter P xs = [] then None else Some (last (filter P xs)))"
  by (induction xs rule: rev_induct) auto

lemma lastLive_genCells:
  assumes "closedGens A gs h"
  shows "if genCells A (\<lambda>_. True) gs p = [] then lastLive A h (liveRefs A gs) p = None
    else \<exists>r. lastLive A h (liveRefs A gs) p = Some r \<and> cellAt h r = last (genCells A (\<lambda>_. True) gs p)"
proof -
  have "stagedEntries A (\<lambda>_. True) id gs = concat (map (\<lambda>g. map (\<lambda>r. (the (pathAt A h r), cellAt h r)) (genLive A g)) gs)"
    unfolding stagedEntries_def genAccepted_all genLive_def [symmetric]
    by (rule arg_cong [where f = concat], rule map_cong [OF refl], rule map_cong [OF refl])
       (use assms in \<open>simp add: closedGens_def\<close>)
  also have "\<dots> = map (\<lambda>r. (the (pathAt A h r), cellAt h r)) (liveRefs A gs)"
    by (simp add: liveRefs_def map_concat comp_def)
  finally have "map snd (filter (\<lambda>e. fst e = p) (map (\<lambda>r. (the (pathAt A h r), cellAt h r)) (liveRefs A gs))) =
      genCells A (\<lambda>_. True) gs p"
    using block_entries [of gs A p id "\<lambda>_. True"] assms by (simp add: stagedEntries_def closedGens_def)
  moreover have "filter (\<lambda>r. the (pathAt A h r) = p) (liveRefs A gs) = filter (\<lambda>r. pathAt A h r = Some p) (liveRefs A gs)"
    by (rule filter_cong [OF refl]) (use closedGens_live(1) [OF assms] in force)
  ultimately have "genCells A (\<lambda>_. True) gs p = map (cellAt h) (filter (\<lambda>r. pathAt A h r = Some p) (liveRefs A gs))"
    by (simp add: filter_map comp_def)
  then show ?thesis unfolding lastLive_def find_rev by (simp add: last_map)
qed

lemma liveRefs_snoc:
  assumes "closedGens A gs h'" "g = \<lparr>genHeap = h, genTxs = txs, genTrans = ts, genDone = h'\<rparr>"
  shows "liveIn A h' (liveRefs A gs @ ts) = liveRefs A (gs @ [g])"
proof -
  have "liveIn A h' (liveRefs A gs) = liveRefs A gs"
    unfolding liveIn_def filter_id_conv using closedGens_live(1) [OF assms(1)] by blast
  then show ?thesis by (simp add: liveIn_def liveRefs_def genLive_def assms(2))
qed

lemma enginePhases_ok:
  assumes law: "engine_law A K S" and w0: "engineStaged A K S acc gs w0 w"
    and w: "engineImported K S acc ts (filter (\<lambda>r. acc (cellAt h r)) ts) w w'"
    and d: "distinct ts" and fin: "finalized A h txs ts h'" and gs: "closedGens A gs h'"
    and g: "g = \<lparr>genHeap = h, genTxs = txs, genTrans = ts, genDone = h'\<rparr>"
  shows "\<exists>w''. do { v \<leftarrow> syncStep (engineOps A K S) h' w'; asyncStep (engineOps A K S) h' v } = Some w'' \<and>
    engineStaged A K S acc (gs @ [g]) w0 w'' \<and> engineServed A (gs @ [g]) h' w w''"
proof -
  let ?rs = "filter (\<lambda>r. acc (cellAt h r)) ts"
  have typed: "typedAt A h' r" if "r \<in> set (liveIn A h' ?rs)" for r using fin that by (auto simp: finalized_def liveIn_def)
  have acc: "genAccepted acc g = ?rs" "genDone g = h'" by (simp_all add: genAccepted_def g)
  show ?thesis
  proof (cases w)
    case (ExecW e)
    have cl: "cell_law A" using law by (simp add: engine_law_def)
    obtain e0 where e0: "w0 = ExecW e0" "eciBuffer (ecwIndexer e) = liveRefs A gs"
      using w0 ExecW by (auto simp: engineStaged_def split: engineWriter.splits)
    obtain e' where e': "w' = ExecW e'" "eciBuffer (ecwIndexer e') = liveRefs A gs @ ts" "ecwStore e' = ecwStore e"
      using w ExecW e0(2) by (auto simp: engineImported_def)
    let ?e = "e'\<lparr>ecwIndexer := (ecwIndexer e')\<lparr>eciBuffer := liveRefs A (gs @ [g])\<rparr>,
       ecwStore := (ecwStore e)\<lparr>localCells := (\<lambda>p. case lastLive A h' (liveRefs A (gs @ [g])) p of
         Some r \<Rightarrow> Some r | None \<Rightarrow> localCells (ecwStore e) p)\<rparr>\<rparr>"
    have "lastLive A h' (liveRefs A gs @ ts) p = lastLive A h' (liveRefs A (gs @ [g])) p" for p
      unfolding liveRefs_snoc [OF gs g, symmetric] by (simp add: lastLive_live)
    then have run: "ExecutionCacheWriter_Precommit A True h' e' = Some (?e, None)"
      using ExecutionCacheWriter_Precommit_run [OF cl, of True h' e'] by (simp add: e'(2,3) liveRefs_snoc [OF gs g] cong: option.case_cong)
    have "\<forall>p. if genCells A (\<lambda>_. True) (gs @ [g]) p = [] then localCells (ecwStore ?e) p = localCells (ecwStore e) p
      else \<exists>r. localCells (ecwStore ?e) p = Some r \<and> cellAt h' r = last (genCells A (\<lambda>_. True) (gs @ [g]) p)"
      using lastLive_genCells [OF closedGens_snoc [OF gs d fin, folded g]] by (fastforce split: if_splits)
    then have "engineServed A (gs @ [g]) h' (ExecW e) (ExecW ?e)"
      unfolding engineServed_def engineWriter.case by (intro exI [of _ ?e] conjI refl)
    then show ?thesis using ExecW e0(1) e'(1) run
      by (simp add: syncStep_def asyncStep_def engineOps_def enginePrecommit_def engineStaged_def)
  next
    case (CacheW c)
    have A: "lcCell K = A" using law by (simp add: engine_law_def)
    obtain c0 where c0: "w0 = CacheW c0" "map lciBuffer (lcwBuffer c) = map (\<lambda>g. liveIn A (genDone g) (genAccepted acc g)) gs"
      "lcwCache c = lcwCache c0"
      using w0 CacheW by (auto simp: engineStaged_def split: engineWriter.splits)
    obtain c' where c': "w' = CacheW c'" "lcwInv K acc c'" "lciImportBuffer (lcwIndexer c') = ?rs"
      "lcwBuffer c' = lcwBuffer c" "lcwCache c' = lcwCache c"
      using w CacheW by (auto simp: engineImported_def)
    have "\<exists>c1 c2. LiveCacheWriter_Precommit K True h' c' = Some (c1, None) \<and>
      LiveCacheWriter_Precommit K False h' c1 = Some (c2, None) \<and> lcwInv K acc c2 \<and> lciImportBuffer (lcwIndexer c2) = [] \<and>
      map lciBuffer (lcwBuffer c2) = map lciBuffer (lcwBuffer c') @ [liveIn A h' ?rs] \<and> lcwCache c2 = lcwCache c'"
      by (rule LiveCacheWriter_phases [OF c'(2), of h', unfolded A c'(3)]) (rule typed)
    then obtain c1 c2 where "LiveCacheWriter_Precommit K True h' c' = Some (c1, None)"
      "LiveCacheWriter_Precommit K False h' c1 = Some (c2, None)" "lcwInv K acc c2" "lciImportBuffer (lcwIndexer c2) = []"
      "map lciBuffer (lcwBuffer c2) = map lciBuffer (lcwBuffer c') @ [liveIn A h' ?rs]" "lcwCache c2 = lcwCache c'" by auto
    then show ?thesis using CacheW c0 c' acc
      by (simp add: syncStep_def asyncStep_def engineOps_def enginePrecommit_def engineStaged_def engineServed_def)
  next
    case (StgW s)
    have A: "lsCell S = A" using law by (simp add: engine_law_def)
    obtain s0 where s0: "w0 = StgW s0" "lswBatch s = stagedEntries A acc (encodedCell S) gs" "lswStore s = lswStore s0" "lswStore s0 \<noteq> None"
      using w0 StgW by (auto simp: engineStaged_def split: engineWriter.splits)
    obtain s' where s': "w' = StgW s'" "lswInv S acc s'" "lsiImportBuffer (lswIndexer s') = ?rs"
      "lswBuffer s' = lswBuffer s" "lswStore s' = lswStore s"
      using w StgW by (auto simp: engineImported_def)
    have b: "lswBatch s' = lswBatch s" by (simp add: lswBatch_def s'(4))
    have enc: "lsEncodedOf S h' r = encodedCell S (cellAt h' r)" for r by (simp add: lsEncodedOf_def encodedCell_def)
    have "\<exists>s1 s2. LiveStorageWriter_Precommit S True h' s' = Some (s1, None) \<and>
      LiveStorageWriter_Precommit S False h' s1 = Some (s2, None) \<and> lswInv S acc s2 \<and> lsiImportBuffer (lswIndexer s2) = [] \<and>
      lswStore s2 = lswStore s' \<and>
      lswBatch s2 = lswBatch s' @ map (\<lambda>r. (the (pathAt A h' r), encodedCell S (cellAt h' r))) (liveIn A h' ?rs)"
      by (rule LiveStorageWriter_phases [OF s'(2), of h', unfolded A s'(3) enc]) (rule typed)
    then obtain s1 s2 where "LiveStorageWriter_Precommit S True h' s' = Some (s1, None)"
      "LiveStorageWriter_Precommit S False h' s1 = Some (s2, None)" "lswInv S acc s2" "lsiImportBuffer (lswIndexer s2) = []"
      "lswStore s2 = lswStore s'"
      "lswBatch s2 = lswBatch s' @ map (\<lambda>r. (the (pathAt A h' r), encodedCell S (cellAt h' r))) (liveIn A h' ?rs)" by auto
    then show ?thesis using StgW s0 s' b acc
      by (simp add: syncStep_def asyncStep_def engineOps_def enginePrecommit_def engineStaged_def engineServed_def stagedEntries_def)
  qed
qed

section \<open>Commit\<close>

lemma LiveStorageWriter_Commit_returns:
  assumes "lswInv S acc s" "lswStore s = Some k"
  shows "\<exists>s' e. LiveStorageWriter_Commit S v s = Some (s', e)"
proof -
  obtain dk dv sk sv where run: "LiveStorageWriter_Commit S v s = do {
       store \<leftarrow> lswStore s;
       let (store, errs) = lsSetBatch S sk (map the sv) (lsDeleteBatch S dk store);
       Some (s\<lparr>lswStore := Some store, lswBuffer := []\<rparr>, joinErrors errs) }"
    by (rule LiveStorageWriter_Commit_run [OF assms(1)])
  then show ?thesis using assms(2) by (simp add: case_prod_beta)
qed

lemma LiveStorageWriter_Commit_frame:
  "LiveStorageWriter_Commit S v s = Some (s', e) \<Longrightarrow> \<exists>k. s' = s\<lparr>lswStore := Some k, lswBuffer := []\<rparr>"
  by (auto simp: LiveStorageWriter_Commit_def bind_eq_Some_conv Let_def case_prod_beta)

text \<open>The outcome of a block, in terms of the merged cells that its generations have for a path: the cache, up to what
  it evicts, and the backend hold the last value that is set, and nothing if there are only deletions. The backend may report
  errors, which the writer returns; what it holds then is left open.\<close>

definition engineOutcome ::
  "('c, 'v) cell_api \<Rightarrow> ('c, 'v, 'k) livecache_lib \<Rightarrow> ('c, 'v, 'x, 's) livestg_lib \<Rightarrow> ('c \<Rightarrow> bool) \<Rightarrow> 'c generation list \<Rightarrow>
   ('v, 'c, 'k, 'x, 's) engineWriter \<Rightarrow> err \<Rightarrow> ('v, 'c, 'k, 'x, 's) engineWriter \<Rightarrow> bool" where
  "engineOutcome A K S acc gs w err w' \<longleftrightarrow>
     (case w of
        ExecW e \<Rightarrow> err = None \<and> (\<exists>e'. w' = ExecW e' \<and> localCells (ecwStore e') = Map.empty)
      | CacheW c \<Rightarrow> err = None \<and> (\<exists>c'. w' = CacheW c' \<and> (\<forall>p. lcLookup K (lcwCache c') p = None \<or> lcLookup K (lcwCache c') p =
          blockValue (map (Value A) (genCells A acc gs p)) (lcLookup K (lcwCache c) p)))
      | StgW s \<Rightarrow> (\<exists>s' k k'. w' = StgW s' \<and> lswStore s = Some k \<and> lswStore s' = Some k' \<and>
          (err = None \<longrightarrow> (\<forall>p. lsLookup S k' p = blockValue (map (\<lambda>d. map_option (\<lambda>x. fst (lsForward S p x)) (Value A d)) (genCells A acc gs p))
             (lsLookup S k p)))))"

lemma genCells_path:
  assumes "closedGens A gs h" "d \<in> set (genCells A acc gs p)"
  shows "GetPath A d = Some p"
proof -
  obtain g where g: "g \<in> set gs" "genCell A acc g p = Some d"
    using assms(2) by (auto simp: genCells_def split: option.splits)
  then have fin: "finalized A (genHeap g) (genTxs g) (genTrans g) (genDone g)" using assms(1) by (simp add: closedGens_def)
  obtain r where r: "headCell A acc (genHeap g) (genTxs g) (genTrans g) p = Some r"
    "d = fst (mergedCell A (genHeap g) (survivors A (genHeap g) (genTxs g) (genTrans g) p))"
    using g(2) by (auto simp: genCell_def committedCell_def split: if_splits)
  then show ?thesis using headCell_facts [OF r(1), of "genDone g"] fin by (simp add: finalized_def)
qed

lemma engineCommit_ok:
  assumes law: "engine_law A K S" and w: "engineStaged A K S acc gs w0 w" and gs: "closedGens A gs h"
  shows "\<exists>w' e. wCommit (engineOps A K S) v h w = Some (w', e) \<and> engineFresh K S acc w' \<and> engineOutcome A K S acc gs w0 e w'"
proof (cases w0)
  case (ExecW e)
  then show ?thesis using w
    by (auto simp: engineStaged_def engineOps_def engineCommit_def engineOutcome_def ExecutionCacheWriter_Commit_def
        Clear_def Let_def engineFresh_def)
next
  case (CacheW c0)
  obtain c where c: "w = CacheW c" "map lciBuffer (lcwBuffer c) = map (\<lambda>g. liveIn A (genDone g) (genAccepted acc g)) gs"
    "lcwCache c = lcwCache c0" "lcwInv K acc c" "lciImportBuffer (lcwIndexer c) = []"
    using w CacheW by (auto simp: engineStaged_def)
  have lK: "livecache_law K" and A: "lcCell K = A" using law by (simp_all add: engine_law_def)
  let ?rs = "concat (map (\<lambda>g. liveIn A (genDone g) (genAccepted acc g)) gs)"
  have sub: "set ?rs \<subseteq> set (liveRefs A gs)" using accepted_live by (fastforce simp: liveRefs_def)
  have live: "pathAt (lcCell K) h r \<noteq> None \<and> typedAt (lcCell K) h r" if "r \<in> set (concat (map lciBuffer (lcwBuffer c)))" for r
    using closedGens_live [OF gs] sub that unfolding A c(2) by blast
  obtain k where k: "LiveCacheWriter_Commit K v h c = Some (c\<lparr>lcwCache := lcEvict K k, lcwBuffer := []\<rparr>, None)"
    "lcLookup K k = commitBatch (lcwBatch A h c) (lcLookup K (lcwCache c0))"
    using LiveCacheWriter_Commit_ok [where w = c and v = v, OF lK live] unfolding A c(3) by blast
  have batch: "lcwBatch A h c = stagedEntries A acc (Value A) gs"
    unfolding lcwBatch_def c(2) stagedEntries_def map_concat map_map comp_def
    by (rule arg_cong [where f = concat], rule map_cong [OF refl], rule map_cong [OF refl])
       (use gs accepted_live [of A _ acc] in \<open>auto simp: closedGens_def subset_iff\<close>)
  have look: "lcLookup K k p = blockValue (map (Value A) (genCells A acc gs p)) (lcLookup K (lcwCache c0) p)" for p
    unfolding k(2) batch commitBatch_values stagedEntries_def using gs by (subst block_entries) (simp_all add: closedGens_def)
  have "lcLookup K (lcEvict K k) p = None \<or> lcLookup K (lcEvict K k) p = lcLookup K k p" for p
    using lK by (auto simp: livecache_law_def)
  moreover have "engineFresh K S acc (CacheW (c\<lparr>lcwCache := lcEvict K k, lcwBuffer := []\<rparr>))"
    using c(4,5) by (simp add: engineFresh_def lcwInv_def)
  ultimately show ?thesis using CacheW c(1) k(1) unfolding look
    by (simp add: engineOps_def engineCommit_def engineOutcome_def)
next
  case (StgW s0)
  obtain s where s: "w = StgW s" "lswInv S acc s" "lswStore s = lswStore s0" "lswStore s0 \<noteq> None"
    "lswBatch s = stagedEntries A acc (encodedCell S) gs" "lsiImportBuffer (lswIndexer s) = []"
    using w StgW by (auto simp: engineStaged_def)
  then obtain k where k: "lswStore s0 = Some k" by blast
  have A: "lsCell S = A" using law by (simp add: engine_law_def)
  have k': "lswStore s = Some k" using s(3) k by simp
  obtain s2 err where s2: "LiveStorageWriter_Commit S v s = Some (s2, err)"
    using LiveStorageWriter_Commit_returns [OF s(2) k'] by blast
  obtain k2 where k2: "s2 = s\<lparr>lswStore := Some k2, lswBuffer := []\<rparr>" using LiveStorageWriter_Commit_frame [OF s2] by blast
  have set: "lsLookup S k2 = commitBatch (lswBatch s) (lsLookup S k)" if "err = None"
    using LiveStorageWriter_Commit_batch [OF s(2) k' s2 [unfolded that]] k2 by simp
  have enc: "map (encodedCell S) (genCells A acc gs p) =
      map (\<lambda>d. map_option (\<lambda>x. fst (lsForward S p x)) (Value A d)) (genCells A acc gs p)" for p
    by (rule map_cong [OF refl]) (use genCells_path [OF gs] in \<open>simp add: encodedCell_def A\<close>)
  have "lsLookup S k2 p = blockValue (map (\<lambda>d. map_option (\<lambda>x. fst (lsForward S p x)) (Value A d)) (genCells A acc gs p))
      (lsLookup S k p)" if "err = None" for p
    unfolding set [OF that] s(5) commitBatch_values stagedEntries_def enc [symmetric]
    using gs by (subst block_entries) (simp_all add: closedGens_def)
  moreover have "engineFresh K S acc (StgW s2)" using s(2,6) k2 by (simp add: engineFresh_def lswInv_def)
  ultimately show ?thesis using StgW s(1) s2 k k2
    by (simp add: engineOps_def engineCommit_def engineOutcome_def)
qed

section \<open>The contract\<close>

text \<open>The laws of the libraries go with the writers.\<close>

definition engineReady ::
  "('c, 'v) cell_api \<Rightarrow> ('c, 'v, 'k) livecache_lib \<Rightarrow> ('c, 'v, 'x, 's) livestg_lib \<Rightarrow> ('c \<Rightarrow> bool) \<Rightarrow> bool" where
  "engineReady A K S acc \<longleftrightarrow> engine_law A K S \<and> (\<exists>f. filt_law A acc f)"

lemma engine_block_writer:
  fixes A :: "('c, 'v) cell_api" and K :: "('c, 'v, 'k) livecache_lib" and S :: "('c, 'v, 'x, 's) livestg_lib"
  assumes law: "engine_law A K S" and f: "filt_law A acc f"
  shows "block_writer A (engineOps A K S) (engineFresh K S acc) (engineStaged A K S acc)
    (\<lambda>h ts. engineImported K S acc ts (filter (\<lambda>r. acc (cellAt h r)) ts)) (\<lambda>_ _ _ _. True)
    (engineServed A) (engineOutcome A K S acc)"
proof (unfold_locales, goal_cases)
  case (2 h g gs ts w0 w w')
  then show ?case by (simp only: filt_law_cong [OF f])
next
  case (3 gs ts h w0 w)
  then show ?case by (intro engineImport_ok [OF law]) auto
next
  case (4 gs h txs ts h' w0 w w')
  show ?case by (rule enginePhases_ok [OF law 4(1,2,4,5,6) refl])
qed (fact engineStaged_start engineCommit_ok [OF law])+

interpretation ew: block_writer A "engineOps A K S" "\<lambda>w. engineReady A K S acc \<and> engineFresh K S acc w"
  "\<lambda>gs w w'. engineReady A K S acc \<and> engineStaged A K S acc gs w w'"
  "\<lambda>h ts. engineImported K S acc ts (filter (\<lambda>r. acc (cellAt h r)) ts)" "\<lambda>_ _ _ _. True" "engineServed A" "engineOutcome A K S acc"
  for A :: "('c, 'v) cell_api" and K :: "('c, 'v, 'k) livecache_lib" and S :: "('c, 'v, 'x, 's) livestg_lib" and acc
  by (rule block_writer_guard) (auto simp: engineReady_def intro: engine_block_writer)

end
