(* ===== verification/EthTrie.thy ===== *)
theory EthTrie
  imports Codec Cells
begin

text \<open>
  The Merkle tries under \<open>src/storage/ethstorage\<close>. Tries, trie databases and proofs are
  go-ethereum's: \<open>'t\<close> is a trie, \<open>'n\<close> a set of dirty nodes, \<open>'d\<close> a trie database, \<open>'b\<close> a key-value
  database, and \<open>trie_lib\<close> lists the operations the engine calls. \<open>tLookup\<close>, \<open>dRoots\<close> and
  \<open>tBacked\<close> are not called by the code; the law uses them to say what a trie contains, which
  contents a database holds by root hash, and that a database holds the clean nodes of a trie.

  Modelled here: the shared database of \<open>ethtrie_storage_backend.go\<close> and the helpers of
  \<open>ethtrie_util.go\<close> and \<open>ethtrie_types.go\<close>.
\<close>

section \<open>Third-party operations\<close>

text \<open>Hashes and addresses are byte arrays, here byte lists of length 32 and 20.\<close>

record ('t, 'n, 'd, 'b) trie_lib =
  keccak :: "bytes \<Rightarrow> bytes"
  toHash :: "bytes \<Rightarrow> bytes"
  toAddress :: "bytes \<Rightarrow> bytes"
  hexDecode :: "string \<Rightarrow> bytes \<times> err"
  hexEncode :: "bytes \<Rightarrow> string"
  hexEncodeBig :: "int \<Rightarrow> string"
  emptyRoot :: bytes
  tGet :: "'t \<Rightarrow> bytes \<Rightarrow> bytes \<times> err"
  tUpdate :: "bytes list \<Rightarrow> bytes list \<Rightarrow> 't \<Rightarrow> 't \<times> err list"
  tHash :: "'t \<Rightarrow> bytes"
  tCommit :: "'t \<Rightarrow> bytes \<times> 'n option \<times> err"
  tNew :: "bytes \<Rightarrow> 'd \<Rightarrow> 't option \<times> err"
  tEmpty :: "'d \<Rightarrow> 't"
  tProve :: "bytes \<Rightarrow> 't \<Rightarrow> (bytes \<times> bytes) list \<times> err"
  verifyProof :: "bytes \<Rightarrow> bytes \<Rightarrow> (bytes \<rightharpoonup> bytes) \<Rightarrow> bytes option \<times> err"
  dUpdate :: "bytes \<Rightarrow> u64 \<Rightarrow> 'n \<Rightarrow> 'd \<Rightarrow> 'd \<times> err"
  bGet :: "'b \<Rightarrow> bytes \<Rightarrow> bytes option \<times> err"
  bPut :: "bytes \<Rightarrow> bytes \<Rightarrow> 'b \<Rightarrow> 'b \<times> err"
  tLookup :: "'t \<Rightarrow> bytes \<Rightarrow> bytes"
  tBacked :: "'d \<Rightarrow> 't \<Rightarrow> bool"
  dRoots :: "'d \<Rightarrow> bytes \<rightharpoonup> (bytes \<Rightarrow> bytes)"

text \<open>
  A trie is a finite map from keys to non-empty values: the empty value stands for a missing key
  and writing it deletes. The hash identifies the content. Committing hands the dirty nodes to
  the database, from which the content can be opened again by its root.
\<close>

definition trie_law :: "('t, 'n, 'd, 'b) trie_lib \<Rightarrow> bool" where
  "trie_law T \<longleftrightarrow>
     (\<forall>t k. tGet T t k = (tLookup T t k, None)) \<and>
     (\<forall>ks vs t. distinct ks \<and> length ks = length vs \<longrightarrow>
        (\<exists>t' es. tUpdate T ks vs t = (t', es) \<and> set es \<subseteq> {None} \<and>
           tLookup T t' = (\<lambda>k. case map_of (zip ks vs) k of Some v \<Rightarrow> v | None \<Rightarrow> tLookup T t k) \<and>
           (\<forall>d. tBacked T d t \<longrightarrow> tBacked T d t'))) \<and>
     (\<forall>t t'. tHash T t = tHash T t' \<longleftrightarrow> tLookup T t = tLookup T t') \<and>
     (\<forall>t. \<exists>ns. tCommit T t = (tHash T t, ns, None) \<and>
        (\<forall>d. tBacked T d t \<longrightarrow>
           (case ns of None \<Rightarrow> dRoots T d (tHash T t) = Some (tLookup T t)
            | Some n \<Rightarrow> (\<forall>block. \<exists>d'. dUpdate T (tHash T t) block n d = (d', None) \<and>
                dRoots T d' = (dRoots T d)(tHash T t \<mapsto> tLookup T t) \<and>
                (\<forall>u. tBacked T d u \<longrightarrow> tBacked T d' u))))) \<and>
     (\<forall>d r c. dRoots T d r = Some c \<longrightarrow>
        (\<exists>t. tNew T r d = (Some t, None) \<and> tLookup T t = c \<and> tHash T t = r \<and> tBacked T d t)) \<and>
     (\<forall>d. dRoots T d (emptyRoot T) = Some (\<lambda>_. [])) \<and>
     (\<forall>d. tLookup T (tEmpty T d) = (\<lambda>_. []) \<and> tBacked T d (tEmpty T d))"

text \<open>The key-value databases: what was put is read back.\<close>

definition disk_law :: "('t, 'n, 'd, 'b) trie_lib \<Rightarrow> bool" where
  "disk_law T \<longleftrightarrow>
     (\<forall>k v b. \<exists>b'. bPut T k v b = (b', None) \<and> bGet T b' k = (Some v, None) \<and>
        (\<forall>k'. k' \<noteq> k \<longrightarrow> bGet T b' k' = bGet T b k'))"

text \<open>
  Proofs: a successful verification tells the truth about every trie with the root. Producing one
  does not fail, and if the trie is not empty and all its keys are 32 bytes long, as hashed keys
  are, then its nodes are too long to be embedded, have different hashes, and the proof verifies in
  every database that holds them.
\<close>

definition secureTrie :: "('t, 'n, 'd, 'b) trie_lib \<Rightarrow> 't \<Rightarrow> bool" where
  "secureTrie T t \<longleftrightarrow> (\<forall>k. tLookup T t k \<noteq> [] \<longrightarrow> length k = 32) \<and> (\<exists>k. tLookup T t k \<noteq> [])"

definition goodProof :: "('t, 'n, 'd, 'b) trie_lib \<Rightarrow> 't \<Rightarrow> bytes \<Rightarrow> (bytes \<times> bytes) list \<Rightarrow> bool" where
  "goodProof T t k ps \<longleftrightarrow> (\<forall>(h, n) \<in> set ps. h = keccak T n \<and> 32 \<le> length n) \<and> inj_on (keccak T) (snd ` set ps) \<and>
     (\<forall>db. (\<forall>(h, n) \<in> set ps. db h = Some n) \<longrightarrow> snd (verifyProof T (tHash T t) k db) = None)"

definition proof_law :: "('t, 'n, 'd, 'b) trie_lib \<Rightarrow> bool" where
  "proof_law T \<longleftrightarrow>
     (\<forall>t k db v. verifyProof T (tHash T t) k db = (v, None) \<longrightarrow>
        v = (if tLookup T t k = [] then None else Some (tLookup T t k))) \<and>
     (\<forall>t k. \<exists>ps. tProve T k t = (ps, None) \<and> (secureTrie T t \<and> length k = 32 \<longrightarrow> goodProof T t k ps))"

text \<open>Hexadecimal strings with prefix, and the fixed-width conversions, which pad or crop at the
  front.\<close>

definition hexutil_law :: "('t, 'n, 'd, 'b) trie_lib \<Rightarrow> bool" where
  "hexutil_law T \<longleftrightarrow>
     (\<forall>b. hexDecode T (hexEncode T b) = (b, None)) \<and>
     (\<forall>s b. hexDecode T s = (b, None) \<longrightarrow> length s = 2 + 2 * length b) \<and>
     length (hexEncodeBig T 0) = 3 \<and>
     (\<forall>n k. 16 ^ k \<le> n \<and> n < 16 ^ Suc k \<longrightarrow> length (hexEncodeBig T n) = k + 3) \<and>
     (\<forall>b. length (toHash T b) = 32 \<and> (length b = 32 \<longrightarrow> toHash T b = b) \<and>
        (length b \<le> 32 \<longrightarrow> bytesVal (toHash T b) = bytesVal b)) \<and>
     (\<forall>b. length (toAddress T b) = 20 \<and> (length b = 20 \<longrightarrow> toAddress T b = b)) \<and>
     (\<forall>b. length (keccak T b) = 32)"

lemma trie_law_get: "trie_law T \<Longrightarrow> tGet T t k = (tLookup T t k, None)"
  by (simp add: trie_law_def)

lemma trie_law_update:
  assumes "trie_law T" "distinct ks" "length ks = length vs"
  obtains t' es where "tUpdate T ks vs t = (t', es)" "set es \<subseteq> {None}"
    "tLookup T t' = (\<lambda>k. case map_of (zip ks vs) k of Some v \<Rightarrow> v | None \<Rightarrow> tLookup T t k)"
    "\<forall>d. tBacked T d t \<longrightarrow> tBacked T d t'"
proof -
  have "\<forall>ks vs t. distinct ks \<and> length ks = length vs \<longrightarrow>
      (\<exists>t' es. tUpdate T ks vs t = (t', es) \<and> set es \<subseteq> {None} \<and>
         tLookup T t' = (\<lambda>k. case map_of (zip ks vs) k of Some v \<Rightarrow> v | None \<Rightarrow> tLookup T t k) \<and>
         (\<forall>d. tBacked T d t \<longrightarrow> tBacked T d t'))"
    using assms(1) unfolding trie_law_def by (elim conjE) assumption
  then obtain t' es where "tUpdate T ks vs t = (t', es)" "set es \<subseteq> {None}"
    "tLookup T t' = (\<lambda>k. case map_of (zip ks vs) k of Some v \<Rightarrow> v | None \<Rightarrow> tLookup T t k)"
    "\<forall>d. tBacked T d t \<longrightarrow> tBacked T d t'"
    using assms(2,3) by blast
  then show thesis by (rule that)
qed

lemma trie_law_hash: "trie_law T \<Longrightarrow> tHash T t = tHash T t' \<longleftrightarrow> tLookup T t = tLookup T t'"
proof -
  assume "trie_law T"
  then have "\<forall>t t'. tHash T t = tHash T t' \<longleftrightarrow> tLookup T t = tLookup T t'"
    unfolding trie_law_def by (elim conjE) assumption
  then show ?thesis by blast
qed

lemma trie_law_open:
  assumes "trie_law T" "dRoots T d r = Some c"
  obtains t where "tNew T r d = (Some t, None)" "tLookup T t = c" "tHash T t = r" "tBacked T d t"
proof -
  have "\<forall>d r c. dRoots T d r = Some c \<longrightarrow>
      (\<exists>t. tNew T r d = (Some t, None) \<and> tLookup T t = c \<and> tHash T t = r \<and> tBacked T d t)"
    using assms(1) unfolding trie_law_def by (elim conjE) assumption
  with assms(2) that show thesis by metis
qed

lemma trie_law_commit:
  assumes "trie_law T"
  shows "snd (snd (tCommit T t)) = None"
proof -
  have "\<forall>t. \<exists>ns. tCommit T t = (tHash T t, ns, None) \<and>
        (\<forall>d. tBacked T d t \<longrightarrow>
           (case ns of None \<Rightarrow> dRoots T d (tHash T t) = Some (tLookup T t)
            | Some n \<Rightarrow> (\<forall>block. \<exists>d'. dUpdate T (tHash T t) block n d = (d', None) \<and>
                dRoots T d' = (dRoots T d)(tHash T t \<mapsto> tLookup T t) \<and>
                (\<forall>u. tBacked T d u \<longrightarrow> tBacked T d' u))))"
    using assms unfolding trie_law_def by (elim conjE) assumption
  then show ?thesis by (metis snd_conv)
qed

lemma trie_law_empty:
  assumes "trie_law T"
  shows "dRoots T d (emptyRoot T) = Some (\<lambda>_. [])" "tLookup T (tEmpty T d) = (\<lambda>_. [])" "tBacked T d (tEmpty T d)"
  using assms unfolding trie_law_def by (elim conjE, simp)+

section \<open>The shared database (ethtrie_storage_backend.go)\<close>

text \<open>
  The sixteen shard handles are numbers of databases: \<open>slice.Fill\<close> sets all of them to the same
  one. Configuration and node cache play no role for the content.
\<close>

record ('d, 'b) EthShardTrieDB =
  mainTrieDB :: 'd
  diskShardDBs :: "nat list"
  diskDB :: "nat \<Rightarrow> 'b"

definition NewEthShardTrieMemDB :: "'d \<Rightarrow> (nat \<Rightarrow> 'b) \<Rightarrow> ('d, 'b) EthShardTrieDB" where
  "NewEthShardTrieMemDB db disks = \<lparr>mainTrieDB = db, diskShardDBs = replicate 16 0, diskDB = disks\<rparr>"

text \<open>Opening the database directory may fail.\<close>

definition NewEthShardLvlDB ::
  "err \<Rightarrow> 'd \<Rightarrow> (nat \<Rightarrow> 'b) \<Rightarrow> ('d, 'b) EthShardTrieDB option \<times> err" where
  "NewEthShardLvlDB openErr db disks =
     (case openErr of
        Some e \<Rightarrow> (None, Some e)
      | None \<Rightarrow> (Some \<lparr>mainTrieDB = db, diskShardDBs = replicate 16 0, diskDB = disks\<rparr>, None))"

definition ShardFromKey :: "string \<Rightarrow> ('d, 'b) EthShardTrieDB \<Rightarrow> nat" where
  "ShardFromKey key this =
     (case key of [] \<Rightarrow> diskShardDBs this ! 0 | c # _ \<Rightarrow> diskShardDBs this ! (of_char c div 16))"

definition diskGet ::
  "('t, 'n, 'd, 'b) trie_lib \<Rightarrow> nat \<Rightarrow> bytes \<Rightarrow> ('d, 'b) EthShardTrieDB \<Rightarrow> bytes option \<times> err" where
  "diskGet T i k this = bGet T (diskDB this i) k"

definition diskPut ::
  "('t, 'n, 'd, 'b) trie_lib \<Rightarrow> nat \<Rightarrow> bytes \<Rightarrow> bytes \<Rightarrow> ('d, 'b) EthShardTrieDB \<Rightarrow> ('d, 'b) EthShardTrieDB \<times> err" where
  "diskPut T i k v this =
     (let (b, e) = bPut T k v (diskDB this i) in (this\<lparr>diskDB := (diskDB this)(i := b)\<rparr>, e))"

definition EthShardTrieDB_Commit ::
  "('t, 'n, 'd, 'b) trie_lib \<Rightarrow> 't \<Rightarrow> u64 \<Rightarrow> ('d, 'b) EthShardTrieDB \<Rightarrow>
   (bytes \<times> 't option \<times> err) \<times> ('d, 'b) EthShardTrieDB" where
  "EthShardTrieDB_Commit T trie block this =
     (case tCommit T trie of
        (_, _, Some e) \<Rightarrow> ((replicate 32 0, None, joinErrors [Some ''trie.Commit:'', Some e]), this)
      | (root, nodes, None) \<Rightarrow>
          let (db, e) = (case nodes of None \<Rightarrow> (mainTrieDB this, None)
                         | Some n \<Rightarrow> dUpdate T root block n (mainTrieDB this));
              this = this\<lparr>mainTrieDB := db\<rparr>
          in (case e of
                Some e \<Rightarrow> ((replicate 32 0, None, joinErrors [Some ''ethdb.Update:'', Some e]), this)
              | None \<Rightarrow>
                  (case tNew T root db of
                     (newTrie, e) \<Rightarrow> ((root, newTrie, if e \<noteq> None then joinErrors [Some ''ethmpt.NewParallel:'', e] else None), this))))"

text \<open>Sixteen handles to one database.\<close>

definition oneDisk :: "('d, 'b) EthShardTrieDB \<Rightarrow> bool" where
  "oneDisk db \<longleftrightarrow> (\<exists>i. diskShardDBs db = replicate 16 i)"

lemma ShardFromKey_oneDisk: "oneDisk db \<Longrightarrow> ShardFromKey key db = diskShardDBs db ! 0"
proof -
  assume "oneDisk db"
  then obtain i where i: "diskShardDBs db = replicate 16 i" by (auto simp: oneDisk_def)
  have "(of_char c :: nat) div 16 < 16" for c
  proof -
    have "(of_char c :: nat) < 256" by simp
    then show ?thesis by (intro less_mult_imp_div_less) simp
  qed
  then show ?thesis using i by (simp add: ShardFromKey_def split: list.split)
qed

lemma EthShardTrieDB_Commit_ok:
  assumes "trie_law T" "tBacked T (mainTrieDB db) trie"
  obtains t' db' where "EthShardTrieDB_Commit T trie block db = ((tHash T trie, Some t', None), db')"
    "tLookup T t' = tLookup T trie" "tBacked T (mainTrieDB db') t'"
    "dRoots T (mainTrieDB db') = (dRoots T (mainTrieDB db))(tHash T trie \<mapsto> tLookup T trie)"
    "diskShardDBs db' = diskShardDBs db" "diskDB db' = diskDB db"
    "\<forall>u. tBacked T (mainTrieDB db) u \<longrightarrow> tBacked T (mainTrieDB db') u"
proof -
  let ?d = "mainTrieDB db" and ?r = "tHash T trie"
  have "\<forall>t. \<exists>ns. tCommit T t = (tHash T t, ns, None) \<and>
        (\<forall>d. tBacked T d t \<longrightarrow>
           (case ns of None \<Rightarrow> dRoots T d (tHash T t) = Some (tLookup T t)
            | Some n \<Rightarrow> (\<forall>block. \<exists>d'. dUpdate T (tHash T t) block n d = (d', None) \<and>
                dRoots T d' = (dRoots T d)(tHash T t \<mapsto> tLookup T t) \<and>
                (\<forall>u. tBacked T d u \<longrightarrow> tBacked T d' u))))"
    using assms(1) unfolding trie_law_def by (elim conjE) assumption
  then obtain ns where ns: "tCommit T trie = (?r, ns, None)"
    "case ns of None \<Rightarrow> dRoots T ?d ?r = Some (tLookup T trie)
      | Some n \<Rightarrow> (\<forall>block. \<exists>d'. dUpdate T ?r block n ?d = (d', None) \<and>
          dRoots T d' = (dRoots T ?d)(?r \<mapsto> tLookup T trie) \<and> (\<forall>u. tBacked T ?d u \<longrightarrow> tBacked T d' u))"
    using assms(2) by blast
  have "\<exists>d'. (case ns of None \<Rightarrow> (?d, None) | Some n \<Rightarrow> dUpdate T ?r block n ?d) = (d', None) \<and>
      dRoots T d' = (dRoots T ?d)(?r \<mapsto> tLookup T trie) \<and> (\<forall>u. tBacked T ?d u \<longrightarrow> tBacked T d' u)"
    using ns(2) by (cases ns) (auto simp: map_upd_triv)
  then obtain d' where d': "(case ns of None \<Rightarrow> (?d, None) | Some n \<Rightarrow> dUpdate T ?r block n ?d) = (d', None)"
    "dRoots T d' = (dRoots T ?d)(?r \<mapsto> tLookup T trie)" "\<forall>u. tBacked T ?d u \<longrightarrow> tBacked T d' u" by blast
  obtain t' where t': "tNew T ?r d' = (Some t', None)" "tLookup T t' = tLookup T trie" "tBacked T d' t'"
    by (rule trie_law_open [OF assms(1), of d' ?r "tLookup T trie"]) (simp_all add: d'(2))
  show ?thesis
    by (rule that [of t' "db\<lparr>mainTrieDB := d'\<rparr>"])
       (use ns(1) d' t' in \<open>simp_all add: EthShardTrieDB_Commit_def\<close>)
qed

text \<open>A database that only gains: what can be opened stays as it is.\<close>

definition dbGrows :: "('t, 'n, 'd, 'b) trie_lib \<Rightarrow> 'd \<Rightarrow> 'd \<Rightarrow> bool" where
  "dbGrows T d d' \<longleftrightarrow> (\<forall>r c. dRoots T d r = Some c \<longrightarrow> dRoots T d' r = Some c) \<and> (\<forall>u. tBacked T d u \<longrightarrow> tBacked T d' u)"

lemma dbGrows_refl [simp]: "dbGrows T d d"
  by (simp add: dbGrows_def)

lemma dbGrows_trans: "dbGrows T d d' \<Longrightarrow> dbGrows T d' d'' \<Longrightarrow> dbGrows T d d''"
  by (simp add: dbGrows_def)

lemma dbGrows_commit:
  assumes "trie_law T" "dRoots T d' = (dRoots T d)(tHash T t \<mapsto> tLookup T t)" "\<forall>u. tBacked T d u \<longrightarrow> tBacked T d' u"
  shows "dbGrows T d d'"
proof -
  have "dRoots T d' r = Some c" if "dRoots T d r = Some c" for r c
  proof (cases "r = tHash T t")
    case True
    obtain u where "tLookup T u = c" "tHash T u = r" using trie_law_open [OF assms(1) \<open>dRoots T d r = Some c\<close>] by metis
    then have "tLookup T t = c" using True trie_law_hash [OF assms(1)] by metis
    then show ?thesis using assms(2) True by simp
  qed (use that assms(2) in simp)
  then show ?thesis using assms(3) by (simp add: dbGrows_def)
qed

section \<open>Proof helpers (ethtrie_util.go, ethtrie_types.go)\<close>

definition MustDecode :: "('t, 'n, 'd, 'b) trie_lib \<Rightarrow> string \<Rightarrow> bytes option" where
  "MustDecode T s = (case hexDecode T s of (_, Some _) \<Rightarrow> None | (b, None) \<Rightarrow> Some b)"

text \<open>The in-memory database never refuses a \<open>Put\<close>.\<close>

definition nodeKey :: "('t, 'n, 'd, 'b) trie_lib \<Rightarrow> bytes \<Rightarrow> bytes" where
  "nodeKey T n = (if 32 \<le> length n then keccak T n else n)"

fun ProofArrayToDB :: "('t, 'n, 'd, 'b) trie_lib \<Rightarrow> string list \<Rightarrow> (bytes \<rightharpoonup> bytes) \<Rightarrow> (bytes \<rightharpoonup> bytes) option" where
  "ProofArrayToDB T [] db = Some db"
| "ProofArrayToDB T (p # ps) db = do {
     proofBytes \<leftarrow> MustDecode T p;
     ProofArrayToDB T ps (db(nodeKey T proofBytes \<mapsto> proofBytes))
   }"

definition VerifyProof :: "('t, 'n, 'd, 'b) trie_lib \<Rightarrow> bytes \<Rightarrow> string list \<Rightarrow> bytes \<Rightarrow> unit option" where
  "VerifyProof T rootHash proof addr = do {
     proofDB \<leftarrow> ProofArrayToDB T proof Map.empty;
     case verifyProof T rootHash (keccak T addr) proofDB of
       (Some data, None) \<Rightarrow> if length data = 0 then None else Some ()
     | _ \<Rightarrow> None
   }"

text \<open>\<open>GetFromTrie\<close> decodes into its type parameter; \<open>dec\<close> is the RLP decoder at that type.\<close>

definition GetFromTrie ::
  "('t, 'n, 'd, 'b) trie_lib \<Rightarrow> (bytes \<Rightarrow> string + 'a) \<Rightarrow> 't \<Rightarrow> bytes \<Rightarrow> string + 'a" where
  "GetFromTrie T dec trie key =
     (case tGet T trie (keccak T key) of
        (_, Some e) \<Rightarrow> Inl e
      | (buffer, None) \<Rightarrow> if length buffer = 0 then Inl ''key not found in trie'' else dec buffer)"

text \<open>\<open>proofList\<close> keeps the nodes in the order in which the trie puts them, without their keys.\<close>

definition proofList :: "('t, 'n, 'd, 'b) trie_lib \<Rightarrow> (bytes \<times> bytes) list \<Rightarrow> string list" where
  "proofList T ps = map (\<lambda>(_, n). hexEncode T n) ps"

definition decodeHash :: "('t, 'n, 'd, 'b) trie_lib \<Rightarrow> string \<Rightarrow> bytes \<times> nat \<times> err" where
  "decodeHash T s =
     (let s = (if HasPrefix s ''0x'' \<or> HasPrefix s ''0X'' then drop 2 s else s);
          s = (if odd (length s) then ''0'' @ s else s)
      in case hexDecodeString s of
           Inl _ \<Rightarrow> (replicate 32 0, 0, Some ''hex string invalid'')
         | Inr b \<Rightarrow>
             if length b > 32 then (replicate 32 0, length b, Some ''hex string too long, 32 bytes at most'')
             else (toHash T b, length b, None))"

lemma ProofArrayToDB_encoded:
  assumes "hexutil_law T"
  shows "ProofArrayToDB T (map (hexEncode T) ns) db = Some (fold (\<lambda>n db. db(nodeKey T n \<mapsto> n)) ns db)"
  using assms by (induction ns arbitrary: db) (simp_all add: MustDecode_def hexutil_law_def)

text \<open>When no two of the nodes collide, every node is found under its key.\<close>

definition nodesDB :: "('t, 'n, 'd, 'b) trie_lib \<Rightarrow> bytes list \<Rightarrow> bytes \<rightharpoonup> bytes" where
  "nodesDB T ns = fold (\<lambda>n db. db(nodeKey T n \<mapsto> n)) ns Map.empty"

lemma fold_nodes_find:
  assumes "inj_on (nodeKey T) (set ns \<union> S)" "n \<in> set ns \<union> S" "\<And>m. m \<in> S \<Longrightarrow> db (nodeKey T m) = Some m"
  shows "fold (\<lambda>n db. db(nodeKey T n \<mapsto> n)) ns db (nodeKey T n) = Some n"
  using assms
proof (induction ns arbitrary: db S)
  case Nil
  then show ?case by simp
next
  case (Cons m ns)
  have "fold (\<lambda>n db. db(nodeKey T n \<mapsto> n)) ns (db(nodeKey T m \<mapsto> m)) (nodeKey T n) = Some n"
  proof (rule Cons.IH [of "insert m S"])
    show "(db(nodeKey T m \<mapsto> m)) (nodeKey T x) = Some x" if "x \<in> insert m S" for x
      using that Cons.prems by (auto simp: inj_on_def)
  qed (use Cons.prems in auto)
  then show ?case by (simp del: fun_upd_apply)
qed

lemma nodesDB_find: "inj_on (nodeKey T) (set ns) \<Longrightarrow> n \<in> set ns \<Longrightarrow> nodesDB T ns (nodeKey T n) = Some n"
  unfolding nodesDB_def by (rule fold_nodes_find [of T ns "{}"]) auto

text \<open>A proof that went through its textual form verifies, and gives the value in the trie.\<close>

lemma verify_nodes:
  assumes "proof_law T" "goodProof T t k ps"
  shows "verifyProof T (tHash T t) k (nodesDB T (map snd ps)) =
    (if tLookup T t k = [] then None else Some (tLookup T t k), None)"
proof -
  have key: "nodeKey T n = keccak T n \<and> h = keccak T n" if "(h, n) \<in> set ps" for h n
    using that assms(2) by (auto simp: goodProof_def nodeKey_def)
  then have eq: "nodeKey T n = keccak T n" if "n \<in> snd ` set ps" for n using that by force
  have "inj_on (keccak T) (snd ` set ps)" using assms(2) by (simp add: goodProof_def)
  then have "inj_on (nodeKey T) (set (map snd ps))" using inj_on_cong [of "snd ` set ps" "nodeKey T" "keccak T"] eq by simp
  then have found: "nodesDB T (map snd ps) h = Some n" if "(h, n) \<in> set ps" for h n
  proof -
    have "n \<in> set (map snd ps)" using that by force
    then have "nodesDB T (map snd ps) (nodeKey T n) = Some n"
      using \<open>inj_on (nodeKey T) (set (map snd ps))\<close> by (rule nodesDB_find [rotated])
    then show ?thesis using key [OF that] by simp
  qed
  have "\<forall>db. (\<forall>(h, n) \<in> set ps. db h = Some n) \<longrightarrow> snd (verifyProof T (tHash T t) k db) = None"
    using assms(2) unfolding goodProof_def by (elim conjE) assumption
  then have "snd (verifyProof T (tHash T t) k (nodesDB T (map snd ps))) = None" using found by blast
  then obtain v where v: "verifyProof T (tHash T t) k (nodesDB T (map snd ps)) = (v, None)" by (metis prod.collapse)
  have "\<forall>t k db v. verifyProof T (tHash T t) k db = (v, None) \<longrightarrow> v = (if tLookup T t k = [] then None else Some (tLookup T t k))"
    using assms(1) unfolding proof_law_def by (elim conjE) assumption
  then show ?thesis using v by blast
qed

end
