(* ===== verification/FinTrie.thy ===== *)
theory FinTrie
  imports EthTrie "HOL-Library.Finite_Map"
begin

text \<open>
  A library of tries for the closed instances of the theorems: a trie is a finite map, its hash
  counts its content in unary, the database remembers the roots that were committed, and the
  conversions of hexadecimal strings are the real ones. Hashing a slot keeps its last 32 bytes.
\<close>

type_synonym ftrie = "(bytes, bytes) fmap"

definition fLookup :: "ftrie \<Rightarrow> bytes \<Rightarrow> bytes" where
  "fLookup t k = (case fmlookup t k of None \<Rightarrow> [] | Some v \<Rightarrow> v)"

definition fNorm :: "ftrie \<Rightarrow> ftrie" where
  "fNorm t = fmfilter (\<lambda>k. fmlookup t k \<noteq> Some []) t"

definition fHash :: "ftrie \<Rightarrow> bytes" where
  "fHash t = replicate (to_nat (fNorm t)) 0"

definition fOpen :: "bytes \<Rightarrow> ftrie" where
  "fOpen r = from_nat (length r)"

lemma fNorm_lookup [simp]: "fLookup (fNorm t) = fLookup t"
  by (rule ext) (auto simp: fLookup_def fNorm_def split: option.split)

lemma fNorm_cong: "fLookup t = fLookup t' \<Longrightarrow> fNorm t = fNorm t'"
proof (rule fmap_ext)
  fix k
  assume "fLookup t = fLookup t'"
  then have "fLookup t k = fLookup t' k" by simp
  then show "fmlookup (fNorm t) k = fmlookup (fNorm t') k"
    by (auto simp: fLookup_def fNorm_def split: option.splits)
qed

lemma fOpen_hash [simp]: "fOpen (fHash t) = fNorm t"
  by (simp add: fOpen_def fHash_def)

lemma fHash_iff: "fHash t = fHash t' \<longleftrightarrow> fLookup t = fLookup t'"
  by (metis fHash_def fNorm_cong fNorm_lookup fOpen_hash)

lemma fHash_norm [simp]: "fHash (fNorm t) = fHash t"
  by (simp add: fHash_iff)

fun fPutAll :: "(bytes \<times> bytes) list \<Rightarrow> ftrie \<Rightarrow> ftrie" where
  "fPutAll [] t = t"
| "fPutAll ((k, v) # kvs) t = fmupd k v (fPutAll kvs t)"

lemma fPutAll_lookup:
  "fLookup (fPutAll kvs t) = (\<lambda>k. case map_of kvs k of Some v \<Rightarrow> v | None \<Rightarrow> fLookup t k)"
  by (induction kvs) (auto simp: fLookup_def fun_eq_iff)

text \<open>Padding and cropping at the front.\<close>

definition leftPad :: "nat \<Rightarrow> bytes \<Rightarrow> bytes" where
  "leftPad n b = replicate (n - length b) 0 @ drop (length b - n) b"

lemma leftPad_props: "length (leftPad n b) = n" "length b = n \<Longrightarrow> leftPad n b = b"
  "length b \<le> n \<Longrightarrow> bytesVal (leftPad n b) = bytesVal b"
  by (simp_all add: leftPad_def bytesVal_pad)

definition hexChar :: "nat \<Rightarrow> char" where
  "hexChar n = ''0123456789abcdef'' ! n"

fun hexNat :: "nat \<Rightarrow> string" where
  "hexNat n = (if n < 16 then [hexChar n] else hexNat (n div 16) @ [hexChar (n mod 16)])"

declare hexNat.simps [simp del]

definition hexBytes :: "bytes \<Rightarrow> string" where
  "hexBytes b = concat (map (\<lambda>w. [hexChar (unat w div 16), hexChar (unat w mod 16)]) b)"

definition realHexDecode :: "string \<Rightarrow> bytes \<times> err" where
  "realHexDecode s =
     (if \<not> HasPrefix s ''0x'' then ([], Some ''hex string without 0x prefix'')
      else case hexDecodeString (drop 2 s) of Inl e \<Rightarrow> ([], Some e) | Inr b \<Rightarrow> (b, None))"

lemma hexDigit_hexChar: "n < 16 \<Longrightarrow> hexDigit (hexChar n) = Some n"
proof -
  assume "n < 16"
  then have "n \<in> set [0..<16]" by simp
  then show ?thesis unfolding hexChar_def by (simp add: upt_rec) (elim disjE, simp_all add: hexDigit_def)
qed

lemma hexBytes_roundtrip: "hexDecodeString (hexBytes b) = Inr b"
proof (induction b)
  case (Cons w b)
  have "unat w < 256" using unsigned_less [of w] by simp
  then have "unat w div 16 < 16" by (intro less_mult_imp_div_less) simp
  then show ?case using Cons by (simp add: hexBytes_def hexDigit_hexChar)
qed (simp add: hexBytes_def)

lemma length_hexNat: "16 ^ k \<le> n \<Longrightarrow> n < 16 ^ Suc k \<Longrightarrow> length (hexNat n) = Suc k"
proof (induction k arbitrary: n)
  case 0
  then show ?case by (subst hexNat.simps) simp
next
  case (Suc k)
  then have "16 ^ k \<le> n div 16" "n div 16 < 16 ^ Suc k" by (simp_all add: less_eq_div_iff_mult_less_eq less_mult_imp_div_less)
  moreover have "(16 :: nat) \<le> 16 ^ Suc k" by simp
  then have "\<not> n < 16" using order.trans [OF _ Suc.prems(1)] by (simp add: not_less)
  ultimately show ?case using Suc.IH by (subst hexNat.simps) simp
qed

definition fin_lib :: "(ftrie, unit, bytes list, bytes \<rightharpoonup> bytes) trie_lib" where
  "fin_lib = \<lparr>
     keccak = (\<lambda>b. take 32 (rev b @ replicate 32 0)),
     toHash = leftPad 32, toAddress = leftPad 20,
     hexDecode = realHexDecode, hexEncode = (\<lambda>b. ''0x'' @ hexBytes b), hexEncodeBig = (\<lambda>n. ''0x'' @ hexNat (nat n)),
     emptyRoot = fHash fmempty,
     tGet = (\<lambda>t k. (fLookup t k, None)),
     tUpdate = (\<lambda>ks vs t. (fPutAll (zip ks vs) t, [])),
     tHash = fHash, tCommit = (\<lambda>t. (fHash t, Some (), None)),
     tNew = (\<lambda>r d. if r \<in> set d \<or> r = fHash fmempty then (Some (fOpen r), None) else (None, Some ''missing trie node'')),
     tEmpty = (\<lambda>_. fmempty),
     tProve = (\<lambda>k t. ([], None)),
     verifyProof = (\<lambda>r k db. if fHash (fOpen r) = r
        then (if fLookup (fOpen r) k = [] then None else Some (fLookup (fOpen r) k), None)
        else (None, Some ''missing proof node'')),
     dUpdate = (\<lambda>r block n d. (r # d, None)),
     bGet = (\<lambda>b k. (b k, if b k = None then Some ''not found'' else None)),
     bPut = (\<lambda>k v b. (b(k \<mapsto> v), None)),
     tLookup = fLookup, tBacked = (\<lambda>d t. True),
     dRoots = (\<lambda>d r. if fHash (fOpen r) = r \<and> (r \<in> set d \<or> r = fHash fmempty) then Some (fLookup (fOpen r)) else None)\<rparr>"

lemma fin_sel [simp]:
  "tGet fin_lib t k = (fLookup t k, None)" "tUpdate fin_lib ks vs t = (fPutAll (zip ks vs) t, [])"
  "tHash fin_lib = fHash" "tCommit fin_lib t = (fHash t, Some (), None)"
  "tNew fin_lib r d = (if r \<in> set d \<or> r = fHash fmempty then (Some (fOpen r), None) else (None, Some ''missing trie node''))"
  "tEmpty fin_lib d = fmempty" "tProve fin_lib k t = ([], None)" "dUpdate fin_lib r block n d = (r # d, None)"
  "verifyProof fin_lib r k db = (if fHash (fOpen r) = r
     then (if fLookup (fOpen r) k = [] then None else Some (fLookup (fOpen r) k), None)
     else (None, Some ''missing proof node''))"
  "bGet fin_lib m k = (m k, if m k = None then Some ''not found'' else None)" "bPut fin_lib k v m = (m(k \<mapsto> v), None)"
  "tLookup fin_lib = fLookup" "tBacked fin_lib d t" "emptyRoot fin_lib = fHash fmempty"
  "dRoots fin_lib d r = (if fHash (fOpen r) = r \<and> (r \<in> set d \<or> r = fHash fmempty) then Some (fLookup (fOpen r)) else None)"
  "keccak fin_lib b = take 32 (rev b @ replicate 32 0)" "toHash fin_lib = leftPad 32" "toAddress fin_lib = leftPad 20"
  "hexDecode fin_lib = realHexDecode" "hexEncode fin_lib b = ''0x'' @ hexBytes b"
  "hexEncodeBig fin_lib i = ''0x'' @ hexNat (nat i)"
  by (simp_all add: fin_lib_def)

lemma fLookup_empty [simp]: "fLookup fmempty = (\<lambda>_. [])"
  by (rule ext) (simp add: fLookup_def)

lemma fin_dRoots_commit: "dRoots fin_lib (fHash t # d) = (dRoots fin_lib d)(fHash t \<mapsto> fLookup t)"
  by (rule ext) auto

lemma fin_trie_law: "trie_law fin_lib"
  unfolding trie_law_def
proof (intro conjI allI impI)
  show "\<exists>ns. tCommit fin_lib t = (tHash fin_lib t, ns, None) \<and>
      (\<forall>d. tBacked fin_lib d t \<longrightarrow> (case ns of None \<Rightarrow> dRoots fin_lib d (tHash fin_lib t) = Some (tLookup fin_lib t)
        | Some n \<Rightarrow> (\<forall>block. \<exists>d'. dUpdate fin_lib (tHash fin_lib t) block n d = (d', None) \<and>
            dRoots fin_lib d' = (dRoots fin_lib d)(tHash fin_lib t \<mapsto> tLookup fin_lib t) \<and>
            (\<forall>u. tBacked fin_lib d u \<longrightarrow> tBacked fin_lib d' u))))" for t
    by (simp add: fin_dRoots_commit del: fin_sel(15))
  show "\<exists>t. tNew fin_lib r d = (Some t, None) \<and> tLookup fin_lib t = c \<and> tHash fin_lib t = r \<and> tBacked fin_lib d t"
    if "dRoots fin_lib d r = Some c" for d r c
    using that by (auto split: if_splits)
qed (auto simp: fPutAll_lookup fHash_iff cong: option.case_cong)

lemma fin_disk_law: "disk_law fin_lib"
  by (auto simp: disk_law_def)

lemma fin_proof_law: "proof_law fin_lib"
  by (auto simp: proof_law_def goodProof_def split: if_splits)

lemma fin_hexutil_law: "hexutil_law fin_lib"
  unfolding hexutil_law_def
proof (intro conjI allI impI)
  show "hexDecode fin_lib (hexEncode fin_lib b) = (b, None)" for b
    by (simp add: realHexDecode_def HasPrefix_def hexBytes_roundtrip)
  show "length s = 2 + 2 * length b" if dec: "hexDecode fin_lib s = (b, None)" for s b
  proof -
    have "HasPrefix s ''0x''" "hexDecodeString (drop 2 s) = Inr b"
      using dec by (auto simp: realHexDecode_def split: if_splits sum.splits)
    then show ?thesis using hexDecode_length [of "drop 2 s" b] by (auto simp: HasPrefix_def elim: prefixE)
  qed
  show "length (hexEncodeBig fin_lib 0) = 3" by (simp add: hexNat.simps)
  show "length (hexEncodeBig fin_lib n) = k + 3" if "16 ^ k \<le> n \<and> n < 16 ^ Suc k" for n k
  proof -
    have "0 \<le> n" using that by (meson order.trans zero_le_power zero_le_numeral)
    then obtain m where "n = int m" by (metis nonneg_int_cases)
    then have "16 ^ k \<le> m" "m < 16 ^ Suc k" using that by (simp_all flip: of_nat_le_iff of_nat_less_iff [where ?'a = int])
    then show ?thesis using length_hexNat [of k m] \<open>n = int m\<close> by simp
  qed
qed (simp_all add: leftPad_props)

end
