(* ===== verification/EthAccount.thy ===== *)
theory EthAccount
  imports FinTrie
begin

text \<open>
  \<open>src/storage/ethstorage/eth_account.go\<close>: an Ethereum account with its storage trie. Nonce,
  balance and code are fields of the account; every other path of the account is an entry of the
  storage trie under the Keccak hash of the path, or of the slot for native storage. Accounts
  are changed by \<open>UpdateAccountStorageTrie\<close> and written to the database by \<open>Commit\<close>.

  An account refers to the shared database through its field \<open>backend\<close>, which is nil for accounts
  that were loaded from the world trie; the database itself is passed along.
\<close>

section \<open>State\<close>

record StateAccount =
  saNonce :: u64
  saBalance :: "256 word"
  saRoot :: bytes
  saCodeHash :: bytes

record 't Account =
  acAddr :: bytes
  acState :: StateAccount
  acCode :: "bytes option"
  acTrie :: "'t option"
  acBackend :: bool
  acErr :: err
  acDirty :: bool

text \<open>
  The remaining third-party operations: the type assertions on \<open>CRDT.Value()\<close> (None is a panic),
  the RLP of an account, \<open>slice.SortBy1st\<close>, which sorts two parallel slices by the first, and the
  text of the error \<open>ErrNotFound\<close>.
\<close>

record ('v, 't, 'n, 'd, 'b) eth_lib =
  eTrie :: "('t, 'n, 'd, 'b) trie_lib"
  eCodec :: "'v codec_lib"
  eU64 :: "'v \<Rightarrow> u64 option"
  eU256 :: "'v \<Rightarrow> 256 word option"
  eBytes :: "'v \<Rightarrow> bytes option"
  eStateEnc :: "StateAccount \<Rightarrow> bytes"
  eStateDec :: "bytes \<Rightarrow> string + StateAccount"
  eSortBy1st :: "bytes list \<Rightarrow> bytes list \<Rightarrow> bytes list \<times> bytes list"
  eNotFound :: string

definition eth_law :: "('v, 't, 'n, 'd, 'b) eth_lib \<Rightarrow> bool" where
  "eth_law E \<longleftrightarrow> trie_law (eTrie E) \<and> disk_law (eTrie E) \<and> hexutil_law (eTrie E) \<and>
     (\<forall>s. eStateEnc E s \<noteq> [] \<and> eStateDec E (eStateEnc E s) = Inr s) \<and>
     (\<forall>ks vs. length ks = length vs \<longrightarrow>
        (case eSortBy1st E ks vs of (ks', vs') \<Rightarrow> length ks' = length vs' \<and>
           mset (zip ks' vs') = mset (zip ks vs)))"

lemma eth_law_sort:
  assumes "eth_law E" "length ks = length vs" "eSortBy1st E ks vs = (ks', vs')"
  shows "length ks' = length vs'" "mset (zip ks' vs') = mset (zip ks vs)"
proof -
  have "\<forall>ks vs. length ks = length vs \<longrightarrow> (case eSortBy1st E ks vs of (ks', vs') \<Rightarrow>
      length ks' = length vs' \<and> mset (zip ks' vs') = mset (zip ks vs))"
    using assms(1) unfolding eth_law_def by (elim conjE) assumption
  from this [rule_format, OF assms(2)] show "length ks' = length vs'" "mset (zip ks' vs') = mset (zip ks vs)"
    using assms(3) by simp_all
qed

type_synonym ('t, 'd, 'b) acctWorld = "'t Account \<times> ('d, 'b) EthShardTrieDB"

section \<open>Construction\<close>

definition EmptyAccountState :: "('v, 't, 'n, 'd, 'b) eth_lib \<Rightarrow> StateAccount" where
  "EmptyAccountState E = \<lparr>saNonce = 0, saBalance = 0, saRoot = emptyRoot (eTrie E), saCodeHash = keccak (eTrie E) []\<rparr>"

definition LoadTrie :: "('t, 'n, 'd, 'b) trie_lib \<Rightarrow> bytes \<Rightarrow> ('d, 'b) EthShardTrieDB \<Rightarrow> 't option \<times> err" where
  "LoadTrie T root db = tNew T root (mainTrieDB db)"

definition NewAccount :: "bytes \<Rightarrow> StateAccount \<Rightarrow> 't Account" where
  "NewAccount addr state =
     \<lparr>acAddr = addr, acState = state, acCode = None, acTrie = None, acBackend = True, acErr = None, acDirty = False\<rparr>"

definition NewAccountWithSharedCache ::
  "('v, 't, 'n, 'd, 'b) eth_lib \<Rightarrow> bytes \<Rightarrow> StateAccount \<Rightarrow> ('d, 'b) EthShardTrieDB \<Rightarrow> 't Account" where
  "NewAccountWithSharedCache E addr state db =
     (case LoadTrie (eTrie E) (saRoot state) db of
        (t, e) \<Rightarrow> \<lparr>acAddr = addr, acState = state, acCode = None, acTrie = t, acBackend = True, acErr = e, acDirty = False\<rparr>)"

section \<open>Reading\<close>

definition GetState :: "('v, 't, 'n, 'd, 'b) eth_lib \<Rightarrow> bytes \<Rightarrow> 't Account \<Rightarrow> bytes option" where
  "GetState E key this = do { t \<leftarrow> acTrie this; Some (fst (tGet (eTrie E) t key)) }"

definition GetStorageRoot :: "('v, 't, 'n, 'd, 'b) eth_lib \<Rightarrow> 't Account \<Rightarrow> bytes" where
  "GetStorageRoot E this = (case acTrie this of None \<Rightarrow> emptyRoot (eTrie E) | Some t \<Rightarrow> tHash (eTrie E) t)"

definition GetCodeHash :: "('v, 't, 'n, 'd, 'b) eth_lib \<Rightarrow> 't Account \<Rightarrow> bytes" where
  "GetCodeHash E this = (case acTrie this of None \<Rightarrow> keccak (eTrie E) [] | Some _ \<Rightarrow> saCodeHash (acState this))"

text \<open>The bytes of a Go string.\<close>

definition strBytes :: "string \<Rightarrow> bytes" where
  "strBytes s = map of_char s"

text \<open>\<open>Hash\<close> is the legacy Keccak hash of \<open>sha3\<close>.\<close>

abbreviation Account_Hash :: "('v, 't, 'n, 'd, 'b) eth_lib \<Rightarrow> bytes \<Rightarrow> bytes" where
  "Account_Hash E key \<equiv> keccak (eTrie E) key"

definition ToStorageKey :: "('v, 't, 'n, 'd, 'b) eth_lib \<Rightarrow> string \<Rightarrow> bytes option" where
  "ToStorageKey E key =
     (let k = GetPathUnder key ''/storage/native/'' in
      if length k > 0
      then case hexDecode (eTrie E) k of (_, Some _) \<Rightarrow> None | (kstr, None) \<Rightarrow> Some (keccak (eTrie E) kstr)
      else Some (Account_Hash E (strBytes key)))"

definition isAccountRoot :: "string \<Rightarrow> bool" where
  "isAccountRoot path \<longleftrightarrow> length path = ETH_ACCOUNT_FULL_LENGTH + 1"

definition Account_Has :: "('v, 't, 'n, 'd, 'b) eth_lib \<Rightarrow> string \<Rightarrow> 't Account \<Rightarrow> bool option" where
  "Account_Has E path this =
     (if isAccountRoot path then Some True
      else if HasSuffix path PATH_BALANCE \<or> HasSuffix path PATH_NONCE then Some True
      else if HasSuffix path PATH_CODE then Some (case acCode this of None \<Rightarrow> False | Some c \<Rightarrow> length c > 0)
      else do {
        k \<leftarrow> ToStorageKey E path;
        t \<leftarrow> acTrie this;
        Some (length (fst (tGet (eTrie E) t k)) > 0)
      })"

text \<open>What \<open>Get\<close> returns has type \<open>any\<close>: raw bytes or a CRDT.\<close>

type_synonym 'v anyval = "bytes + 'v"

definition Account_Get ::
  "('v, 't, 'n, 'd, 'b) eth_lib \<Rightarrow> string \<Rightarrow> ('t, 'd, 'b) acctWorld \<Rightarrow>
   (('v anyval option \<times> err) \<times> 't Account) option" where
  "Account_Get E path w = (case w of (this, db) \<Rightarrow>
     if HasSuffix path PATH_BALANCE
     then let N = cU256 (eCodec E)
          in Some ((Some (Inr (numSetValue N (saBalance (acState this)) (numUnbounded N))), None), this)
     else if HasSuffix path PATH_NONCE
     then let N = cUint64 (eCodec E)
          in Some ((Some (Inr (numSetValue N (saNonce (acState this)) (numUnbounded N))), None), this)
     else if HasSuffix path PATH_CODE
     then (case acCode this of
             Some c \<Rightarrow> Some ((Some (Inr (nBytesNew (eCodec E) c)), None), this)
           | None \<Rightarrow>
               if \<not> acBackend this then None
               else case diskGet (eTrie E) (ShardFromKey path db) (saCodeHash (acState this)) db of
                      (c, Some e) \<Rightarrow> Some ((None, Some e), this\<lparr>acCode := c\<rparr>)
                    | (c, None) \<Rightarrow>
                        Some ((Some (Inr (nBytesNew (eCodec E) (case c of None \<Rightarrow> [] | Some b \<Rightarrow> b))), None),
                              this\<lparr>acCode := c\<rparr>))
     else do {
       k \<leftarrow> ToStorageKey E path;
       t \<leftarrow> acTrie this;
       case tGet (eTrie E) t k of (v, e) \<Rightarrow>
         Some (if length v > 0 then (Some (Inl v), e) else (None, Some (eNotFound E)), this)
     })"

definition IsAccountStorageProvable ::
  "('v, 't, 'n, 'd, 'b) eth_lib \<Rightarrow> string \<Rightarrow> 't Account \<Rightarrow> (bytes option \<times> string list \<times> err) option" where
  "IsAccountStorageProvable E key this =
     (let T = eTrie E; bad = Some (''Failed to find the proof for storage key: '' @ key) in
      case decodeHash T key of
        (_, _, Some e) \<Rightarrow> Some (None, [], Some e)
      | (decoded, _, None) \<Rightarrow> do {
          t \<leftarrow> acTrie this;
          let keyBytes = keccak T decoded;
          let (data, e) = tGet T t keyBytes;
          if length data > 0 \<and> e = None
          then case tProve T keyBytes t of
                 (ps, Some e) \<Rightarrow> Some (None, proofList T ps, Some e)
               | (ps, None) \<Rightarrow> do {
                   proofdb \<leftarrow> ProofArrayToDB T (proofList T ps) Map.empty;
                   let (v, e) = verifyProof T (saRoot (acState this)) keyBytes proofdb;
                   if e \<noteq> None \<or> (case v of None \<Rightarrow> [] | Some b \<Rightarrow> b) \<noteq> data
                   then Some (None, proofList T ps, bad)
                   else Some (Some data, proofList T ps, None)
                 }
          else Some (None, [], bad)
        })"

section \<open>Updating\<close>

text \<open>\<open>slice.FindFirstIf\<close> and \<open>slice.RemoveAt\<close> on the parallel slices of keys and values.\<close>

fun findFirstIf :: "('a \<Rightarrow> bool) \<Rightarrow> 'a list \<Rightarrow> nat option" where
  "findFirstIf P [] = None"
| "findFirstIf P (x # xs) = (if P x then Some 0 else map_option Suc (findFirstIf P xs))"

definition removeAt :: "nat \<Rightarrow> 'a list \<Rightarrow> 'a list" where
  "removeAt i xs = take i xs @ drop (Suc i) xs"

definition takeKey ::
  "(string \<Rightarrow> bool) \<Rightarrow> string list \<Rightarrow> 'a list \<Rightarrow> ((string \<times> 'a) option \<times> string list \<times> 'a list) option" where
  "takeKey P keys vals =
     (case findFirstIf P keys of
        None \<Rightarrow> Some (None, keys, vals)
      | Some i \<Rightarrow> if i < length vals then Some (Some (keys ! i, vals ! i), removeAt i keys, removeAt i vals) else None)"

definition setNonce ::
  "('v, 't, 'n, 'd, 'b) eth_lib \<Rightarrow> (string \<times> 'v option) option \<Rightarrow> 't Account \<Rightarrow> 't Account option" where
  "setNonce E kv this =
     (case kv of
        None \<Rightarrow> Some this
      | Some (_, v) \<Rightarrow> do { x \<leftarrow> v; n \<leftarrow> eU64 E x; Some (this\<lparr>acState := (acState this)\<lparr>saNonce := n\<rparr>\<rparr>) })"

definition setBalance ::
  "('v, 't, 'n, 'd, 'b) eth_lib \<Rightarrow> (string \<times> 'v option) option \<Rightarrow> 't Account \<Rightarrow> 't Account option" where
  "setBalance E kv this =
     (case kv of
        None \<Rightarrow> Some this
      | Some (_, v) \<Rightarrow> do { x \<leftarrow> v; n \<leftarrow> eU256 E x; Some (this\<lparr>acState := (acState this)\<lparr>saBalance := n\<rparr>\<rparr>) })"

definition setCode ::
  "('v, 't, 'n, 'd, 'b) eth_lib \<Rightarrow> (string \<times> 'v option) option \<Rightarrow> ('t, 'd, 'b) acctWorld \<Rightarrow>
   (err \<times> ('t, 'd, 'b) acctWorld) option" where
  "setCode E kv w = (case w of (this, db) \<Rightarrow>
     case kv of
       None \<Rightarrow> Some (None, (this, db))
     | Some (k, v) \<Rightarrow> do {
         x \<leftarrow> v;
         c \<leftarrow> eBytes E x;
         let this = this\<lparr>acCode := Some c, acState := (acState this)\<lparr>saCodeHash := keccak (eTrie E) c\<rparr>\<rparr>;
         if acBackend this
         then let (db, e) = diskPut (eTrie E) (ShardFromKey k db) (saCodeHash (acState this)) c db
              in Some (e, (this, db))
         else None
       })"

definition encodeVal :: "('v, 't, 'n, 'd, 'b) eth_lib \<Rightarrow> string \<Rightarrow> 'v option \<Rightarrow> bytes option" where
  "encodeVal E key v =
     (case v of None \<Rightarrow> Some [] | Some x \<Rightarrow> map_option fst (RlpCodec_Encode (eCodec E) key (Some x)))"

text \<open>The part of the update below the special fields. The closures of the two parallel transforms
  have no side effects; the first error of the trie is returned.\<close>

definition writeStorage ::
  "('v, 't, 'n, 'd, 'b) eth_lib \<Rightarrow> string list \<Rightarrow> 'v option list \<Rightarrow> 't Account \<Rightarrow> (err \<times> 't Account) option" where
  "writeStorage E keys typedVals this = do {
     let this = this\<lparr>acDirty := length keys > 0\<rparr>;
     encodedKeys \<leftarrow> those (map (ToStorageKey E) keys);
     encodedVals \<leftarrow> those (map (\<lambda>(k, v). encodeVal E k v) (zip keys typedVals));
     let (encodedKeys, encodedVals) = eSortBy1st E encodedKeys encodedVals;
     t \<leftarrow> acTrie this;
     let (t', errs) = tUpdate (eTrie E) encodedKeys encodedVals t;
     let this = this\<lparr>acTrie := Some t'\<rparr>;
     case find (\<lambda>e. e \<noteq> None) errs of
       Some e \<Rightarrow> Some (e, this)
     | None \<Rightarrow> Some (None, this\<lparr>acState := (acState this)\<lparr>saRoot := tHash (eTrie E) t'\<rparr>\<rparr>)
   }"

definition UpdateAccountStorageTrie ::
  "('v, 't, 'n, 'd, 'b) eth_lib \<Rightarrow> string list \<Rightarrow> 'v option list \<Rightarrow> ('t, 'd, 'b) acctWorld \<Rightarrow>
   (err \<times> ('t, 'd, 'b) acctWorld) option" where
  "UpdateAccountStorageTrie E keys typedVals w = (case w of (this, db) \<Rightarrow> do {
     (_, keys, typedVals) \<leftarrow> takeKey isAccountRoot keys typedVals;
     (nonce, keys, typedVals) \<leftarrow> takeKey (\<lambda>k. HasSuffix k PATH_NONCE) keys typedVals;
     this \<leftarrow> setNonce E nonce this;
     (balance, keys, typedVals) \<leftarrow> takeKey (\<lambda>k. HasSuffix k PATH_BALANCE) keys typedVals;
     this \<leftarrow> setBalance E balance this;
     (code, keys, typedVals) \<leftarrow> takeKey (\<lambda>k. HasSuffix k PATH_CODE) keys typedVals;
     (e, (this, db)) \<leftarrow> setCode E code (this, db);
     case e of
       Some e \<Rightarrow> Some (Some e, (this, db))
     | None \<Rightarrow> do { (e, this) \<leftarrow> writeStorage E keys typedVals this; Some (e, (this, db)) }
   })"

section \<open>Encoding and committing\<close>

definition Account_Encode :: "('v, 't, 'n, 'd, 'b) eth_lib \<Rightarrow> 't Account \<Rightarrow> bytes" where
  "Account_Encode E this = eStateEnc E (acState this)"

definition Account_Decode :: "('v, 't, 'n, 'd, 'b) eth_lib \<Rightarrow> bytes \<Rightarrow> string + 't Account" where
  "Account_Decode E buffer =
     (case eStateDec E buffer of
        Inl e \<Rightarrow> Inl e
      | Inr s \<Rightarrow> Inr \<lparr>acAddr = replicate 20 0, acState = s, acCode = None, acTrie = None, acBackend = False,
                        acErr = None, acDirty = False\<rparr>)"

text \<open>A nil backend is only noticed after the trie itself has been committed.\<close>

definition Account_Commit ::
  "('v, 't, 'n, 'd, 'b) eth_lib \<Rightarrow> u64 \<Rightarrow> ('t, 'd, 'b) acctWorld \<Rightarrow> (err \<times> ('t, 'd, 'b) acctWorld) option" where
  "Account_Commit E block w = (case w of (this, db) \<Rightarrow>
     if acDirty this
     then do {
       t \<leftarrow> acTrie this;
       if \<not> acBackend this \<and> snd (snd (tCommit (eTrie E) t)) = None then None
       else case EthShardTrieDB_Commit (eTrie E) t block db of
              ((_, t', e), db') \<Rightarrow> Some (e, (this\<lparr>acTrie := t', acDirty := False\<rparr>, db'))
     }
     else Some (None, (this, db)))"

section \<open>What an update does\<close>

fun withoutFirst :: "('a \<Rightarrow> bool) \<Rightarrow> 'a list \<Rightarrow> 'a list" where
  "withoutFirst P [] = []"
| "withoutFirst P (x # xs) = (if P x then xs else x # withoutFirst P xs)"

lemma removeAt_simps [simp]: "removeAt 0 (x # xs) = xs" "removeAt (Suc i) (x # xs) = x # removeAt i xs"
  by (simp_all add: removeAt_def)

lemma length_map_fst_snd: "length (map fst ps) = length (map snd ps)"
  by simp

lemma takeKey_zip:
  "length keys = length vals \<Longrightarrow> takeKey P keys vals = Some (find (\<lambda>kv. P (fst kv)) (zip keys vals),
     map fst (withoutFirst (\<lambda>kv. P (fst kv)) (zip keys vals)), map snd (withoutFirst (\<lambda>kv. P (fst kv)) (zip keys vals)))"
proof (induction keys vals rule: list_induct2)
  case Nil
  then show ?case by (simp add: takeKey_def)
next
  case (Cons k ks v vs)
  then show ?case by (cases "P k") (auto simp: takeKey_def split: option.splits if_splits)
qed

text \<open>
  How a batch of entries is split: the entry of the account itself is dropped, the first entry
  whose path ends in the name of a field is taken for that field, everything else goes to the
  storage trie.
\<close>

definition updParts :: "(string \<times> 'a) list \<Rightarrow>
   (string \<times> 'a) option \<times> (string \<times> 'a) option \<times> (string \<times> 'a) option \<times> (string \<times> 'a) list" where
  "updParts kvs =
     (let ps = withoutFirst (\<lambda>kv. isAccountRoot (fst kv)) kvs;
          n = find (\<lambda>kv. HasSuffix (fst kv) PATH_NONCE) ps;
          ps = withoutFirst (\<lambda>kv. HasSuffix (fst kv) PATH_NONCE) ps;
          b = find (\<lambda>kv. HasSuffix (fst kv) PATH_BALANCE) ps;
          ps = withoutFirst (\<lambda>kv. HasSuffix (fst kv) PATH_BALANCE) ps;
          c = find (\<lambda>kv. HasSuffix (fst kv) PATH_CODE) ps
      in (n, b, c, withoutFirst (\<lambda>kv. HasSuffix (fst kv) PATH_CODE) ps))"

lemma UpdateAccountStorageTrie_parts:
  assumes "length keys = length vals" "updParts (zip keys vals) = (n, b, c, rest)"
  shows "UpdateAccountStorageTrie E keys vals (this, db) = do {
     this \<leftarrow> setNonce E n this;
     this \<leftarrow> setBalance E b this;
     (e, (this, db)) \<leftarrow> setCode E c (this, db);
     case e of
       Some e \<Rightarrow> Some (Some e, (this, db))
     | None \<Rightarrow> do { (e, this) \<leftarrow> writeStorage E (map fst rest) (map snd rest) this; Some (e, (this, db)) }
   }"
proof -
  define p1 where "p1 = withoutFirst (\<lambda>kv. isAccountRoot (fst kv)) (zip keys vals)"
  define p2 where "p2 = withoutFirst (\<lambda>kv. HasSuffix (fst kv) PATH_NONCE) p1"
  define p3 where "p3 = withoutFirst (\<lambda>kv. HasSuffix (fst kv) PATH_BALANCE) p2"
  have root: "takeKey isAccountRoot keys vals =
      Some (find (\<lambda>kv. isAccountRoot (fst kv)) (zip keys vals), map fst p1, map snd p1)"
    by (simp only: takeKey_zip [OF assms(1)] p1_def)
  have nonce: "takeKey (\<lambda>k. HasSuffix k PATH_NONCE) (map fst p1) (map snd p1) = Some (n, map fst p2, map snd p2)"
    and balance: "takeKey (\<lambda>k. HasSuffix k PATH_BALANCE) (map fst p2) (map snd p2) = Some (b, map fst p3, map snd p3)"
    and code: "takeKey (\<lambda>k. HasSuffix k PATH_CODE) (map fst p3) (map snd p3) = Some (c, map fst rest, map snd rest)"
    using assms(2) by (simp_all add: takeKey_zip zip_map_fst_snd updParts_def Let_def p1_def p2_def p3_def)
  show ?thesis
    by (simp only: UpdateAccountStorageTrie_def root nonce balance code bind.bind_lunit prod.case)
qed

definition fieldOk :: "('v \<Rightarrow> 'a option) \<Rightarrow> (string \<times> 'v option) option \<Rightarrow> bool" where
  "fieldOk f e \<longleftrightarrow> (case e of None \<Rightarrow> True | Some (_, v) \<Rightarrow> \<exists>x y. v = Some x \<and> f x = Some y)"

definition fieldVal :: "('v \<Rightarrow> 'a option) \<Rightarrow> (string \<times> 'v option) option \<Rightarrow> 'a \<Rightarrow> 'a" where
  "fieldVal f e old = (case e of None \<Rightarrow> old | Some (_, v) \<Rightarrow> the (f (the v)))"

text \<open>The entries of the storage trie a batch writes.\<close>

definition slotsOf :: "('v, 't, 'n, 'd, 'b) eth_lib \<Rightarrow> (string \<times> 'v option) list \<Rightarrow> (bytes \<times> bytes) list" where
  "slotsOf E rest = map (\<lambda>(k, v). (the (ToStorageKey E k), the (encodeVal E k v))) rest"

definition storable :: "('v, 't, 'n, 'd, 'b) eth_lib \<Rightarrow> (string \<times> 'v option) list \<Rightarrow> bool" where
  "storable E rest \<longleftrightarrow> distinct (map fst (slotsOf E rest)) \<and>
     (\<forall>k v. (k, v) \<in> set rest \<longrightarrow> ToStorageKey E k \<noteq> None \<and> encodeVal E k v \<noteq> None)"

text \<open>A trie content with a list of slots written over it.\<close>

definition overlay :: "(bytes \<times> bytes) list \<Rightarrow> (bytes \<Rightarrow> bytes) \<Rightarrow> bytes \<Rightarrow> bytes" where
  "overlay kvs c k = (case map_of kvs k of Some v \<Rightarrow> v | None \<Rightarrow> c k)"

lemma overlay_Nil [simp]: "overlay [] c = c"
  by (rule ext) (simp add: overlay_def)

lemma writeStorage_ok:
  assumes "eth_law E" "acTrie this = Some t" "storable E rest"
  obtains t' where "writeStorage E (map fst rest) (map snd rest) this =
      Some (None, this\<lparr>acDirty := rest \<noteq> [], acTrie := Some t', acState := (acState this)\<lparr>saRoot := tHash (eTrie E) t'\<rparr>\<rparr>)"
    "tLookup (eTrie E) t' = overlay (slotsOf E rest) (tLookup (eTrie E) t)"
    "\<forall>d. tBacked (eTrie E) d t \<longrightarrow> tBacked (eTrie E) d t'"
proof -
  let ?T = "eTrie E" and ?ks = "map fst (slotsOf E rest)" and ?vs = "map snd (slotsOf E rest)"
  have law: "trie_law ?T" using assms(1) by (simp add: eth_law_def)
  have ok: "\<And>k v. (k, v) \<in> set rest \<Longrightarrow> ToStorageKey E k \<noteq> None \<and> encodeVal E k v \<noteq> None"
    and dist: "distinct (map fst (slotsOf E rest))" using assms(3) by (auto simp: storable_def)
  have "ToStorageKey E k \<noteq> None" if "k \<in> set (map fst rest)" for k
    using that ok by fastforce
  then have keys: "those (map (ToStorageKey E) (map fst rest)) = Some ?ks"
    by (subst those_map) (simp_all add: slotsOf_def case_prod_beta comp_def)
  have "(case kv of (k, v) \<Rightarrow> encodeVal E k v) \<noteq> None" if "kv \<in> set rest" for kv
    using that ok [of "fst kv" "snd kv"] by (simp add: case_prod_beta)
  then have vals: "those (map (\<lambda>(k, v). encodeVal E k v) (zip (map fst rest) (map snd rest))) = Some ?vs"
    unfolding zip_map_fst_snd by (subst those_map) (simp_all add: slotsOf_def case_prod_beta comp_def)
  obtain sk sv where s: "eSortBy1st E ?ks ?vs = (sk, sv)" by fastforce
  have srt: "length sk = length sv" "mset (zip sk sv) = mset (slotsOf E rest)"
    using eth_law_sort [OF assms(1) _ s] by (simp_all add: zip_map_fst_snd)
  have "mset (map fst (zip sk sv)) = mset ?ks" using srt(2) by (metis mset_map)
  then have "distinct sk" using dist srt(1) by (metis map_fst_zip mset_eq_imp_distinct_iff)
  then obtain t' es where u: "tUpdate ?T sk sv t = (t', es)" "set es \<subseteq> {None}"
    "tLookup ?T t' = (\<lambda>k. case map_of (zip sk sv) k of Some v \<Rightarrow> v | None \<Rightarrow> tLookup ?T t k)"
    "\<forall>d. tBacked ?T d t \<longrightarrow> tBacked ?T d t'"
    using trie_law_update [OF law _ srt(1)] by blast
  have m: "map_of (zip sk sv) = map_of (slotsOf E rest)" by (rule map_of_reorder [OF srt(2) dist])
  have f: "find (\<lambda>e. e \<noteq> None) es = None" using u(2) by (auto simp: find_None_iff)
  show ?thesis
    by (rule that [of t']) (use u m f keys vals s assms(2) in \<open>simp_all add: writeStorage_def overlay_def fun_eq_iff\<close>)
qed

text \<open>The account and the databases after an update.\<close>

definition newCode :: "('v, 't, 'n, 'd, 'b) eth_lib \<Rightarrow> (string \<times> 'v option) option \<Rightarrow> bytes option" where
  "newCode E c = (case c of None \<Rightarrow> None | Some _ \<Rightarrow> Some (fieldVal (eBytes E) c []))"

definition updatedState :: "('v, 't, 'n, 'd, 'b) eth_lib \<Rightarrow> (string \<times> 'v option) option \<Rightarrow> (string \<times> 'v option) option \<Rightarrow>
   (string \<times> 'v option) option \<Rightarrow> bytes \<Rightarrow> StateAccount \<Rightarrow> StateAccount" where
  "updatedState E n b c root s =
     \<lparr>saNonce = fieldVal (eU64 E) n (saNonce s), saBalance = fieldVal (eU256 E) b (saBalance s), saRoot = root,
      saCodeHash = (case newCode E c of None \<Rightarrow> saCodeHash s | Some code \<Rightarrow> keccak (eTrie E) code)\<rparr>"

definition updatedAccount :: "('v, 't, 'n, 'd, 'b) eth_lib \<Rightarrow> (string \<times> 'v option) option \<Rightarrow> (string \<times> 'v option) option \<Rightarrow>
   (string \<times> 'v option) option \<Rightarrow> (string \<times> 'v option) list \<Rightarrow> 't \<Rightarrow> 't Account \<Rightarrow> 't Account" where
  "updatedAccount E n b c rest t' a =
     a\<lparr>acState := updatedState E n b c (tHash (eTrie E) t') (acState a),
       acCode := (case newCode E c of None \<Rightarrow> acCode a | Some code \<Rightarrow> Some code),
       acTrie := Some t', acDirty := rest \<noteq> []\<rparr>"

lemma updatedAccount_simps [simp]:
  "acTrie (updatedAccount E n b c rest t' a) = Some t'"
  "acDirty (updatedAccount E n b c rest t' a) = (rest \<noteq> [])"
  "acBackend (updatedAccount E n b c rest t' a) = acBackend a"
  "acAddr (updatedAccount E n b c rest t' a) = acAddr a"
  "saRoot (acState (updatedAccount E n b c rest t' a)) = tHash (eTrie E) t'"
  by (simp_all add: updatedAccount_def updatedState_def)

definition putCode :: "('v, 't, 'n, 'd, 'b) eth_lib \<Rightarrow> (string \<times> 'v option) option \<Rightarrow> ('d, 'b) EthShardTrieDB \<Rightarrow> ('d, 'b) EthShardTrieDB" where
  "putCode E c db =
     (case c of
        None \<Rightarrow> db
      | Some (k, v) \<Rightarrow> fst (diskPut (eTrie E) (ShardFromKey k db) (keccak (eTrie E) (the (newCode E c))) (the (newCode E c)) db))"

text \<open>What a batch must satisfy: well-typed fields, a backend if there is code, valid and distinct slots.\<close>

definition batchOk :: "('v, 't, 'n, 'd, 'b) eth_lib \<Rightarrow> string list \<Rightarrow> 'v option list \<Rightarrow> 't Account \<Rightarrow> bool" where
  "batchOk E keys vals a \<longleftrightarrow> length keys = length vals \<and> acTrie a \<noteq> None \<and>
     (case updParts (zip keys vals) of (n, b, c, rest) \<Rightarrow>
        fieldOk (eU64 E) n \<and> fieldOk (eU256 E) b \<and> fieldOk (eBytes E) c \<and> (c \<noteq> None \<longrightarrow> acBackend a) \<and> storable E rest)"

lemma batchOk_cong: "batchOk E keys vals a \<Longrightarrow> acTrie a' \<noteq> None \<Longrightarrow> acBackend a' = acBackend a \<Longrightarrow> batchOk E keys vals a'"
  by (simp add: batchOk_def)

lemma UpdateAccountStorageTrie_run:
  assumes "eth_law E" "batchOk E keys vals a" "updParts (zip keys vals) = (n, b, c, rest)" "acTrie a = Some t"
  obtains t' where "UpdateAccountStorageTrie E keys vals (a, db) =
      Some (None, (updatedAccount E n b c rest t' a, putCode E c db))"
    "tLookup (eTrie E) t' = overlay (slotsOf E rest) (tLookup (eTrie E) t)"
    "\<forall>d. tBacked (eTrie E) d t \<longrightarrow> tBacked (eTrie E) d t'"
proof -
  have len: "length keys = length vals" and n: "fieldOk (eU64 E) n" and b: "fieldOk (eU256 E) b"
    and c: "fieldOk (eBytes E) c" "c \<noteq> None \<longrightarrow> acBackend a" and rest: "storable E rest"
    using assms(2,3) by (auto simp: batchOk_def)
  define a1 where "a1 = a\<lparr>acState := (acState a)\<lparr>saNonce := fieldVal (eU64 E) n (saNonce (acState a))\<rparr>\<rparr>"
  define a2 where "a2 = a1\<lparr>acState := (acState a1)\<lparr>saBalance := fieldVal (eU256 E) b (saBalance (acState a1))\<rparr>\<rparr>"
  define a3 where "a3 = a2\<lparr>acCode := (case newCode E c of None \<Rightarrow> acCode a | Some code \<Rightarrow> Some code),
    acState := (acState a2)\<lparr>saCodeHash := (case newCode E c of None \<Rightarrow> saCodeHash (acState a) | Some code \<Rightarrow> keccak (eTrie E) code)\<rparr>\<rparr>"
  have s1: "setNonce E n a = Some a1"
    using n by (auto simp: setNonce_def a1_def fieldOk_def fieldVal_def split: option.splits)
  have s2: "setBalance E b a1 = Some a2"
    using b by (auto simp: setBalance_def a2_def fieldOk_def fieldVal_def split: option.splits)
  have disk: "disk_law (eTrie E)" using assms(1) by (simp add: eth_law_def)
  have s3: "setCode E c (a2, db) = Some (None, (a3, putCode E c db))"
  proof (cases c)
    case None
    then show ?thesis by (simp add: setCode_def newCode_def putCode_def a3_def a2_def a1_def)
  next
    case (Some kv)
    then obtain k x y where y: "kv = (k, Some x)" "eBytes E x = Some y" using c(1) by (auto simp: fieldOk_def)
    have "snd (diskPut (eTrie E) i h v db) = None" for i h v
      using disk unfolding disk_law_def diskPut_def by (metis (mono_tags, lifting) case_prod_conv snd_conv)
    then show ?thesis using Some y c(2)
      by (auto simp: setCode_def newCode_def putCode_def a3_def a2_def a1_def fieldVal_def split: prod.split)
         (metis snd_conv)+
  qed
  have "acTrie a3 = Some t" using assms(4) by (simp add: a3_def a2_def a1_def)
  then obtain t' where t': "writeStorage E (map fst rest) (map snd rest) a3 =
      Some (None, a3\<lparr>acDirty := rest \<noteq> [], acTrie := Some t', acState := (acState a3)\<lparr>saRoot := tHash (eTrie E) t'\<rparr>\<rparr>)"
    "tLookup (eTrie E) t' = overlay (slotsOf E rest) (tLookup (eTrie E) t)"
    "\<forall>d. tBacked (eTrie E) d t \<longrightarrow> tBacked (eTrie E) d t'"
    using writeStorage_ok [OF assms(1) _ rest] by metis
  show ?thesis
    by (rule that [OF _ t'(2,3)])
       (simp add: UpdateAccountStorageTrie_parts [OF len assms(3)] s1 s2 s3 t'(1),
        simp add: a3_def a2_def a1_def updatedState_def updatedAccount_def)
qed

text \<open>
  C6. What an update of an account does: a well-typed batch is accepted, the first entries that end in
  the names of the fields set nonce, balance, code and code hash, all the other entries except that
  of the account itself are written over the storage trie, whose hash becomes the storage root, and
  the account is dirty afterwards exactly if there was such an entry. Only the code reaches the disk.
\<close>
theorem UpdateAccountStorageTrie_effect:
  assumes "eth_law E" "batchOk E keys vals a" "updParts (zip keys vals) = (n, b, c, rest)" "acTrie a = Some t"
  shows "\<exists>t'. UpdateAccountStorageTrie E keys vals (a, db) =
      Some (None, (updatedAccount E n b c rest t' a, putCode E c db)) \<and>
    tLookup (eTrie E) t' = overlay (slotsOf E rest) (tLookup (eTrie E) t)"
  using UpdateAccountStorageTrie_run [OF assms] by metis

lemma putCode_trie [simp]: "mainTrieDB (putCode E c db) = mainTrieDB db"
  by (auto simp: putCode_def diskPut_def split: option.split prod.split)

text \<open>
  C18. Storage survives: after an update with storage entries and a commit, both without error, the
  storage trie can be opened in the database by the root in the account's state, and it contains
  what the update wrote over the old content.
\<close>
theorem Account_commit_persists:
  assumes "eth_law E" "batchOk E keys vals a" "updParts (zip keys vals) = (n, b, c, rest)" "rest \<noteq> []"
    and "acTrie a = Some t" "acBackend a" "tBacked (eTrie E) (mainTrieDB db) t"
  shows "\<exists>a1 db1 a2 db2 t'. UpdateAccountStorageTrie E keys vals (a, db) = Some (None, (a1, db1)) \<and>
    Account_Commit E block (a1, db1) = Some (None, (a2, db2)) \<and> acState a2 = acState a1 \<and> \<not> acDirty a2 \<and>
    LoadTrie (eTrie E) (saRoot (acState a2)) db2 = (Some t', None) \<and>
    tLookup (eTrie E) t' = overlay (slotsOf E rest) (tLookup (eTrie E) t)"
proof -
  let ?T = "eTrie E"
  have law: "trie_law ?T" using assms(1) by (simp add: eth_law_def)
  obtain t1 where u: "UpdateAccountStorageTrie E keys vals (a, db) =
      Some (None, (updatedAccount E n b c rest t1 a, putCode E c db))"
    "tLookup ?T t1 = overlay (slotsOf E rest) (tLookup ?T t)" "\<forall>d. tBacked ?T d t \<longrightarrow> tBacked ?T d t1"
    by (rule UpdateAccountStorageTrie_run [OF assms(1-3,5)])
  have "tBacked ?T (mainTrieDB (putCode E c db)) t1" using u(3) assms(7) by simp
  then obtain t2 db2 where co: "EthShardTrieDB_Commit ?T t1 block (putCode E c db) = ((tHash ?T t1, Some t2, None), db2)"
    "dRoots ?T (mainTrieDB db2) = (dRoots ?T (mainTrieDB (putCode E c db)))(tHash ?T t1 \<mapsto> tLookup ?T t1)"
    using EthShardTrieDB_Commit_ok [OF law] by metis
  have "dRoots ?T (mainTrieDB db2) (tHash ?T t1) = Some (tLookup ?T t1)" using co(2) by simp
  then obtain t' where "tNew ?T (tHash ?T t1) (mainTrieDB db2) = (Some t', None)" "tLookup ?T t' = tLookup ?T t1"
    using trie_law_open [OF law] by metis
  then show ?thesis
    using u(1,2) co(1) assms(4,6) by (simp add: Account_Commit_def LoadTrie_def)
qed

text \<open>
  C20. The dirty flag is overwritten by every update: when an update with storage entries is followed
  by one that has only fields, the commit does nothing, and what the first update wrote to the
  storage trie never reaches the database, although the account's state refers to it by its root.
\<close>
theorem field_update_loses_storage:
  assumes "eth_law E" "batchOk E keys vals a" "updParts (zip keys vals) = (n, b, c, rest)" "acTrie a = Some t"
    and "batchOk E keys' vals' a" "updParts (zip keys' vals') = (n', b', c', [])"
  shows "\<exists>a1 db1 a2 db2 t'. UpdateAccountStorageTrie E keys vals (a, db) = Some (None, (a1, db1)) \<and>
    UpdateAccountStorageTrie E keys' vals' (a1, db1) = Some (None, (a2, db2)) \<and>
    Account_Commit E block (a2, db2) = Some (None, (a2, db2)) \<and> mainTrieDB db2 = mainTrieDB db \<and>
    saRoot (acState a2) = tHash (eTrie E) t' \<and> tLookup (eTrie E) t' = overlay (slotsOf E rest) (tLookup (eTrie E) t)"
proof -
  let ?T = "eTrie E"
  obtain t1 where u: "UpdateAccountStorageTrie E keys vals (a, db) =
      Some (None, (updatedAccount E n b c rest t1 a, putCode E c db))"
    "tLookup ?T t1 = overlay (slotsOf E rest) (tLookup ?T t)"
    by (rule UpdateAccountStorageTrie_run [OF assms(1-4)])
  have ok: "batchOk E keys' vals' (updatedAccount E n b c rest t1 a)" by (rule batchOk_cong [OF assms(5)]) simp_all
  obtain t2 where v: "UpdateAccountStorageTrie E keys' vals' (updatedAccount E n b c rest t1 a, putCode E c db) =
      Some (None, (updatedAccount E n' b' c' [] t2 (updatedAccount E n b c rest t1 a), putCode E c' (putCode E c db)))"
    "tLookup ?T t2 = overlay (slotsOf E []) (tLookup ?T t1)"
    by (rule UpdateAccountStorageTrie_run [OF assms(1) ok assms(6)]) simp_all
  have "tLookup ?T t2 = overlay (slotsOf E rest) (tLookup ?T t)" using v(2) u(2) by (simp add: slotsOf_def)
  then show ?thesis using u(1) v(1) by (auto simp: Account_Commit_def)
qed

text \<open>An account whose storage trie is in the database or will be put there by the next commit.\<close>

definition storageOf :: "('v, 't, 'n, 'd, 'b) eth_lib \<Rightarrow> 't Account \<Rightarrow> bytes \<Rightarrow> bytes" where
  "storageOf E a = (case acTrie a of None \<Rightarrow> (\<lambda>_. []) | Some t \<Rightarrow> tLookup (eTrie E) t)"

definition pending :: "('v, 't, 'n, 'd, 'b) eth_lib \<Rightarrow> 'd \<Rightarrow> 't Account \<Rightarrow> bool" where
  "pending E d a \<longleftrightarrow> acBackend a \<and> (\<exists>t. acTrie a = Some t \<and> saRoot (acState a) = tHash (eTrie E) t \<and> tBacked (eTrie E) d t \<and>
     (acDirty a \<or> dRoots (eTrie E) d (tHash (eTrie E) t) = Some (tLookup (eTrie E) t)))"

lemma pending_grows: "pending E d a \<Longrightarrow> dbGrows (eTrie E) d d' \<Longrightarrow> pending E d' a"
  by (auto simp: pending_def dbGrows_def)

lemma pending_saved: "pending E d a \<Longrightarrow> \<not> acDirty a \<Longrightarrow> dRoots (eTrie E) d (saRoot (acState a)) = Some (storageOf E a)"
  by (auto simp: pending_def storageOf_def)

lemma Account_Commit_pending:
  assumes "eth_law E" "pending E (mainTrieDB db) a"
  obtains a' db' where "Account_Commit E block (a, db) = Some (None, (a', db'))" "pending E (mainTrieDB db') a'" "\<not> acDirty a'"
    "acState a' = acState a" "acAddr a' = acAddr a" "storageOf E a' = storageOf E a"
    "dbGrows (eTrie E) (mainTrieDB db) (mainTrieDB db')"
proof (cases "acDirty a")
  case False
  then show ?thesis using assms(2) by (intro that [of a db]) (simp_all add: Account_Commit_def)
next
  case True
  let ?T = "eTrie E"
  have law: "trie_law ?T" using assms(1) by (simp add: eth_law_def)
  obtain t where t: "acBackend a" "acTrie a = Some t" "saRoot (acState a) = tHash ?T t" "tBacked ?T (mainTrieDB db) t"
    using assms(2) by (auto simp: pending_def)
  obtain t' db' where c: "EthShardTrieDB_Commit ?T t block db = ((tHash ?T t, Some t', None), db')"
    "tLookup ?T t' = tLookup ?T t" "tBacked ?T (mainTrieDB db') t'"
    "dRoots ?T (mainTrieDB db') = (dRoots ?T (mainTrieDB db))(tHash ?T t \<mapsto> tLookup ?T t)"
    "\<forall>u. tBacked ?T (mainTrieDB db) u \<longrightarrow> tBacked ?T (mainTrieDB db') u"
    using EthShardTrieDB_Commit_ok [OF law t(4)] by metis
  have h: "tHash ?T t' = tHash ?T t" using c(2) trie_law_hash [OF law] by metis
  show ?thesis
  proof (rule that [of "a\<lparr>acTrie := Some t', acDirty := False\<rparr>" db'])
    show "dbGrows ?T (mainTrieDB db) (mainTrieDB db')" by (rule dbGrows_commit [OF law c(4,5)])
  qed (use True t c h in \<open>simp_all add: Account_Commit_def pending_def storageOf_def\<close>)
qed

lemma UpdateAccountStorageTrie_pending:
  assumes "eth_law E" "batchOk E keys vals a" "pending E (mainTrieDB db) a" "acDirty a \<Longrightarrow> rest \<noteq> []"
    and "updParts (zip keys vals) = (n, b, c, rest)"
  obtains t' where "UpdateAccountStorageTrie E keys vals (a, db) =
      Some (None, (updatedAccount E n b c rest t' a, putCode E c db))"
    "pending E (mainTrieDB db) (updatedAccount E n b c rest t' a)"
    "storageOf E (updatedAccount E n b c rest t' a) = overlay (slotsOf E rest) (storageOf E a)"
proof -
  let ?T = "eTrie E"
  have law: "trie_law ?T" using assms(1) by (simp add: eth_law_def)
  obtain t where t: "acBackend a" "acTrie a = Some t" "tBacked ?T (mainTrieDB db) t"
    "rest = [] \<longrightarrow> dRoots ?T (mainTrieDB db) (tHash ?T t) = Some (tLookup ?T t)"
    using assms(3,4) by (auto simp: pending_def)
  obtain t' where u: "UpdateAccountStorageTrie E keys vals (a, db) =
      Some (None, (updatedAccount E n b c rest t' a, putCode E c db))"
    "tLookup ?T t' = overlay (slotsOf E rest) (tLookup ?T t)" "\<forall>d. tBacked ?T d t \<longrightarrow> tBacked ?T d t'"
    by (rule UpdateAccountStorageTrie_run [OF assms(1,2,5) t(2)])
  have "dRoots ?T (mainTrieDB db) (tHash ?T t') = Some (tLookup ?T t')" if "rest = []"
  proof -
    have "tLookup ?T t' = tLookup ?T t" using u(2) that by (simp add: slotsOf_def)
    then show ?thesis using t(4) that trie_law_hash [OF law] by metis
  qed
  then show ?thesis using u t by (intro that [of t']) (auto simp: pending_def storageOf_def)
qed

text \<open>A storage path: it does not end in the name of a field and has a slot.\<close>

definition slotPath :: "('v, 't, 'n, 'd, 'b) eth_lib \<Rightarrow> string \<Rightarrow> bytes \<Rightarrow> bool" where
  "slotPath E path slot \<longleftrightarrow> \<not> HasSuffix path PATH_BALANCE \<and> \<not> HasSuffix path PATH_NONCE \<and>
     \<not> HasSuffix path PATH_CODE \<and> ToStorageKey E path = Some slot"

lemma Account_Get_slot:
  assumes "trie_law (eTrie E)" "slotPath E path slot" "acTrie a = Some t"
  shows "Account_Get E path (a, db) =
    Some (if tLookup (eTrie E) t slot = [] then (None, Some (eNotFound E)) else (Some (Inl (tLookup (eTrie E) t slot)), None), a)"
  using assms by (auto simp: Account_Get_def slotPath_def trie_law_get)

text \<open>
  C19. Reading back after an update: a storage path gives the encoding of the value that the batch has
  for its slot, or what the slot held before if the batch has none, and \<open>ErrNotFound\<close> if that is
  empty; \<open>Has\<close> says whether it is non-empty; the nonce is the one of the batch.
\<close>
theorem Account_read_back:
  assumes "eth_law E" "batchOk E keys vals a" "updParts (zip keys vals) = (n, b, c, rest)" "acTrie a = Some t"
    and "UpdateAccountStorageTrie E keys vals (a, db) = Some (e, (a1, db1))"
    and "slotPath E path slot" "\<not> isAccountRoot path" "HasSuffix noncePath PATH_NONCE" "\<not> HasSuffix noncePath PATH_BALANCE"
  shows "e = None \<and>
    (let v = overlay (slotsOf E rest) (tLookup (eTrie E) t) slot in
     Account_Get E path (a1, db1) = Some (if v = [] then (None, Some (eNotFound E)) else (Some (Inl v), None), a1) \<and>
     Account_Has E path a1 = Some (v \<noteq> [])) \<and>
    Account_Get E noncePath (a1, db1) =
      (let N = cUint64 (eCodec E) in
       Some ((Some (Inr (numSetValue N (fieldVal (eU64 E) n (saNonce (acState a))) (numUnbounded N))), None), a1))"
proof -
  have law: "trie_law (eTrie E)" using assms(1) by (simp add: eth_law_def)
  obtain t1 where u: "UpdateAccountStorageTrie E keys vals (a, db) =
      Some (None, (updatedAccount E n b c rest t1 a, putCode E c db))"
    "tLookup (eTrie E) t1 = overlay (slotsOf E rest) (tLookup (eTrie E) t)"
    by (rule UpdateAccountStorageTrie_run [OF assms(1-4)])
  then have a1: "e = None" "a1 = updatedAccount E n b c rest t1 a" using assms(5) by simp_all
  have "Account_Get E path (a1, db1) =
      Some (if tLookup (eTrie E) t1 slot = [] then (None, Some (eNotFound E)) else (Some (Inl (tLookup (eTrie E) t1 slot)), None), a1)"
    by (rule Account_Get_slot [OF law assms(6)]) (simp add: a1)
  moreover have "Account_Has E path a1 = Some (tLookup (eTrie E) t1 slot \<noteq> [])"
    using assms(6,7) by (simp add: Account_Has_def slotPath_def a1 trie_law_get [OF law])
  moreover have "saNonce (acState a1) = fieldVal (eU64 E) n (saNonce (acState a))"
    by (simp add: a1 updatedAccount_def updatedState_def)
  ultimately show ?thesis using assms(8,9) u(2) a1(1) by (simp add: Account_Get_def Let_def)
qed

section \<open>A concrete library\<close>

definition fin_eth :: "(wval, ftrie, unit, bytes list, bytes \<rightharpoonup> bytes) eth_lib" where
  "fin_eth = \<lparr>eTrie = fin_lib, eCodec = tagged_codec,
     eU64 = (\<lambda>v. if wkind v = CUint64 then Some (wnum v) else None),
     eU256 = (\<lambda>v. if wkind v = CU256 then Some (fst (wbig v)) else None),
     eBytes = (\<lambda>v. if wkind v = NBytes then Some (wbytes v) else None),
     eStateEnc = (\<lambda>s. replicate (Suc (to_nat (saNonce s, saBalance s, saRoot s, saCodeHash s))) 0),
     eStateDec = (\<lambda>b. case from_nat (length b - 1) of (n, x, r, c) \<Rightarrow>
        if b = [] then Inl ''EOF'' else Inr \<lparr>saNonce = n, saBalance = x, saRoot = r, saCodeHash = c\<rparr>),
     eSortBy1st = (\<lambda>ks vs. (map fst (sort_key fst (zip ks vs)), map snd (sort_key fst (zip ks vs)))), eNotFound = ''not found''\<rparr>"

lemma fin_eth_sel [simp]:
  "eTrie fin_eth = fin_lib" "eCodec fin_eth = tagged_codec"
  "eU64 fin_eth v = (if wkind v = CUint64 then Some (wnum v) else None)"
  "eU256 fin_eth v = (if wkind v = CU256 then Some (fst (wbig v)) else None)"
  "eBytes fin_eth v = (if wkind v = NBytes then Some (wbytes v) else None)"
  by (simp_all add: fin_eth_def)

lemma fin_eth_law: "eth_law fin_eth"
  unfolding eth_law_def
  by (simp add: fin_trie_law fin_disk_law fin_hexutil_law) (simp add: fin_eth_def zip_map_fst_snd)

text \<open>An account, a batch with a nonce and a native slot, and one with a nonce only.\<close>

definition sampleAddr :: string where
  "sampleAddr = ''0x00000000000000000000000000000000000000a1''"

definition acctPath :: string where
  "acctPath = ETH_ACCOUNT_PREFIX @ sampleAddr"

definition nonceKey :: string where
  "nonceKey = acctPath @ ''/nonce''"

definition slotKey :: string where
  "slotKey = acctPath @ ''/storage/native/0x05''"

definition nonce7 :: wval where
  "nonce7 = blank\<lparr>wnum := 7\<rparr>"

definition bytes9 :: wval where
  "bytes9 = blank\<lparr>wkind := NBytes, wbytes := [9]\<rparr>"

definition freshAccount :: "ftrie Account" where
  "freshAccount = \<lparr>acAddr = replicate 20 0, acState = EmptyAccountState fin_eth, acCode = None, acTrie = Some fmempty,
     acBackend = True, acErr = None, acDirty = False\<rparr>"

lemma sample_parts:
  "updParts (zip [nonceKey, slotKey] [Some nonce7, Some bytes9]) =
     (Some (nonceKey, Some nonce7), None, None, [(slotKey, Some bytes9)])"
  "updParts (zip [nonceKey] [Some nonce7]) = (Some (nonceKey, Some nonce7), None, None, [])"
  by (simp_all add: updParts_def nonceKey_def slotKey_def acctPath_def sampleAddr_def isAccountRoot_def
      HasSuffix_def account_lengths ETH_ACCOUNT_PREFIX_eq PATH_NONCE_def PATH_BALANCE_def PATH_CODE_def suffix_def)

lemma sample_suffixes:
  "\<not> HasSuffix slotKey PATH_NONCE" "\<not> HasSuffix slotKey PATH_BALANCE" "\<not> HasSuffix slotKey PATH_CODE"
  "HasSuffix nonceKey PATH_NONCE" "\<not> HasSuffix nonceKey PATH_BALANCE" "\<not> isAccountRoot slotKey"
  by (simp_all add: nonceKey_def slotKey_def acctPath_def sampleAddr_def isAccountRoot_def HasSuffix_def
      account_lengths ETH_ACCOUNT_PREFIX_eq PATH_NONCE_def PATH_BALANCE_def PATH_CODE_def suffix_def)

abbreviation slot5 :: bytes where
  "slot5 \<equiv> 5 # replicate 31 0"

lemma sample_slot: "ToStorageKey fin_eth slotKey = Some slot5"
proof -
  have "GetPathUnder slotKey ''/storage/native/'' = ''0x05''"
    by (simp add: GetPathUnder_def slotKey_def acctPath_def sampleAddr_def account_lengths HasPrefix_def ETH_ACCOUNT_PREFIX_eq)
  moreover have "realHexDecode ''0x05'' = ([5], None)" by (simp add: realHexDecode_def HasPrefix_def hexDigit_def)
  ultimately show ?thesis by (simp add: ToStorageKey_def numeral_eq_Suc)
qed

lemma sample_value: "encodeVal fin_eth slotKey (Some bytes9) = Some [0, 9]"
  by (simp add: encodeVal_def RlpCodec_Encode_def tagged_codec_def wKind_def bytes9_def blank_def BytesRLP_Encode_def
      tagged_rlp_def bytesVal_def beBytes.simps)

lemma sample_slots: "slotsOf fin_eth [(slotKey, Some bytes9)] = [(slot5, [0, 9])]"
  by (simp add: slotsOf_def sample_slot sample_value)

lemma sample_ok:
  "batchOk fin_eth [nonceKey, slotKey] [Some nonce7, Some bytes9] freshAccount"
  "batchOk fin_eth [nonceKey] [Some nonce7] freshAccount"
  unfolding batchOk_def sample_parts
  by (simp_all add: freshAccount_def fieldOk_def storable_def sample_slot sample_value sample_slots nonce7_def blank_def)
     (simp add: slotsOf_def)

abbreviation freshDB :: "(bytes list, bytes \<rightharpoonup> bytes) EthShardTrieDB" where
  "freshDB \<equiv> NewEthShardTrieMemDB [] (\<lambda>_. Map.empty)"

lemma fresh_trie: "acTrie freshAccount = Some fmempty" "acBackend freshAccount"
  by (simp_all add: freshAccount_def)

theorem UpdateAccountStorageTrie_effect_witness:
  "\<exists>a1 db1 t'. UpdateAccountStorageTrie fin_eth [nonceKey, slotKey] [Some nonce7, Some bytes9] (freshAccount, freshDB) =
      Some (None, (a1, db1)) \<and> saNonce (acState a1) = 7 \<and> acDirty a1 \<and> acTrie a1 = Some t' \<and> fLookup t' slot5 = [0, 9]"
  using UpdateAccountStorageTrie_effect [OF fin_eth_law sample_ok(1) sample_parts(1) fresh_trie(1), of freshDB]
  by (auto simp: sample_slots overlay_def updatedAccount_def updatedState_def fieldVal_def nonce7_def blank_def)

theorem Account_commit_persists_witness:
  "\<exists>a1 db1 a2 db2 t'. UpdateAccountStorageTrie fin_eth [nonceKey, slotKey] [Some nonce7, Some bytes9] (freshAccount, freshDB) =
      Some (None, (a1, db1)) \<and> Account_Commit fin_eth 1 (a1, db1) = Some (None, (a2, db2)) \<and>
    LoadTrie fin_lib (saRoot (acState a2)) db2 = (Some t', None) \<and> fLookup t' slot5 = [0, 9]"
  using Account_commit_persists [OF fin_eth_law sample_ok(1) sample_parts(1) _ fresh_trie, of freshDB 1]
  by (auto simp: sample_slots overlay_def)

theorem field_update_loses_storage_witness:
  "\<exists>a1 db1 a2 db2 t'. UpdateAccountStorageTrie fin_eth [nonceKey, slotKey] [Some nonce7, Some bytes9] (freshAccount, freshDB) =
      Some (None, (a1, db1)) \<and> UpdateAccountStorageTrie fin_eth [nonceKey] [Some nonce7] (a1, db1) = Some (None, (a2, db2)) \<and>
    Account_Commit fin_eth 1 (a2, db2) = Some (None, (a2, db2)) \<and> mainTrieDB db2 = [] \<and>
    saRoot (acState a2) = fHash t' \<and> fLookup t' = overlay [(slot5, [0, 9])] (\<lambda>_. [])"
  using field_update_loses_storage [OF fin_eth_law sample_ok(1) sample_parts(1) fresh_trie(1) sample_ok(2) sample_parts(2), of freshDB 1]
  by (auto simp: sample_slots overlay_def NewEthShardTrieMemDB_def)

theorem Account_read_back_witness:
  "\<exists>a1 db1. UpdateAccountStorageTrie fin_eth [nonceKey, slotKey] [Some nonce7, Some bytes9] (freshAccount, freshDB) =
      Some (None, (a1, db1)) \<and> Account_Get fin_eth slotKey (a1, db1) = Some ((Some (Inl [0, 9]), None), a1) \<and>
    Account_Has fin_eth slotKey a1 = Some True"
proof -
  have path: "slotPath fin_eth slotKey slot5" by (simp add: slotPath_def sample_suffixes sample_slot)
  obtain t1 where u: "UpdateAccountStorageTrie fin_eth [nonceKey, slotKey] [Some nonce7, Some bytes9] (freshAccount, freshDB) =
      Some (None, (updatedAccount fin_eth (Some (nonceKey, Some nonce7)) None None [(slotKey, Some bytes9)] t1 freshAccount, putCode fin_eth None freshDB))"
    by (rule UpdateAccountStorageTrie_run [OF fin_eth_law sample_ok(1) sample_parts(1) fresh_trie(1)])
  then show ?thesis
    using Account_read_back [OF fin_eth_law sample_ok(1) sample_parts(1) fresh_trie(1) u path sample_suffixes(6,4,5)]
    by (simp add: sample_slots overlay_def)
qed

end
