(* ===== verification/EthWorld.thy ===== *)
theory EthWorld
  imports EthAccount Indexers LiveStorage "HOL-Library.AList"
begin

text \<open>
  The Ethereum world state: \<open>eth_world_state.go\<close> (the trie of accounts, the cache of the accounts
  changed in this process, the roots of the last blocks), \<open>eth_storage_indexer.go\<close> (the transitions
  grouped by account) and \<open>eth_storage_writer.go\<close> (the writer the committer drives).

  Accounts are shared by pointer between the cache, the indexers and the list of dirty accounts,
  so they live in a heap of the world state.
\<close>

section \<open>State\<close>

record ('t, 'd, 'b) EthWorldState =
  worldStateTrie :: "'t option"
  accountCache :: "bytes \<rightharpoonup> ref"
  acctHeap :: "'t Account heap"
  trieDB :: "('d, 'b) EthShardTrieDB"
  dbErr :: err
  blockRoots :: "(u64 \<times> bytes) list"

abbreviation acctAt :: "('t, 'd, 'b) EthWorldState \<Rightarrow> ref \<Rightarrow> 't Account" where
  "acctAt w r \<equiv> cellAt (acctHeap w) r"

definition noAccount :: "'t Account" where
  "noAccount = NewAccount [] \<lparr>saNonce = 0, saBalance = 0, saRoot = [], saCodeHash = []\<rparr>"

definition NewEthDataStore :: "'t option \<Rightarrow> ('d, 'b) EthShardTrieDB \<Rightarrow> ('t, 'd, 'b) EthWorldState" where
  "NewEthDataStore trie db =
     \<lparr>worldStateTrie = trie, accountCache = Map.empty,
      acctHeap = \<lparr>cellAt = (\<lambda>_. noAccount), nextRef = 0\<rparr>, trieDB = db, dbErr = None, blockRoots = []\<rparr>"

text \<open>The key-value databases under a trie database come from \<open>triedb.GetBackendDB\<close>: \<open>shards\<close> and
  \<open>disks\<close>.\<close>

definition LoadEthTrieByRoot ::
  "('t, 'n, 'd, 'b) trie_lib \<Rightarrow> nat list \<Rightarrow> (nat \<Rightarrow> 'b) \<Rightarrow> 'd \<Rightarrow> bytes \<Rightarrow>
   ('t, 'd, 'b) EthWorldState option \<times> err" where
  "LoadEthTrieByRoot T shards disks db root =
     (case tNew T root db of
        (Some trie, None) \<Rightarrow>
          (Some (NewEthDataStore (Some trie) \<lparr>mainTrieDB = db, diskShardDBs = shards, diskDB = disks\<rparr>), None)
      | (_, e) \<Rightarrow>
          (None, joinErrors [e, Some ''Failed to load the trie from the database with the root provided!'']))"

text \<open>\<open>NewEthWorldState\<close> and \<open>NewLevelDBDataStore\<close> are the same: nil when the database cannot be
  opened. The root hash that \<open>NewEthWorldState\<close> is given is not used.\<close>

definition NewLevelDBDataStore ::
  "('t, 'n, 'd, 'b) trie_lib \<Rightarrow> err \<Rightarrow> 'd \<Rightarrow> (nat \<Rightarrow> 'b) \<Rightarrow> ('t, 'd, 'b) EthWorldState option" where
  "NewLevelDBDataStore T openErr db disks =
     (case NewEthShardLvlDB openErr db disks of
        (Some shardLvlDB, None) \<Rightarrow> Some (NewEthDataStore (Some (tEmpty T (mainTrieDB shardLvlDB))) shardLvlDB)
      | _ \<Rightarrow> None)"

definition NewEthWorldState ::
  "('t, 'n, 'd, 'b) trie_lib \<Rightarrow> bytes \<Rightarrow> err \<Rightarrow> 'd \<Rightarrow> (nat \<Rightarrow> 'b) \<Rightarrow> ('t, 'd, 'b) EthWorldState option" where
  "NewEthWorldState T rootHash openErr db disks =
     (case NewEthShardLvlDB openErr db disks of
        (Some shardLvlDB, None) \<Rightarrow> Some (NewEthDataStore (Some (tEmpty T (mainTrieDB shardLvlDB))) shardLvlDB)
      | _ \<Rightarrow> None)"

definition NewParallelEthMemDataStore ::
  "('t, 'n, 'd, 'b) trie_lib \<Rightarrow> 'd \<Rightarrow> (nat \<Rightarrow> 'b) \<Rightarrow> ('t, 'd, 'b) EthWorldState" where
  "NewParallelEthMemDataStore T db disks =
     (let shardMemDB = NewEthShardTrieMemDB db disks
      in NewEthDataStore (Some (tEmpty T (mainTrieDB shardMemDB))) shardMemDB)"

text \<open>The shared cache that is passed in is not used.\<close>

definition NewParallelEthMemDataStoreSharedCache ::
  "('t, 'n, 'd, 'b) trie_lib \<Rightarrow> 'd \<Rightarrow> (nat \<Rightarrow> 'b) \<Rightarrow> ('t, 'd, 'b) EthWorldState" where
  "NewParallelEthMemDataStoreSharedCache T db disks =
     (let shardMemDB = NewEthShardTrieMemDB db disks
      in NewEthDataStore (Some (tEmpty T (mainTrieDB shardMemDB))) shardMemDB)"

section \<open>Accounts\<close>

text \<open>
  The length of a \<open>[20]byte\<close> is never 0, so the first guard of \<open>GetAccount\<close> is left out. An
  account that is read from the trie gets no backend.
\<close>

definition GetAccount ::
  "('v, 't, 'n, 'd, 'b) eth_lib \<Rightarrow> bytes \<Rightarrow> ('t, 'd, 'b) EthWorldState \<Rightarrow>
   ((ref option \<times> err) \<times> ('t, 'd, 'b) EthWorldState) option" where
  "GetAccount E address w =
     (case accountCache w address of
        Some r \<Rightarrow> Some ((Some r, None), w)
      | None \<Rightarrow> do {
          trie \<leftarrow> worldStateTrie w;
          let (buffer, e) = tGet (eTrie E) trie (keccak (eTrie E) address);
          if length buffer = 0 \<or> e \<noteq> None then Some ((None, e), w)
          else case eStateDec E buffer of
                 Inl e \<Rightarrow> Some ((None, Some e), w)
               | Inr s \<Rightarrow>
                   (case tNew (eTrie E) (saRoot s) (mainTrieDB (trieDB w)) of
                      (Some stgTrie, None) \<Rightarrow>
                        let code = fst (diskGet (eTrie E) (diskShardDBs (trieDB w) ! 0) (saCodeHash s) (trieDB w));
                            (r, h) = alloc \<lparr>acAddr = address, acState = s, acCode = code, acTrie = Some stgTrie,
                                            acBackend = False, acErr = None, acDirty = False\<rparr> (acctHeap w)
                        in Some ((Some r, None), w\<lparr>acctHeap := h\<rparr>)
                    | (_, e) \<Rightarrow> Some ((None, e), w))
        })"

definition EthWorldState_Preload ::
  "('v, 't, 'n, 'd, 'b) eth_lib \<Rightarrow> bytes \<Rightarrow> ('t, 'd, 'b) EthWorldState \<Rightarrow>
   (ref \<times> ('t, 'd, 'b) EthWorldState) option" where
  "EthWorldState_Preload E addr w = do {
     ((acct, _), w) \<leftarrow> GetAccount E (toAddress (eTrie E) addr) w;
     case acct of
       Some r \<Rightarrow> Some (r, w)
     | None \<Rightarrow>
         let (r, h) = alloc (NewAccountWithSharedCache E (toAddress (eTrie E) addr) (EmptyAccountState E) (trieDB w))
                        (acctHeap w)
         in Some (r, w\<lparr>acctHeap := h\<rparr>)
   }"

section \<open>Reading\<close>

definition GetAccountProof ::
  "('v, 't, 'n, 'd, 'b) eth_lib \<Rightarrow> bytes \<Rightarrow> ('t, 'd, 'b) EthWorldState \<Rightarrow> (string list \<times> err) option" where
  "GetAccountProof E addr w = do {
     let addrHash = keccak (eTrie E) addr;
     trie \<leftarrow> worldStateTrie w;
     if length (fst (tGet (eTrie E) trie addrHash)) > 0
     then let (ps, e) = tProve (eTrie E) addrHash trie in Some (proofList (eTrie E) ps, e)
     else Some ([], None)
   }"

definition EthWorldState_Has ::
  "('v, 't, 'n, 'd, 'b) eth_lib \<Rightarrow> string \<Rightarrow> ('t, 'd, 'b) EthWorldState \<Rightarrow> bool option" where
  "EthWorldState_Has E key w =
     (case ParseAccountAddr key of (_, acctKey, sub) \<Rightarrow>
        if length acctKey = 0 then Some False
        else if length sub = 0 then Some False
        else case hexDecode (eTrie E) acctKey of
               (_, Some _) \<Rightarrow> Some False
             | (acctBytes, None) \<Rightarrow>
                 let address = toAddress (eTrie E) acctBytes in
                 (case accountCache w address of
                    Some r \<Rightarrow> Account_Has E key (acctAt w r)
                  | None \<Rightarrow> do {
                      trie \<leftarrow> worldStateTrie w;
                      let buffer = fst (tGet (eTrie E) trie (keccak (eTrie E) address));
                      if length buffer = 0 then Some False
                      else case eStateDec E buffer of
                             Inl _ \<Rightarrow> Some False
                           | Inr s \<Rightarrow>
                               (case LoadTrie (eTrie E) (saRoot s) (trieDB w) of
                                  (_, Some _) \<Rightarrow> Some False
                                | (t, None) \<Rightarrow> Account_Has E key ((NewAccount address s)\<lparr>acTrie := t\<rparr>))
                    }))"

definition EthWorldState_Get ::
  "('v, 't, 'n, 'd, 'b) eth_lib \<Rightarrow> string \<Rightarrow> ('t, 'd, 'b) EthWorldState \<Rightarrow>
   (('v anyval option \<times> err) \<times> ('t, 'd, 'b) EthWorldState) option" where
  "EthWorldState_Get E path w =
     (case ParseAccountAddr path of (_, acctKey, _) \<Rightarrow>
        if length acctKey = 0 then Some ((None, Some (''Invalid account: '' @ acctKey)), w)
        else case hexDecode (eTrie E) acctKey of
               (_, Some _) \<Rightarrow> Some ((None, Some (''Invalid account format: '' @ acctKey)), w)
             | (acctBytes, None) \<Rightarrow> do {
                 ((account, e), w) \<leftarrow> GetAccount E (toAddress (eTrie E) acctBytes) w;
                 case account of
                   None \<Rightarrow> Some ((None, e), w)
                 | Some r \<Rightarrow> do {
                     (res, a) \<leftarrow> Account_Get E path (acctAt w r, trieDB w);
                     Some (res, w\<lparr>acctHeap := upd r (\<lambda>_. a) (acctHeap w)\<rparr>)
                   }
               })"

text \<open>The world state decodes with the RLP codec.\<close>

definition EthWorldState_GetAs ::
  "('v, 't, 'n, 'd, 'b) eth_lib \<Rightarrow> string \<Rightarrow> 'v option \<Rightarrow> ('t, 'd, 'b) EthWorldState \<Rightarrow>
   (('v anyval option \<times> err) \<times> ('t, 'd, 'b) EthWorldState) option" where
  "EthWorldState_GetAs E path hint w = do {
     ((data, e), w) \<leftarrow> EthWorldState_Get E path w;
     case e of
       Some e \<Rightarrow> Some ((None, Some e), w)
     | None \<Rightarrow>
         (case data of
            Some (Inl buffer) \<Rightarrow>
              if hint \<noteq> None
              then do {
                (v, e) \<leftarrow> RlpCodec_Decode (eCodec E) path buffer hint;
                Some ((case v of Inl b \<Rightarrow> Some (Inl b) | Inr None \<Rightarrow> None | Inr (Some x) \<Rightarrow> Some (Inr x), e), w)
              }
              else Some ((data, None), w)
          | _ \<Rightarrow> Some ((data, None), w))
   }"

definition EthWorldState_Root :: "('t, 'n, 'd, 'b) trie_lib \<Rightarrow> ('t, 'd, 'b) EthWorldState \<Rightarrow> bytes option" where
  "EthWorldState_Root T w = map_option (tHash T) (worldStateTrie w)"

definition GetRootHash :: "u64 \<Rightarrow> ('t, 'd, 'b) EthWorldState \<Rightarrow> bytes" where
  "GetRootHash blockNum w = (case map_of (blockRoots w) blockNum of None \<Rightarrow> replicate 32 0 | Some r \<Rightarrow> r)"


section \<open>The library of the writer\<close>

text \<open>
  \<open>eiDirty\<close> is the list of accounts an indexer has written to the world trie; nil and empty are the
  same to the code. \<open>hGroups\<close> is the order in which the goroutines of \<open>persistToEthStore\<close> take up the
  groups of a map, \<open>hSched\<close> the order in which those of \<open>Precommit\<close> take up the elements of a slice.
  \<open>hKVs\<close> is the method of \<open>statecell.StateCells\<close>.
\<close>

record 'c EthIndexer =
  eiFilter :: "'c filt option"
  eiVersion :: int
  eiIndex :: "bytes \<rightharpoonup> ref \<times> ref list"
  eiDirty :: "ref list"

record ('c, 'v, 't, 'n, 'd, 'b) ethw_lib =
  hEth :: "('v, 't, 'n, 'd, 'b) eth_lib"
  hCell :: "('c, 'v) cell_api"
  hIndexer :: "(bytes, ref \<times> ref list, 'c heap \<times> ('t, 'd, 'b) EthWorldState) indexer_api"
  hKVs :: "'c heap \<Rightarrow> ref list \<Rightarrow> (string list \<times> 'v option list) option"
  hSched :: "nat \<Rightarrow> nat list"
  hGroups :: "(bytes \<times> ref list) list \<Rightarrow> ref list list"
  hConcate :: "('c EthIndexer, ref) concat_do"
  hMaxIf :: "'c EthIndexer list \<Rightarrow> ('c EthIndexer \<Rightarrow> int) \<Rightarrow> nat \<times> 'c EthIndexer"
  hMin :: "u64 list \<Rightarrow> nat \<times> u64"

definition ethw_law :: "('c, 'v, 't, 'n, 'd, 'b) ethw_lib \<Rightarrow> bool" where
  "ethw_law H \<longleftrightarrow> eth_law (hEth H) \<and> cell_law (hCell H) \<and> indexer_law (hIndexer H) \<and>
     (\<forall>h rs. (\<forall>r \<in> set rs. pathAt (hCell H) h r \<noteq> None \<and> typedAt (hCell H) h r) \<longrightarrow>
        hKVs H h rs = Some (map (\<lambda>r. the (pathAt (hCell H) h r)) rs, map (valueAt (hCell H) h) rs)) \<and>
     (\<forall>n. mset (hSched H n) = mset [0..<n]) \<and>
     (\<forall>gs. mset (hGroups H gs) = mset (map snd gs)) \<and>
     concat_law (hConcate H) \<and>
     (\<forall>xs f. xs \<noteq> [] \<longrightarrow> snd (hMaxIf H xs f) \<in> set xs \<and> (\<forall>x \<in> set xs. f x \<le> f (snd (hMaxIf H xs f)))) \<and>
     (\<forall>xs. xs \<noteq> [] \<longrightarrow> snd (hMin H xs) = Min (set xs))"

text \<open>
  \<open>Account.ApplyChanges\<close> of \<open>eth_account.go\<close>, which nothing calls. It takes the path of the \<open>i\<close>-th group from
  the \<open>i\<close>-th transition of that group. The two slices it returns beside the error share their arrays with
  those that the update compacts, and are left out.
\<close>

definition ApplyChanges ::
  "('c, 'v, 't, 'n, 'd, 'b) ethw_lib \<Rightarrow> 'c heap \<Rightarrow> (ref list \<Rightarrow> string \<times> 'v option) \<Rightarrow> ref list list \<Rightarrow>
   ('t, 'd, 'b) acctWorld \<Rightarrow> (err \<times> ('t, 'd, 'b) acctWorld) option" where
  "ApplyChanges H h getter transitions w = do {
     keys \<leftarrow> those (map (\<lambda>(i, vals). if i < length vals then pathAt (hCell H) h (vals ! i) else None)
                     (enumerate 0 transitions));
     let typedVals = map (\<lambda>vals. snd (getter vals)) transitions;
     (e, (this, db)) \<leftarrow> UpdateAccountStorageTrie (hEth H) keys typedVals w;
     Some (e, (this\<lparr>acErr := e\<rparr>, db))
   }"

section \<open>Writing and persisting (eth_world_state.go)\<close>

definition WriteWorldTrie ::
  "('v, 't, 'n, 'd, 'b) eth_lib \<Rightarrow> ref list \<Rightarrow> ('t, 'd, 'b) EthWorldState \<Rightarrow>
   (bytes \<times> ('t, 'd, 'b) EthWorldState) option" where
  "WriteWorldTrie E dirtyAccounts w = do {
     let encodedAddrs = map (\<lambda>r. keccak (eTrie E) (acAddr (acctAt w r))) dirtyAccounts;
     let encodedAcct = map (\<lambda>r. Account_Encode E (acctAt w r)) dirtyAccounts;
     trie \<leftarrow> worldStateTrie w;
     let (trie, errs) = tUpdate (eTrie E) encodedAddrs encodedAcct trie;
     Some (tHash (eTrie E) trie,
           w\<lparr>worldStateTrie := Some trie, dbErr := joinErrors [dbErr w, joinErrors errs]\<rparr>)
   }"

text \<open>The loop that makes room for a root ends once there are fewer than 1024 of them.\<close>

partial_function (option) evictRoots ::
  "(u64 list \<Rightarrow> nat \<times> u64) \<Rightarrow> (u64 \<times> bytes) list \<Rightarrow> (u64 \<times> bytes) list option" where
  "evictRoots minOf roots =
     (if 1024 \<le> length roots
      then evictRoots minOf (AList.delete (snd (minOf (map fst roots))) roots)
      else Some roots)"

text \<open>The dirty accounts by address, in the order of the list; nil accounts are skipped.\<close>

definition groupByAddr :: "(ref \<Rightarrow> bytes) \<Rightarrow> ref option list \<Rightarrow> (bytes \<times> ref list) list" where
  "groupByAddr addr accts =
     fold (\<lambda>acct uniqueAccts. case acct of
        None \<Rightarrow> uniqueAccts
      | Some r \<Rightarrow> AList.update (addr r) ((case map_of uniqueAccts (addr r) of None \<Rightarrow> [] | Some g \<Rightarrow> g) @ [r]) uniqueAccts) accts []"

fun commitAccounts ::
  "('v, 't, 'n, 'd, 'b) eth_lib \<Rightarrow> u64 \<Rightarrow> ref list \<Rightarrow> ('t, 'd, 'b) EthWorldState \<Rightarrow>
   ('t, 'd, 'b) EthWorldState option" where
  "commitAccounts E block [] w = Some w"
| "commitAccounts E block (r # rs) w = do {
     (e, (a, db)) \<leftarrow> Account_Commit E block (acctAt w r, trieDB w);
     let w = w\<lparr>acctHeap := upd r (\<lambda>_. a) (acctHeap w), trieDB := db\<rparr>;
     commitAccounts E block rs (if e \<noteq> None then w\<lparr>dbErr := joinErrors [dbErr w, e]\<rparr> else w)
   }"

definition persistToEthStore ::
  "('c, 'v, 't, 'n, 'd, 'b) ethw_lib \<Rightarrow> u64 \<Rightarrow> ref option list \<Rightarrow> ('t, 'd, 'b) EthWorldState \<Rightarrow>
   (err \<times> ('t, 'd, 'b) EthWorldState) option" where
  "persistToEthStore H blockNum dirtyAccounts w = do {
     roots \<leftarrow> evictRoots (hMin H) (blockRoots w);
     trie \<leftarrow> worldStateTrie w;
     let w = w\<lparr>blockRoots := AList.update blockNum (tHash (eTrie (hEth H)) trie) roots\<rparr>;
     let uniqueDirties = hGroups H (groupByAddr (\<lambda>r. acAddr (acctAt w r)) dirtyAccounts);
     w \<leftarrow> commitAccounts (hEth H) blockNum (concat uniqueDirties) w;
     let ((_, t, e), db) = EthShardTrieDB_Commit (eTrie (hEth H)) trie blockNum (trieDB w);
     let w = w\<lparr>worldStateTrie := t, trieDB := db\<rparr>;
     let w = (if e \<noteq> None then w\<lparr>dbErr := joinErrors [dbErr w, e]\<rparr> else w);
     Some (dbErr w, w)
   }"

section \<open>EthIndexer (eth_storage_indexer.go)\<close>

definition addrKey ::
  "('c, 'v, 't, 'n, 'd, 'b) ethw_lib \<Rightarrow> 'c heap \<times> ('t, 'd, 'b) EthWorldState \<Rightarrow> ref \<Rightarrow> (bytes \<times> bool) option" where
  "addrKey H hw v = do {
     p \<leftarrow> pathAt (hCell H) (fst hw) v;
     let T = eTrie (hEth H);
     Some (toAddress T (fst (hexDecode T (GetAccountAddr p))), True)
   }"

definition acctInit ::
  "('c, 'v, 't, 'n, 'd, 'b) ethw_lib \<Rightarrow> bytes \<Rightarrow> ref \<Rightarrow> 'c heap \<times> ('t, 'd, 'b) EthWorldState \<Rightarrow>
   ((ref \<times> ref list) \<times> ('c heap \<times> ('t, 'd, 'b) EthWorldState)) option" where
  "acctInit H addr v hw = do {
     (r, w) \<leftarrow> EthWorldState_Preload (hEth H) addr (snd hw);
     Some ((r, [v]), (fst hw, w))
   }"

definition acctExtend :: "bytes \<Rightarrow> ref \<Rightarrow> ref \<times> ref list \<Rightarrow> 'h \<Rightarrow> ((ref \<times> ref list) \<times> 'h) option" where
  "acctExtend addr v pair hw = Some ((fst pair, snd pair @ [v]), hw)"

definition NewEthIndexer :: "int \<Rightarrow> 'c filt option \<Rightarrow> 'c EthIndexer" where
  "NewEthIndexer version filt = \<lparr>eiFilter = filt, eiVersion = version, eiIndex = Map.empty, eiDirty = []\<rparr>"

text \<open>\<open>slice.CopyIf\<close> with the filter is the selection loop of the live storage's indexer, which tests
  the path in the same way.\<close>

definition EthIndexer_Import ::
  "('c, 'v, 't, 'n, 'd, 'b) ethw_lib \<Rightarrow> ref list \<Rightarrow> 'c heap \<times> ('t, 'd, 'b) EthWorldState \<Rightarrow> 'c EthIndexer \<Rightarrow>
   ('c EthIndexer \<times> ('c heap \<times> ('t, 'd, 'b) EthWorldState)) option" where
  "EthIndexer_Import H ts hw this = do {
     (ethTrans, h) \<leftarrow> lsiImportLoop (hCell H) (eiFilter this) ts ([], fst hw);
     (idx, hw) \<leftarrow> uiImport (hIndexer H) (addrKey H) (acctInit H) acctExtend ethTrans (eiIndex this, (h, snd hw));
     Some (this\<lparr>eiIndex := idx\<rparr>, hw)
   }"

text \<open>The second half of \<open>Finalize\<close> removes accounts from a copy of the values of the index, which is
  then dropped: the index keeps accounts without transitions.\<close>

definition dropReverted ::
  "('c, 'v, 't, 'n, 'd, 'b) ethw_lib \<Rightarrow> bytes \<Rightarrow> ref \<times> ref list \<Rightarrow> 'c heap \<times> ('t, 'd, 'b) EthWorldState \<Rightarrow>
   ((ref \<times> ref list) \<times> ('c heap \<times> ('t, 'd, 'b) EthWorldState)) option" where
  "dropReverted H addr pair hw =
     Some ((fst pair, fst (RemoveIf (hCell H) (\<lambda>_ v. pathAt (hCell H) (fst hw) v = None) (snd pair))), hw)"

definition EthIndexer_Finalize ::
  "('c, 'v, 't, 'n, 'd, 'b) ethw_lib \<Rightarrow> 'c heap \<times> ('t, 'd, 'b) EthWorldState \<Rightarrow> 'c EthIndexer \<Rightarrow> 'c EthIndexer option" where
  "EthIndexer_Finalize H hw this = do {
     (idx, _) \<leftarrow> uiForeach (hIndexer H) (dropReverted H) (eiIndex this, hw);
     Some (this\<lparr>eiIndex := idx\<rparr>)
   }"

definition EthIndexer_Merge ::
  "('c, 'v, 't, 'n, 'd, 'b) ethw_lib \<Rightarrow> 'c EthIndexer list \<Rightarrow> 'c EthIndexer \<Rightarrow> 'c EthIndexer" where
  "EthIndexer_Merge H idxers this =
     (if length idxers > 0
      then let this = this\<lparr>eiVersion := eiVersion (snd (hMaxIf H idxers eiVersion))\<rparr>;
               idxers = filter (\<lambda>i. eiDirty i \<noteq> []) idxers
           in this\<lparr>eiDirty := hConcate H idxers (\<lambda>i. of_nat (length (eiDirty i))) eiDirty\<rparr>
      else this)"

section \<open>EthStorageWriter (eth_storage_writer.go)\<close>

record 'c EthStorageWriter =
  eswIndexer :: "'c EthIndexer"
  eswBuffer :: "'c EthIndexer list"
  eswFilter :: "'c filt option"

definition NewEthStorageWriter :: "int \<Rightarrow> 'c filt option \<Rightarrow> 'c EthStorageWriter" where
  "NewEthStorageWriter version filt =
     \<lparr>eswIndexer = NewEthIndexer version filt, eswBuffer = [], eswFilter = filt\<rparr>"

definition EthStorageWriter_Import ::
  "('c, 'v, 't, 'n, 'd, 'b) ethw_lib \<Rightarrow> ref list \<Rightarrow> 'c heap \<times> ('t, 'd, 'b) EthWorldState \<Rightarrow> 'c EthStorageWriter \<Rightarrow>
   ('c EthStorageWriter \<times> ('c heap \<times> ('t, 'd, 'b) EthWorldState)) option" where
  "EthStorageWriter_Import H ts hw this = do {
     (idx, hw) \<leftarrow> EthIndexer_Import H ts hw (eswIndexer this);
     Some (this\<lparr>eswIndexer := idx\<rparr>, hw)
   }"

fun updateAccounts ::
  "('c, 'v, 't, 'n, 'd, 'b) ethw_lib \<Rightarrow> 'c heap \<Rightarrow> (ref \<times> ref list) list \<Rightarrow> ('t, 'd, 'b) EthWorldState \<Rightarrow>
   ('t, 'd, 'b) EthWorldState option" where
  "updateAccounts H h [] w = Some w"
| "updateAccounts H h ((r, ts) # ps) w =
     (if length ts = 0 then updateAccounts H h ps w
      else do {
        (keys, vals) \<leftarrow> hKVs H h ts;
        (e, (a, db)) \<leftarrow> UpdateAccountStorageTrie (hEth H) keys vals (acctAt w r, trieDB w);
        let w = w\<lparr>acctHeap := upd r (\<lambda>_. a) (acctHeap w), trieDB := db\<rparr>;
        updateAccounts H h ps (if e \<noteq> None then w\<lparr>dbErr := joinErrors [dbErr w, e]\<rparr> else w)
      })"

definition EthStorageWriter_Precommit ::
  "('c, 'v, 't, 'n, 'd, 'b) ethw_lib \<Rightarrow> bool \<Rightarrow> 'c heap \<times> ('t, 'd, 'b) EthWorldState \<Rightarrow> 'c EthStorageWriter \<Rightarrow>
   (('c EthStorageWriter \<times> err) \<times> ('t, 'd, 'b) EthWorldState) option" where
  "EthStorageWriter_Precommit H isSync hw this = do {
     idx \<leftarrow> EthIndexer_Finalize H hw (eswIndexer this);
     let accounts = uiValues (hIndexer H) (eiIndex idx);
     let dirty = map fst accounts;
     let w = snd hw;
     let w = w\<lparr>accountCache := fold (\<lambda>r m. m(acAddr (acctAt w r) \<mapsto> r)) dirty (accountCache w)\<rparr>;
     w \<leftarrow> updateAccounts H (fst hw) (map (\<lambda>i. accounts ! i) (hSched H (length accounts))) w;
     (_, w) \<leftarrow> WriteWorldTrie (hEth H) dirty w;
     Some ((this\<lparr>eswBuffer := eswBuffer this @ [idx\<lparr>eiDirty := dirty\<rparr>],
                 eswIndexer := NewEthIndexer (-1) (eswFilter this)\<rparr>, dbErr w), w)
   }"

text \<open>The block number that is passed in is not used: the indexers carry the version.\<close>

definition EthStorageWriter_Commit ::
  "('c, 'v, 't, 'n, 'd, 'b) ethw_lib \<Rightarrow> u64 \<Rightarrow> ('t, 'd, 'b) EthWorldState \<Rightarrow> 'c EthStorageWriter \<Rightarrow>
   (('c EthStorageWriter \<times> err) \<times> ('t, 'd, 'b) EthWorldState) option" where
  "EthStorageWriter_Commit H version w this = do {
     let merged = EthIndexer_Merge H (eswBuffer this) (NewEthIndexer 0 None);
     (_, w) \<leftarrow> persistToEthStore H (of_int (eiVersion merged)) (map Some (eiDirty merged)) w;
     Some ((this\<lparr>eswBuffer := []\<rparr>, dbErr w), w)
   }"

definition EthStorageWriter_IsSync :: "'c EthStorageWriter \<Rightarrow> bool" where
  "EthStorageWriter_IsSync this = False"

end
