(* ===== verification/EthWorldProps.thy ===== *)
theory EthWorldProps
  imports EthWorld
begin

text \<open>
  What the Ethereum world state and its writer guarantee: the bound on the remembered roots, how
  importing groups transitions by account, what a precommit makes of every account of a generation
  and that a commit makes the result readable from the database.
\<close>

section \<open>The roots of the last blocks\<close>

lemma length_delete_key:
  "distinct (map fst xs) \<Longrightarrow> k \<in> fst ` set xs \<Longrightarrow> length (AList.delete k xs) = length xs - 1"
proof (induction xs)
  case (Cons x xs)
  then show ?case
  proof (cases "fst x = k")
    case True
    then have "k \<notin> fst ` set xs" using Cons.prems(1) by auto
    then have "AList.delete k xs = xs" by (simp add: delete_id)
    then show ?thesis using True by (simp add: AList.delete_eq case_prod_beta)
  next
    case False
    then have "k \<in> fst ` set xs" using Cons.prems(2) by auto
    moreover from this have "length xs \<noteq> 0" by auto
    ultimately show ?thesis using Cons False by (simp add: AList.delete_eq case_prod_beta)
  qed
qed simp

lemma evictRoots_run:
  assumes "\<forall>xs. xs \<noteq> [] \<longrightarrow> snd (minOf xs) = Min (set xs)" "distinct (map fst roots)"
  shows "\<exists>kept. evictRoots minOf roots = Some kept \<and> length kept = min (length roots) 1023 \<and>
    set kept \<subseteq> set roots \<and> distinct (map fst kept) \<and>
    (\<forall>old \<in> set roots - set kept. \<forall>new \<in> set kept. fst old < fst new)"
  using assms(2)
proof (induction "length roots" arbitrary: roots)
  case 0
  then show ?case by (subst evictRoots.simps) simp
next
  case (Suc n)
  show ?case
  proof (cases "1024 \<le> length roots")
    case False
    then show ?thesis using Suc.prems by (subst evictRoots.simps) simp
  next
    case True
    let ?k = "Min (set (map fst roots))"
    let ?rest = "AList.delete ?k roots"
    have "roots \<noteq> []" using True by auto
    then have k: "snd (minOf (map fst roots)) = ?k" "?k \<in> fst ` set roots" using assms(1) by auto
    have len: "length ?rest = n" using length_delete_key [OF Suc.prems k(2)] Suc.hyps(2) by simp
    have "distinct (map fst ?rest)" using Suc.prems by (simp add: AList.distinct_delete)
    then obtain kept where kept: "evictRoots minOf ?rest = Some kept" "length kept = min n 1023"
      "set kept \<subseteq> set ?rest" "distinct (map fst kept)" "\<forall>old \<in> set ?rest - set kept. \<forall>new \<in> set kept. fst old < fst new"
      using Suc.hyps(1) [of ?rest] len by auto
    have rest: "set ?rest = {x \<in> set roots. fst x \<noteq> ?k}" by (auto simp: AList.delete_eq case_prod_beta)
    have low: "?k \<le> fst x" if "x \<in> set roots" for x using that by simp
    have "fst old < fst new" if "old \<in> set roots - set kept" "new \<in> set kept" for old new
    proof (cases "old \<in> set ?rest")
      case True
      then show ?thesis using kept(5) that by auto
    next
      case False
      then have "fst old = ?k" using that rest by auto
      moreover have "new \<in> set roots" "fst new \<noteq> ?k" using that kept(3) rest by auto
      ultimately show ?thesis using low [of new] by (metis order.not_eq_order_implies_strict)
    qed
    moreover have "evictRoots minOf roots = Some kept" using True k(1) kept(1) by (subst evictRoots.simps) simp
    moreover have "set kept \<subseteq> set roots" using kept(3) rest by auto
    moreover have "length kept = min (length roots) 1023" using kept(2) True Suc.hyps(2) by simp
    ultimately show ?thesis using kept(4) by blast
  qed
qed

lemma length_update: "length (AList.update k v xs) \<le> Suc (length xs)"
  by (induction xs) auto

text \<open>
  C21. Making room for a new root ends, whatever the number of roots is: at most 1023 are left, no root
  is changed, and every root that was removed belongs to an older block than all that were kept.
\<close>
theorem evictRoots_terminates:
  assumes "\<forall>xs. xs \<noteq> [] \<longrightarrow> snd (minOf xs) = Min (set xs)" "distinct (map fst roots)"
  shows "\<exists>kept. evictRoots minOf roots = Some kept \<and> length kept = min (length roots) 1023 \<and>
    set kept \<subseteq> set roots \<and> distinct (map fst kept) \<and>
    (\<forall>old \<in> set roots - set kept. \<forall>new \<in> set kept. fst old < fst new)"
  by (rule evictRoots_run [OF assms])

theorem evictRoots_terminates_witness:
  "\<exists>kept. evictRoots (\<lambda>xs. (0, Min (set xs))) (map (\<lambda>n. (of_nat n, [])) [0..<1025]) = Some kept \<and> length kept = 1023"
proof -
  have "inj_on (of_nat :: nat \<Rightarrow> u64) (set [0..<1025])"
    by (intro inj_onI) (simp add: word_of_nat_eq_iff take_bit_nat_eq_self)
  then have "distinct (map fst (map (\<lambda>n. (of_nat n :: u64, [] :: bytes)) [0..<1025]))"
    by (simp add: comp_def distinct_map)
  from evictRoots_terminates [OF _ this, of "\<lambda>xs. (0, Min (set xs))"] show ?thesis by auto
qed

section \<open>A generation\<close>

text \<open>The transitions of an account that are still live, and the batch they make.\<close>

definition liveOf :: "('c, 'v) cell_api \<Rightarrow> 'c heap \<Rightarrow> ref list \<Rightarrow> ref list" where
  "liveOf A h ts = filter (\<lambda>v. pathAt A h v \<noteq> None) ts"

definition batchOf :: "('c, 'v) cell_api \<Rightarrow> 'c heap \<Rightarrow> ref list \<Rightarrow> string list \<times> 'v option list" where
  "batchOf A h ts = (map (\<lambda>r. the (pathAt A h r)) ts, map (valueAt A h) ts)"

text \<open>How an account relates to what it was before its batch.\<close>

definition updatedBy :: "('v, 't, 'n, 'd, 'b) eth_lib \<Rightarrow> string list \<times> 'v option list \<Rightarrow> 't Account \<Rightarrow> 't Account \<Rightarrow> bool" where
  "updatedBy E kvs a a' \<longleftrightarrow>
     (if fst kvs = [] then a' = a
      else (case updParts (zip (fst kvs) (snd kvs)) of (n, b, c, rest) \<Rightarrow>
        (\<exists>t'. a' = updatedAccount E n b c rest t' a \<and> storageOf E a' = overlay (slotsOf E rest) (storageOf E a))))"

text \<open>A batch that writes to the storage of the account; a later batch has to do so as well, or what is not yet
  committed is lost.\<close>

definition writesStorage :: "string list \<times> 'v option list \<Rightarrow> bool" where
  "writesStorage kvs \<longleftrightarrow> snd (snd (snd (updParts (zip (fst kvs) (snd kvs))))) \<noteq> []"

lemma updatedBy_dirty: "updatedBy E kvs a a' \<Longrightarrow> acDirty a' \<Longrightarrow> acDirty a \<or> writesStorage kvs"
  by (auto simp: updatedBy_def writesStorage_def split: if_splits prod.splits)

lemma updatedBy_addr: "updatedBy E kvs a a' \<Longrightarrow> acAddr a' = acAddr a"
  by (auto simp: updatedBy_def split: if_splits prod.splits)

text \<open>The parts of the world that a step leaves alone.\<close>

definition sameWorld :: "('t, 'd, 'b) EthWorldState \<Rightarrow> ('t, 'd, 'b) EthWorldState \<Rightarrow> bool" where
  "sameWorld w w' \<longleftrightarrow> worldStateTrie w' = worldStateTrie w \<and> accountCache w' = accountCache w \<and>
     dbErr w' = dbErr w \<and> blockRoots w' = blockRoots w"

lemma updateAccounts_step:
  assumes "ethw_law H" "\<forall>v \<in> set ts. pathAt (hCell H) h v \<noteq> None \<and> typedAt (hCell H) h v"
    and "pending (hEth H) (mainTrieDB (trieDB w)) (acctAt w r)"
    and "ts \<noteq> [] \<longrightarrow> batchOk (hEth H) (fst (batchOf (hCell H) h ts)) (snd (batchOf (hCell H) h ts)) (acctAt w r) \<and>
      (acDirty (acctAt w r) \<longrightarrow> writesStorage (batchOf (hCell H) h ts))"
  shows "\<exists>w1. updateAccounts H h ((r, ts) # ps) w = updateAccounts H h ps w1 \<and> sameWorld w w1 \<and>
      mainTrieDB (trieDB w1) = mainTrieDB (trieDB w) \<and> nextRef (acctHeap w1) = nextRef (acctHeap w) \<and>
      updatedBy (hEth H) (batchOf (hCell H) h ts) (acctAt w r) (acctAt w1 r) \<and>
      pending (hEth H) (mainTrieDB (trieDB w)) (acctAt w1 r) \<and> (\<forall>r'. r' \<noteq> r \<longrightarrow> acctAt w1 r' = acctAt w r')"
proof (cases "ts = []")
  case True
  then show ?thesis using assms(3) by (intro exI [of _ w]) (simp add: sameWorld_def updatedBy_def batchOf_def)
next
  case False
  let ?E = "hEth H" and ?kvs = "batchOf (hCell H) h ts"
  have law: "eth_law ?E" using assms(1) by (simp add: ethw_law_def)
  obtain n b c rest where parts: "updParts (zip (fst ?kvs) (snd ?kvs)) = (n, b, c, rest)" by (metis prod.exhaust)
  have ok: "batchOk ?E (fst ?kvs) (snd ?kvs) (acctAt w r)" "acDirty (acctAt w r) \<Longrightarrow> rest \<noteq> []"
    using assms(4) False parts by (simp_all add: writesStorage_def)
  obtain a t' where u: "UpdateAccountStorageTrie ?E (fst ?kvs) (snd ?kvs) (acctAt w r, trieDB w) =
      Some (None, (a, putCode ?E c (trieDB w)))" "a = updatedAccount ?E n b c rest t' (acctAt w r)"
    "pending ?E (mainTrieDB (trieDB w)) a" "storageOf ?E a = overlay (slotsOf ?E rest) (storageOf ?E (acctAt w r))"
    using UpdateAccountStorageTrie_pending [OF law ok(1) assms(3) ok(2) parts] by metis
  have kv: "hKVs H h ts = Some (fst ?kvs, snd ?kvs)"
    using assms(1,2) unfolding ethw_law_def batchOf_def by simp
  show ?thesis
    by (intro exI [of _ "w\<lparr>acctHeap := upd r (\<lambda>_. a) (acctHeap w), trieDB := putCode ?E c (trieDB w)\<rparr>"])
       (use False kv u parts in \<open>auto simp: sameWorld_def updatedBy_def batchOf_def\<close>)
qed

lemma updateAccounts_run:
  assumes "ethw_law H" "distinct (map fst ps)"
    and "\<And>r ts. (r, ts) \<in> set ps \<Longrightarrow> (\<forall>v \<in> set ts. pathAt (hCell H) h v \<noteq> None \<and> typedAt (hCell H) h v)"
    and "\<And>r ts. (r, ts) \<in> set ps \<Longrightarrow> pending (hEth H) (mainTrieDB (trieDB w)) (acctAt w r) \<and>
           (ts \<noteq> [] \<longrightarrow> batchOk (hEth H) (fst (batchOf (hCell H) h ts)) (snd (batchOf (hCell H) h ts)) (acctAt w r) \<and>
             (acDirty (acctAt w r) \<longrightarrow> writesStorage (batchOf (hCell H) h ts)))"
  shows "\<exists>w'. updateAccounts H h ps w = Some w' \<and> sameWorld w w' \<and> mainTrieDB (trieDB w') = mainTrieDB (trieDB w) \<and>
    nextRef (acctHeap w') = nextRef (acctHeap w) \<and>
    (\<forall>(r, ts) \<in> set ps. updatedBy (hEth H) (batchOf (hCell H) h ts) (acctAt w r) (acctAt w' r) \<and>
       pending (hEth H) (mainTrieDB (trieDB w')) (acctAt w' r)) \<and>
    (\<forall>r. r \<notin> fst ` set ps \<longrightarrow> acctAt w' r = acctAt w r)"
  using assms(2-4)
proof (induction ps arbitrary: w)
  case Nil
  then show ?case by (simp add: sameWorld_def)
next
  case (Cons p ps)
  obtain r ts where p: "p = (r, ts)" by fastforce
  let ?E = "hEth H" and ?d = "mainTrieDB (trieDB w)" and ?kvs = "batchOf (hCell H) h ts"
  have "\<exists>w1. updateAccounts H h (p # ps) w = updateAccounts H h ps w1 \<and> sameWorld w w1 \<and> mainTrieDB (trieDB w1) = ?d \<and>
      nextRef (acctHeap w1) = nextRef (acctHeap w) \<and> updatedBy ?E ?kvs (acctAt w r) (acctAt w1 r) \<and> pending ?E ?d (acctAt w1 r) \<and> (\<forall>r'. r' \<noteq> r \<longrightarrow> acctAt w1 r' = acctAt w r')"
    using updateAccounts_step [OF assms(1), of ts h w r ps] Cons.prems(2,3) [of r ts] p by simp
  then obtain w1 where w1: "updateAccounts H h (p # ps) w = updateAccounts H h ps w1" "sameWorld w w1"
    "mainTrieDB (trieDB w1) = ?d" "updatedBy ?E ?kvs (acctAt w r) (acctAt w1 r)" "pending ?E ?d (acctAt w1 r)"
    "\<And>r'. r' \<noteq> r \<Longrightarrow> acctAt w1 r' = acctAt w r'"
    "nextRef (acctHeap w1) = nextRef (acctHeap w)" by blast
  have fresh: "r' \<noteq> r" if "(r', ts') \<in> set ps" for r' ts' using that Cons.prems(1) p by (auto simp: rev_image_eqI)
  have "\<exists>w'. updateAccounts H h ps w1 = Some w' \<and> sameWorld w1 w' \<and> mainTrieDB (trieDB w') = mainTrieDB (trieDB w1) \<and>
    nextRef (acctHeap w') = nextRef (acctHeap w1) \<and>
    (\<forall>(r, ts) \<in> set ps. updatedBy ?E (batchOf (hCell H) h ts) (acctAt w1 r) (acctAt w' r) \<and>
       pending ?E (mainTrieDB (trieDB w')) (acctAt w' r)) \<and> (\<forall>r. r \<notin> fst ` set ps \<longrightarrow> acctAt w' r = acctAt w1 r)"
  proof (rule Cons.IH)
    show "distinct (map fst ps)" using Cons.prems(1) by simp
    show "\<forall>v \<in> set ts'. pathAt (hCell H) h v \<noteq> None \<and> typedAt (hCell H) h v" if "(r', ts') \<in> set ps" for r' ts'
      using Cons.prems(2) [of r' ts'] that by simp
    show "pending ?E (mainTrieDB (trieDB w1)) (acctAt w1 r') \<and>
        (ts' \<noteq> [] \<longrightarrow> batchOk ?E (fst (batchOf (hCell H) h ts')) (snd (batchOf (hCell H) h ts')) (acctAt w1 r') \<and>
          (acDirty (acctAt w1 r') \<longrightarrow> writesStorage (batchOf (hCell H) h ts')))"
      if "(r', ts') \<in> set ps" for r' ts'
      using Cons.prems(3) [of r' ts'] that fresh [OF that] by (simp add: w1(3,6))
  qed
  then obtain w' where w': "updateAccounts H h ps w1 = Some w'" "sameWorld w1 w'" "mainTrieDB (trieDB w') = ?d"
    "\<forall>(r, ts) \<in> set ps. updatedBy ?E (batchOf (hCell H) h ts) (acctAt w1 r) (acctAt w' r) \<and> pending ?E ?d (acctAt w' r)"
    "\<forall>r. r \<notin> fst ` set ps \<longrightarrow> acctAt w' r = acctAt w1 r" "nextRef (acctHeap w') = nextRef (acctHeap w)"
    using w1(3,7) by auto
  have "r \<notin> fst ` set ps" using Cons.prems(1) p by simp
  then have "acctAt w' r = acctAt w1 r" using w'(5) by blast
  then show ?case
    using w1 w' p fresh by (intro exI [of _ w']) (fastforce simp: sameWorld_def)
qed

lemma set_groups_update:
  "set (concat (map snd (AList.update k ((case map_of m k of None \<Rightarrow> [] | Some g \<Rightarrow> g) @ [r]) m))) =
     insert r (set (concat (map snd m)))"
  by (induction m) auto

lemma set_groupByAddr: "set (concat (map snd (groupByAddr addr rs))) = {r. Some r \<in> set rs}"
proof -
  have "set (concat (map snd (fold (\<lambda>x m. case x of None \<Rightarrow> m
        | Some r \<Rightarrow> AList.update (addr r) ((case map_of m (addr r) of None \<Rightarrow> [] | Some g \<Rightarrow> g) @ [r]) m) rs m))) =
      {r. Some r \<in> set rs} \<union> set (concat (map snd m))" for m
  proof (induction rs arbitrary: m)
    case (Cons x rs)
    then show ?case by (cases x) (simp, simp only: fold.simps comp_apply option.case set_groups_update, auto)
  qed simp
  from this [of "[]"] show ?thesis by (simp add: groupByAddr_def)
qed

lemma set_hGroups: "ethw_law H \<Longrightarrow> set (concat (hGroups H (groupByAddr addr rs))) = {r. Some r \<in> set rs}"
proof -
  assume "ethw_law H"
  then have "\<forall>gs. mset (hGroups H gs) = mset (map snd gs)" unfolding ethw_law_def by (elim conjE) assumption
  then have "set (hGroups H (groupByAddr addr rs)) = set (map snd (groupByAddr addr rs))" by (metis mset_eq_setD)
  then show ?thesis using set_groupByAddr [of addr rs] by simp
qed

text \<open>Committing accounts puts the storage of each into the database and changes nothing else about them.\<close>

definition accountsSaved ::
  "('v, 't, 'n, 'd, 'b) eth_lib \<Rightarrow> ref set \<Rightarrow> ('t, 'd, 'b) EthWorldState \<Rightarrow> ('t, 'd, 'b) EthWorldState \<Rightarrow> bool" where
  "accountsSaved E R w w' \<longleftrightarrow>
     accountCache w' = accountCache w \<and> dbErr w' = dbErr w \<and> nextRef (acctHeap w') = nextRef (acctHeap w) \<and>
     dbGrows (eTrie E) (mainTrieDB (trieDB w)) (mainTrieDB (trieDB w')) \<and>
     (\<forall>r \<in> R. acAddr (acctAt w' r) = acAddr (acctAt w r) \<and> acState (acctAt w' r) = acState (acctAt w r) \<and>
        storageOf E (acctAt w' r) = storageOf E (acctAt w r) \<and>
        pending E (mainTrieDB (trieDB w')) (acctAt w' r) \<and> \<not> acDirty (acctAt w' r)) \<and>
     (\<forall>r. r \<notin> R \<longrightarrow> acctAt w' r = acctAt w r)"

lemma accountsSaved_root:
  assumes "accountsSaved E R w w'" "r \<in> R"
  shows "dRoots (eTrie E) (mainTrieDB (trieDB w')) (saRoot (acState (acctAt w r))) = Some (storageOf E (acctAt w r))"
proof -
  have "pending E (mainTrieDB (trieDB w')) (acctAt w' r)" "\<not> acDirty (acctAt w' r)"
    "acState (acctAt w' r) = acState (acctAt w r)" "storageOf E (acctAt w' r) = storageOf E (acctAt w r)"
    using assms by (simp_all add: accountsSaved_def)
  then show ?thesis using pending_saved by metis
qed

lemma accountsSaved_at:
  assumes "accountsSaved E R w w'"
  shows "acAddr (acctAt w' r) = acAddr (acctAt w r)" "acState (acctAt w' r) = acState (acctAt w r)"
    "storageOf E (acctAt w' r) = storageOf E (acctAt w r)" "r \<notin> R \<Longrightarrow> acctAt w' r = acctAt w r"
    "r \<in> R \<Longrightarrow> pending E (mainTrieDB (trieDB w')) (acctAt w' r) \<and> \<not> acDirty (acctAt w' r)"
    "pending E (mainTrieDB (trieDB w)) (acctAt w r) \<Longrightarrow> pending E (mainTrieDB (trieDB w')) (acctAt w' r)"
    "\<not> acDirty (acctAt w r) \<Longrightarrow> \<not> acDirty (acctAt w' r)"
proof -
  have g: "dbGrows (eTrie E) (mainTrieDB (trieDB w)) (mainTrieDB (trieDB w'))" using assms by (simp add: accountsSaved_def)
  note d = assms [unfolded accountsSaved_def]
  show "acAddr (acctAt w' r) = acAddr (acctAt w r)" "acState (acctAt w' r) = acState (acctAt w r)"
    "storageOf E (acctAt w' r) = storageOf E (acctAt w r)"
    "pending E (mainTrieDB (trieDB w)) (acctAt w r) \<Longrightarrow> pending E (mainTrieDB (trieDB w')) (acctAt w' r)"
    "\<not> acDirty (acctAt w r) \<Longrightarrow> \<not> acDirty (acctAt w' r)"
    using d pending_grows [OF _ g] by (cases "r \<in> R"; simp)+
qed (use assms in \<open>simp_all add: accountsSaved_def\<close>)

lemma accountsSaved_trans:
  assumes "accountsSaved E R w w1" "accountsSaved E R' w1 w'"
  shows "accountsSaved E (R \<union> R') w w'"
proof -
  note a = accountsSaved_at [OF assms(1)] and b = accountsSaved_at [OF assms(2)]
  have "pending E (mainTrieDB (trieDB w')) (acctAt w' r) \<and> \<not> acDirty (acctAt w' r)" if "r \<in> R \<union> R'" for r
    using that a(5) [of r] b(5-7) [of r] by auto
  moreover have "acctAt w' r = acctAt w r" if "r \<notin> R \<union> R'" for r using that a(4) [of r] b(4) [of r] by simp
  moreover have "dbGrows (eTrie E) (mainTrieDB (trieDB w)) (mainTrieDB (trieDB w'))"
    by (rule dbGrows_trans [of _ _ "mainTrieDB (trieDB w1)"]) (use assms in \<open>simp_all add: accountsSaved_def\<close>)
  moreover have "accountCache w' = accountCache w \<and> dbErr w' = dbErr w \<and> nextRef (acctHeap w') = nextRef (acctHeap w)"
    using assms by (simp add: accountsSaved_def)
  ultimately show ?thesis unfolding accountsSaved_def by (simp only: a(1-3) b(1-3)) simp
qed

lemma commitAccounts_run:
  assumes "eth_law E" "\<forall>r \<in> set rs. pending E (mainTrieDB (trieDB w)) (acctAt w r)"
  shows "\<exists>w'. commitAccounts E block rs w = Some w' \<and> sameWorld w w' \<and> accountsSaved E (set rs) w w'"
  using assms(2)
proof (induction rs arbitrary: w)
  case Nil
  then show ?case by (simp add: sameWorld_def accountsSaved_def)
next
  case (Cons r rs)
  let ?d = "mainTrieDB (trieDB w)"
  obtain a db where c: "Account_Commit E block (acctAt w r, trieDB w) = Some (None, (a, db))" "pending E (mainTrieDB db) a"
    "\<not> acDirty a" "acState a = acState (acctAt w r)" "acAddr a = acAddr (acctAt w r)" "storageOf E a = storageOf E (acctAt w r)"
    "dbGrows (eTrie E) ?d (mainTrieDB db)"
    using Account_Commit_pending [OF assms(1), of "trieDB w" "acctAt w r"] Cons.prems by (metis list.set_intros(1))
  define w1 where "w1 = w\<lparr>acctHeap := upd r (\<lambda>_. a) (acctHeap w), trieDB := db\<rparr>"
  have run: "commitAccounts E block (r # rs) w = commitAccounts E block rs w1" by (simp add: c(1) w1_def)
  have same: "sameWorld w w1" "accountsSaved E {r} w w1"
    using c by (simp_all add: sameWorld_def accountsSaved_def w1_def)
  have "pending E (mainTrieDB (trieDB w1)) (acctAt w1 r')" if "r' \<in> set rs" for r'
    using that c(2) Cons.prems pending_grows [OF _ c(7), of "acctAt w r'"] by (cases "r' = r") (simp_all add: w1_def)
  then obtain w' where w': "commitAccounts E block rs w1 = Some w'" "sameWorld w1 w'" "accountsSaved E (set rs) w1 w'"
    using Cons.IH [of w1] by auto
  then show ?case using run same accountsSaved_trans [OF same(2) w'(3)]
    by (intro exI [of _ w']) (simp add: sameWorld_def)
qed

lemma WriteWorldTrie_run:
  assumes "eth_law E" "worldStateTrie w = Some t" "dbErr w = None"
    and "distinct (map (\<lambda>r. keccak (eTrie E) (acAddr (acctAt w r))) rs)"
  obtains t' where "WriteWorldTrie E rs w = Some (tHash (eTrie E) t', w\<lparr>worldStateTrie := Some t'\<rparr>)"
    "tLookup (eTrie E) t' = overlay (map (\<lambda>r. (keccak (eTrie E) (acAddr (acctAt w r)), Account_Encode E (acctAt w r))) rs) (tLookup (eTrie E) t)"
    "\<forall>d. tBacked (eTrie E) d t \<longrightarrow> tBacked (eTrie E) d t'"
proof -
  let ?ks = "map (\<lambda>r. keccak (eTrie E) (acAddr (acctAt w r))) rs" and ?vs = "map (\<lambda>r. Account_Encode E (acctAt w r)) rs"
  have law: "trie_law (eTrie E)" using assms(1) by (simp add: eth_law_def)
  have len: "length ?ks = length ?vs" by simp
  obtain t' es where u: "tUpdate (eTrie E) ?ks ?vs t = (t', es)" "set es \<subseteq> {None}"
    "tLookup (eTrie E) t' = (\<lambda>k. case map_of (zip ?ks ?vs) k of Some v \<Rightarrow> v | None \<Rightarrow> tLookup (eTrie E) t k)"
    "\<forall>d. tBacked (eTrie E) d t \<longrightarrow> tBacked (eTrie E) d t'"
    by (rule trie_law_update [OF law assms(4) len])
  have "joinErrors [dbErr w, joinErrors es] = None" using u(2) assms(3) joinErrors_None [of es] by (simp add: joinErrors_def)
  then show ?thesis
    using u assms(2,3) by (intro that [of t']) (simp_all add: WriteWorldTrie_def overlay_def fun_eq_iff zip_map_pair)
qed

lemma persistToEthStore_run:
  assumes "ethw_law H" "worldStateTrie w = Some t" "tBacked (eTrie (hEth H)) (mainTrieDB (trieDB w)) t" "dbErr w = None"
    and "distinct (map fst (blockRoots w))" "\<forall>r. Some r \<in> set rs \<longrightarrow> pending (hEth H) (mainTrieDB (trieDB w)) (acctAt w r)"
  obtains w' t' where "persistToEthStore H block rs w = Some (None, w')" "dbErr w' = None"
    "worldStateTrie w' = Some t'" "tLookup (eTrie (hEth H)) t' = tLookup (eTrie (hEth H)) t"
    "tBacked (eTrie (hEth H)) (mainTrieDB (trieDB w')) t'" "accountsSaved (hEth H) {r. Some r \<in> set rs} w w'"
    "GetRootHash block w' = tHash (eTrie (hEth H)) t" "length (blockRoots w') \<le> 1024" "distinct (map fst (blockRoots w'))"
    "dRoots (eTrie (hEth H)) (mainTrieDB (trieDB w')) (tHash (eTrie (hEth H)) t) = Some (tLookup (eTrie (hEth H)) t)"
proof -
  let ?E = "hEth H" and ?T = "eTrie (hEth H)"
  have eth: "eth_law ?E" and law: "trie_law ?T" using assms(1) by (simp_all add: ethw_law_def eth_law_def)
  have "\<forall>xs. xs \<noteq> [] \<longrightarrow> snd (hMin H xs) = Min (set xs)" using assms(1) unfolding ethw_law_def by (elim conjE) assumption
  then obtain kept where kept: "evictRoots (hMin H) (blockRoots w) = Some kept" "length kept \<le> 1023" "distinct (map fst kept)"
    using evictRoots_run [OF _ assms(5)] by (metis min.cobounded2)
  define w1 where "w1 = w\<lparr>blockRoots := AList.update block (tHash ?T t) kept\<rparr>"
  define dirty where "dirty = concat (hGroups H (groupByAddr (\<lambda>r. acAddr (acctAt w1 r)) rs))"
  have dirty: "set dirty = {r. Some r \<in> set rs}" unfolding dirty_def by (rule set_hGroups [OF assms(1)])
  have "\<forall>r \<in> set dirty. pending ?E (mainTrieDB (trieDB w1)) (acctAt w1 r)" using assms(6) dirty by (simp add: w1_def)
  then obtain w2 where w2: "commitAccounts ?E block dirty w1 = Some w2" "sameWorld w1 w2" "accountsSaved ?E {r. Some r \<in> set rs} w1 w2"
    using commitAccounts_run [OF eth, of dirty w1 block] unfolding dirty by blast
  have "tBacked ?T (mainTrieDB (trieDB w2)) t" using w2(3) assms(3) by (simp add: accountsSaved_def dbGrows_def w1_def)
  then obtain t' db' where c: "EthShardTrieDB_Commit ?T t block (trieDB w2) = ((tHash ?T t, Some t', None), db')"
    "dRoots ?T (mainTrieDB db') = (dRoots ?T (mainTrieDB (trieDB w2)))(tHash ?T t \<mapsto> tLookup ?T t)"
    "\<forall>u. tBacked ?T (mainTrieDB (trieDB w2)) u \<longrightarrow> tBacked ?T (mainTrieDB db') u"
    "tLookup ?T t' = tLookup ?T t" "tBacked ?T (mainTrieDB db') t'"
    using EthShardTrieDB_Commit_ok [OF law] by metis
  have grows: "dbGrows ?T (mainTrieDB (trieDB w2)) (mainTrieDB db')" by (rule dbGrows_commit [OF law c(2,3)])
  have roots: "blockRoots w2 = AList.update block (tHash ?T t) kept" "dbErr w2 = None"
    using w2(2) assms(4) by (simp_all add: sameWorld_def w1_def)
  let ?w3 = "w2\<lparr>worldStateTrie := Some t', trieDB := db'\<rparr>"
  have "accountsSaved ?E {} w2 ?w3" using grows by (simp add: accountsSaved_def)
  from accountsSaved_trans [OF w2(3) this] have saved: "accountsSaved ?E {r. Some r \<in> set rs} w ?w3"
    by (simp add: accountsSaved_def w1_def)
  have len: "length (AList.update block (tHash ?T t) kept) \<le> 1024" using kept(2) length_update [of block "tHash ?T t" kept] by linarith
  show ?thesis
  proof (rule that [of "w2\<lparr>worldStateTrie := Some t', trieDB := db'\<rparr>"])
    show "persistToEthStore H block rs w = Some (None, w2\<lparr>worldStateTrie := Some t', trieDB := db'\<rparr>)"
      unfolding persistToEthStore_def kept(1) assms(2) Let_def bind.bind_lunit
      using w2(1) c(1) roots(2) by (simp add: dirty_def w1_def)
  qed (use roots len kept(3) c saved in \<open>simp_all add: GetRootHash_def update_conv distinct_update\<close>)
qed

text \<open>What a snapshot finds in a database that holds a world trie and an account's storage.\<close>

lemma snapshot_account:
  assumes "eth_law E" "dRoots (eTrie E) d root = Some c" "c (keccak (eTrie E) addr) = eStateEnc E s"
    and "dRoots (eTrie E) d (saRoot s) = Some st"
  obtains snap r w where "LoadEthTrieByRoot (eTrie E) shards disks d root = (Some snap, None)"
    "GetAccount E addr snap = Some ((Some r, None), w)" "acAddr (acctAt w r) = addr" "acState (acctAt w r) = s"
    "storageOf E (acctAt w r) = st" "\<not> acBackend (acctAt w r)"
proof -
  have law: "trie_law (eTrie E)" and enc: "eStateEnc E s \<noteq> []" "eStateDec E (eStateEnc E s) = Inr s"
    using assms(1) by (simp_all add: eth_law_def)
  obtain t where t: "tNew (eTrie E) root d = (Some t, None)" "tLookup (eTrie E) t = c" using trie_law_open [OF law assms(2)] by metis
  obtain u where u: "tNew (eTrie E) (saRoot s) d = (Some u, None)" "tLookup (eTrie E) u = st" using trie_law_open [OF law assms(4)] by metis
  let ?snap = "NewEthDataStore (Some t) \<lparr>mainTrieDB = d, diskShardDBs = shards, diskDB = disks\<rparr>"
  have load: "LoadEthTrieByRoot (eTrie E) shards disks d root = (Some ?snap, None)" by (simp add: LoadEthTrieByRoot_def t(1))
  show ?thesis
    by (rule that [OF load])
       (simp add: GetAccount_def NewEthDataStore_def t(2) trie_law_get [OF law] assms(3) enc u alloc_def,
        simp_all add: storageOf_def u)
qed

lemma EthIndexer_Finalize_run:
  assumes "ethw_law H" "finite (dom (eiIndex this))"
  shows "EthIndexer_Finalize H (h, w) this =
    Some (this\<lparr>eiIndex := (\<lambda>k. map_option (\<lambda>(r, ts). (r, liveOf (hCell H) h ts)) (eiIndex this k))\<rparr>)"
proof -
  let ?m = "eiIndex this"
  have idx: "indexer_law (hIndexer H)" and cell: "cell_law (hCell H)" using assms(1) by (simp_all add: ethw_law_def)
  obtain ks where ks: "distinct ks" "set ks = dom ?m"
    "uiForeach (hIndexer H) (dropReverted H) (?m, (h, w)) = foreachSpec (dropReverted H) ks (?m, (h, w))"
    by (rule indexer_law_foreach [OF idx assms(2)])
  have "foreachSpec (dropReverted H) ks (?m, (h, w)) =
      Some (\<lambda>k. if k \<in> set ks then Some (fst (the (?m k)), liveOf (hCell H) h (snd (the (?m k)))) else ?m k, (h, w))"
    by (rule foreachSpec_pure [OF ks(1)])
       (simp add: dropReverted_def liveOf_def cell_law_simps(12) [OF cell, of "\<lambda>v. pathAt (hCell H) h v = None"])
  moreover have "(\<lambda>k. if k \<in> set ks then Some (fst (the (?m k)), liveOf (hCell H) h (snd (the (?m k)))) else ?m k) =
      (\<lambda>k. map_option (\<lambda>(r, ts). (r, liveOf (hCell H) h ts)) (?m k))"
  proof (rule ext)
    show "(if k \<in> set ks then Some (fst (the (?m k)), liveOf (hCell H) h (snd (the (?m k)))) else ?m k) =
        map_option (\<lambda>(r, ts). (r, liveOf (hCell H) h ts)) (?m k)" for k
      by (cases "?m k") (auto simp: ks(2))
  qed
  ultimately show ?thesis by (simp add: EthIndexer_Finalize_def ks(3))
qed

text \<open>
  A generation that can be written: every entry of the index is an account with its own address, a
  backend and its storage in the database, and its live transitions are typed and make a
  well-formed batch; distinct addresses have distinct hashes.
\<close>

definition genOk :: "('c, 'v, 't, 'n, 'd, 'b) ethw_lib \<Rightarrow> 'c heap \<Rightarrow> ('t, 'd, 'b) EthWorldState \<Rightarrow> (bytes \<rightharpoonup> ref \<times> ref list) \<Rightarrow> bool" where
  "genOk H h w idx \<longleftrightarrow> finite (dom idx) \<and> inj_on (keccak (eTrie (hEth H))) (dom idx) \<and>
     (\<forall>addr r ts. idx addr = Some (r, ts) \<longrightarrow>
        acAddr (acctAt w r) = addr \<and> pending (hEth H) (mainTrieDB (trieDB w)) (acctAt w r) \<and>
        (\<forall>v \<in> set (liveOf (hCell H) h ts). typedAt (hCell H) h v) \<and>
        (liveOf (hCell H) h ts \<noteq> [] \<longrightarrow>
           (case batchOf (hCell H) h (liveOf (hCell H) h ts) of (keys, vals) \<Rightarrow> batchOk (hEth H) keys vals (acctAt w r) \<and>
              (acDirty (acctAt w r) \<longrightarrow> writesStorage (keys, vals)))))"

lemma genOkI:
  assumes "finite (dom idx)" "inj_on (keccak (eTrie (hEth H))) (dom idx)"
    and "\<And>addr r ts. idx addr = Some (r, ts) \<Longrightarrow> acAddr (acctAt w r) = addr"
    and "\<And>addr r ts. idx addr = Some (r, ts) \<Longrightarrow> pending (hEth H) (mainTrieDB (trieDB w)) (acctAt w r)"
    and "\<And>addr r ts. idx addr = Some (r, ts) \<Longrightarrow> \<forall>v \<in> set (liveOf (hCell H) h ts). typedAt (hCell H) h v"
    and "\<And>addr r ts. idx addr = Some (r, ts) \<Longrightarrow> liveOf (hCell H) h ts \<noteq> [] \<longrightarrow>
      (case batchOf (hCell H) h (liveOf (hCell H) h ts) of (keys, vals) \<Rightarrow> batchOk (hEth H) keys vals (acctAt w r) \<and>
         (acDirty (acctAt w r) \<longrightarrow> writesStorage (keys, vals)))"
  shows "genOk H h w idx"
  unfolding genOk_def using assms by simp

lemma genOk_entry:
  assumes "genOk H h w idx" "idx addr = Some (r, ts)"
  shows "acAddr (acctAt w r) = addr" "pending (hEth H) (mainTrieDB (trieDB w)) (acctAt w r)"
    "\<forall>v \<in> set (liveOf (hCell H) h ts). typedAt (hCell H) h v"
    "liveOf (hCell H) h ts \<noteq> [] \<longrightarrow> batchOk (hEth H) (fst (batchOf (hCell H) h (liveOf (hCell H) h ts)))
       (snd (batchOf (hCell H) h (liveOf (hCell H) h ts))) (acctAt w r) \<and>
       (acDirty (acctAt w r) \<longrightarrow> writesStorage (batchOf (hCell H) h (liveOf (hCell H) h ts)))"
  using assms by (auto simp: genOk_def case_prod_beta)

text \<open>The finished index as a slice of accounts with their live transitions.\<close>

definition finishedIdx :: "('c, 'v) cell_api \<Rightarrow> 'c heap \<Rightarrow> (bytes \<rightharpoonup> ref \<times> ref list) \<Rightarrow> (bytes \<rightharpoonup> ref \<times> ref list)" where
  "finishedIdx A h idx = (\<lambda>k. map_option (\<lambda>(r, ts). (r, liveOf A h ts)) (idx k))"

lemma generation_accounts:
  assumes "ethw_law H" "genOk H h w idx"
  obtains accounts where "uiValues (hIndexer H) (finishedIdx (hCell H) h idx) = accounts"
    "distinct (map fst accounts)"
    "set accounts = {(r, liveOf (hCell H) h ts) |addr r ts. idx addr = Some (r, ts)}"
    "distinct (map (\<lambda>r. keccak (eTrie (hEth H)) (acAddr (acctAt w r))) (map fst accounts))"
proof -
  let ?fin = "finishedIdx (hCell H) h idx"
  have ixl: "indexer_law (hIndexer H)" using assms(1) by (simp add: ethw_law_def)
  have dom: "dom ?fin = dom idx" by (auto simp: finishedIdx_def)
  have fin: "finite (dom idx)" "inj_on (keccak (eTrie (hEth H))) (dom idx)" using assms(2) by (simp_all add: genOk_def)
  obtain ks where ks: "distinct ks" "set ks = dom idx" "uiValues (hIndexer H) ?fin = map (\<lambda>k. the (?fin k)) ks"
    using indexer_law_values [OF ixl, of ?fin] dom fin(1) by metis
  have entry: "\<exists>r ts. idx k = Some (r, ts) \<and> the (?fin k) = (r, liveOf (hCell H) h ts)" if "k \<in> set ks" for k
    using that ks(2) by (auto simp: finishedIdx_def)
  then have addr: "acAddr (acctAt w (fst (the (?fin k)))) = k" if "k \<in> set ks" for k
    using that genOk_entry(1) [OF assms(2)] by fastforce
  then have "inj_on (\<lambda>k. fst (the (?fin k))) (set ks)" by (intro inj_onI) metis
  then have 1: "distinct (map fst (map (\<lambda>k. the (?fin k)) ks))" using ks(1) by (simp add: distinct_map comp_def)
  have "map (\<lambda>r. keccak (eTrie (hEth H)) (acAddr (acctAt w r))) (map fst (map (\<lambda>k. the (?fin k)) ks)) = map (keccak (eTrie (hEth H))) ks"
    using addr by simp
  then have 2: "distinct (map (\<lambda>r. keccak (eTrie (hEth H)) (acAddr (acctAt w r))) (map fst (map (\<lambda>k. the (?fin k)) ks)))"
    using ks(1,2) fin(2) by (simp only: distinct_map)
  have 3: "set (map (\<lambda>k. the (?fin k)) ks) = {(r, liveOf (hCell H) h ts) |addr r ts. idx addr = Some (r, ts)}"
    using ks(2) by (force simp: finishedIdx_def image_iff)
  show ?thesis by (rule that [OF ks(3) 1 3 2])
qed

lemma updateGeneration_run:
  assumes "ethw_law H" "genOk H h w idx" "distinct (map fst accounts)"
    and "set accounts = {(r, liveOf (hCell H) h ts) |addr r ts. idx addr = Some (r, ts)}"
    and "acctHeap w1 = acctHeap w" "trieDB w1 = trieDB w"
  obtains w2 where "updateAccounts H h (map (\<lambda>i. accounts ! i) (hSched H (length accounts))) w1 = Some w2" "sameWorld w1 w2"
    "mainTrieDB (trieDB w2) = mainTrieDB (trieDB w)"
    "nextRef (acctHeap w2) = nextRef (acctHeap w)" "\<forall>r. r \<notin> fst ` set accounts \<longrightarrow> acctAt w2 r = acctAt w r"
    "\<forall>addr r ts. idx addr = Some (r, ts) \<longrightarrow> updatedBy (hEth H) (batchOf (hCell H) h (liveOf (hCell H) h ts)) (acctAt w r) (acctAt w2 r) \<and>
       pending (hEth H) (mainTrieDB (trieDB w2)) (acctAt w2 r)"
proof -
  let ?E = "hEth H" and ?A = "hCell H" and ?sched = "map (\<lambda>i. accounts ! i) (hSched H (length accounts))"
  have "\<forall>n. mset (hSched H n) = mset [0..<n]" using assms(1) unfolding ethw_law_def by (elim conjE) assumption
  then have "mset ?sched = mset (map (\<lambda>i. accounts ! i) [0..<length accounts])" by (metis mset_map)
  then have sched: "mset ?sched = mset accounts" by (simp add: map_nth)
  then have set: "set ?sched = set accounts" by (rule mset_eq_setD)
  have "mset (map fst ?sched) = mset (map fst accounts)" using sched by (metis mset_map)
  then have dist: "distinct (map fst ?sched)" using assms(3) by (metis mset_eq_imp_distinct_iff)
  have entry: "\<exists>addr ts0. idx addr = Some (r, ts0) \<and> ts = liveOf ?A h ts0" if "(r, ts) \<in> set ?sched" for r ts
    using that unfolding set assms(4) by auto
  have "\<exists>w'. updateAccounts H h ?sched w1 = Some w' \<and> sameWorld w1 w' \<and> mainTrieDB (trieDB w') = mainTrieDB (trieDB w1) \<and>
    nextRef (acctHeap w') = nextRef (acctHeap w1) \<and>
    (\<forall>(r, ts) \<in> set ?sched. updatedBy ?E (batchOf ?A h ts) (acctAt w1 r) (acctAt w' r) \<and> pending ?E (mainTrieDB (trieDB w')) (acctAt w' r)) \<and>
    (\<forall>r. r \<notin> fst ` set ?sched \<longrightarrow> acctAt w' r = acctAt w1 r)"
  proof (rule updateAccounts_run [OF assms(1) dist])
    fix r ts
    assume "(r, ts) \<in> set ?sched"
    then obtain addr ts0 where i: "idx addr = Some (r, ts0)" "ts = liveOf ?A h ts0" using entry by blast
    show "\<forall>v \<in> set ts. pathAt ?A h v \<noteq> None \<and> typedAt ?A h v"
      using genOk_entry(3) [OF assms(2) i(1)] i(2) by (simp add: liveOf_def)
    show "pending ?E (mainTrieDB (trieDB w1)) (acctAt w1 r) \<and>
        (ts \<noteq> [] \<longrightarrow> batchOk ?E (fst (batchOf ?A h ts)) (snd (batchOf ?A h ts)) (acctAt w1 r) \<and>
          (acDirty (acctAt w1 r) \<longrightarrow> writesStorage (batchOf ?A h ts)))"
      using genOk_entry(2,4) [OF assms(2) i(1)] i(2) by (simp add: assms(5,6))
  qed
  then obtain w2 where w2: "updateAccounts H h ?sched w1 = Some w2" "sameWorld w1 w2" "mainTrieDB (trieDB w2) = mainTrieDB (trieDB w)"
    "\<forall>(r, ts) \<in> set accounts. updatedBy ?E (batchOf ?A h ts) (acctAt w r) (acctAt w2 r) \<and> pending ?E (mainTrieDB (trieDB w2)) (acctAt w2 r)"
    "nextRef (acctHeap w2) = nextRef (acctHeap w)" "\<forall>r. r \<notin> fst ` set accounts \<longrightarrow> acctAt w2 r = acctAt w r"
    unfolding set by (auto simp: assms(5,6))
  show thesis by (rule that [OF w2(1-3,5,6)]) (use w2(4) assms(4) in blast)
qed

lemma updatedBy_key:
  "updatedBy E kvs a a' \<Longrightarrow> keccak T (acAddr a') = keccak T (acAddr a)"
  by (simp add: updatedBy_addr)

lemma fold_cache:
  "inj_on f (set rs) \<Longrightarrow> r \<in> set rs \<Longrightarrow> fold (\<lambda>r m. m(f r \<mapsto> r)) rs m (f r) = Some r"
  "a \<notin> f ` set rs \<Longrightarrow> fold (\<lambda>r m. m(f r \<mapsto> r)) rs m a = m a"
proof (induction rs rule: rev_induct)
  case (snoc x xs)
  { case 1 then show ?case using snoc.IH(1) by (auto simp: inj_on_def) }
  { case 2 then show ?case using snoc.IH(2) by simp }
qed simp_all

lemma Precommit_run:
  assumes "ethw_law H" "genOk H h w (eiIndex (eswIndexer this))" "worldStateTrie w = Some t" "dbErr w = None"
  obtains w' t' this' dirty where
    "EthStorageWriter_Precommit H isSync (h, w) this = Some ((this', None), w')"
    "eswBuffer this' = eswBuffer this @
       [(eswIndexer this)\<lparr>eiIndex := finishedIdx (hCell H) h (eiIndex (eswIndexer this)), eiDirty := dirty\<rparr>]"
    "worldStateTrie w' = Some t'" "dbErr w' = None" "blockRoots w' = blockRoots w" "mainTrieDB (trieDB w') = mainTrieDB (trieDB w)"
    "\<forall>d. tBacked (eTrie (hEth H)) d t \<longrightarrow> tBacked (eTrie (hEth H)) d t'"
    "eswFilter this' = eswFilter this" "eswIndexer this' = NewEthIndexer (- 1) (eswFilter this)"
    "set dirty = {r. \<exists>addr ts. eiIndex (eswIndexer this) addr = Some (r, ts)}"
    "nextRef (acctHeap w') = nextRef (acctHeap w)" "\<forall>r. r \<notin> set dirty \<longrightarrow> acctAt w' r = acctAt w r"
    "accountCache w' = (\<lambda>addr. case eiIndex (eswIndexer this) addr of Some (r, ts) \<Rightarrow> Some r | None \<Rightarrow> accountCache w addr)"
    "\<forall>k. k \<notin> keccak (eTrie (hEth H)) ` dom (eiIndex (eswIndexer this)) \<longrightarrow>
       tLookup (eTrie (hEth H)) t' k = tLookup (eTrie (hEth H)) t k"
    "\<forall>addr r ts. eiIndex (eswIndexer this) addr = Some (r, ts) \<longrightarrow>
       updatedBy (hEth H) (batchOf (hCell H) h (liveOf (hCell H) h ts)) (acctAt w r) (acctAt w' r) \<and>
       pending (hEth H) (mainTrieDB (trieDB w')) (acctAt w' r) \<and>
       tLookup (eTrie (hEth H)) t' (keccak (eTrie (hEth H)) addr) = eStateEnc (hEth H) (acState (acctAt w' r))"
proof -
  let ?E = "hEth H" and ?A = "hCell H" and ?idx = "eiIndex (eswIndexer this)"
  have eth: "eth_law ?E" using assms(1) by (simp add: ethw_law_def)
  obtain accounts where acc: "uiValues (hIndexer H) (finishedIdx ?A h ?idx) = accounts" "distinct (map fst accounts)"
    "set accounts = {(r, liveOf ?A h ts) |addr r ts. ?idx addr = Some (r, ts)}"
    "distinct (map (\<lambda>r. keccak (eTrie ?E) (acAddr (acctAt w r))) (map fst accounts))"
    by (rule generation_accounts [OF assms(1,2)])
  let ?dirty = "map fst accounts"
  define w1 where "w1 = w\<lparr>accountCache := fold (\<lambda>r m. m(acAddr (acctAt w r) \<mapsto> r)) ?dirty (accountCache w)\<rparr>"
  obtain w2 where w2: "updateAccounts H h (map (\<lambda>i. accounts ! i) (hSched H (length accounts))) w1 = Some w2" "sameWorld w1 w2"
    "mainTrieDB (trieDB w2) = mainTrieDB (trieDB w)"
    "nextRef (acctHeap w2) = nextRef (acctHeap w)" "\<forall>r. r \<notin> fst ` set accounts \<longrightarrow> acctAt w2 r = acctAt w r"
    "\<forall>addr r ts. ?idx addr = Some (r, ts) \<longrightarrow> updatedBy ?E (batchOf ?A h (liveOf ?A h ts)) (acctAt w r) (acctAt w2 r) \<and>
       pending ?E (mainTrieDB (trieDB w2)) (acctAt w2 r)"
    by (rule updateGeneration_run [OF assms(1,2) acc(2,3), of w1]) (simp_all add: w1_def)
  have trie: "worldStateTrie w2 = Some t" "dbErr w2 = None" "blockRoots w2 = blockRoots w"
    using w2(2) assms(3,4) by (simp_all add: sameWorld_def w1_def)
  have dirty: "r \<in> set ?dirty \<longleftrightarrow> (\<exists>addr ts. ?idx addr = Some (r, ts))" for r by (force simp: acc(3))
  then have dset: "set ?dirty = {r. \<exists>addr ts. ?idx addr = Some (r, ts)}" by blast
  have "keccak (eTrie ?E) (acAddr (acctAt w2 r)) = keccak (eTrie ?E) (acAddr (acctAt w r))" if "r \<in> set ?dirty" for r
    using that dirty w2(6) updatedBy_key by metis
  then have keys: "map (\<lambda>r. keccak (eTrie ?E) (acAddr (acctAt w2 r))) ?dirty = map (\<lambda>r. keccak (eTrie ?E) (acAddr (acctAt w r))) ?dirty"
    by (rule map_cong [OF refl])
  obtain t' where t': "WriteWorldTrie ?E ?dirty w2 = Some (tHash (eTrie ?E) t', w2\<lparr>worldStateTrie := Some t'\<rparr>)"
    "tLookup (eTrie ?E) t' = overlay (map (\<lambda>r. (keccak (eTrie ?E) (acAddr (acctAt w2 r)), Account_Encode ?E (acctAt w2 r))) ?dirty) (tLookup (eTrie ?E) t)"
    "\<forall>d. tBacked (eTrie ?E) d t \<longrightarrow> tBacked (eTrie ?E) d t'"
    by (rule WriteWorldTrie_run [OF eth trie(1,2) acc(4) [folded keys]])
  have look: "tLookup (eTrie ?E) t' (keccak (eTrie ?E) addr) = eStateEnc ?E (acState (acctAt w2 r))" if i: "?idx addr = Some (r, ts)" for addr r ts
  proof -
    have "acAddr (acctAt w2 r) = addr" using w2(6) i genOk_entry(1) [OF assms(2) i] updatedBy_addr by metis
    moreover have "r \<in> set ?dirty" using i dirty by blast
    ultimately have "(keccak (eTrie ?E) addr, Account_Encode ?E (acctAt w2 r)) \<in>
        set (map (\<lambda>r. (keccak (eTrie ?E) (acAddr (acctAt w2 r)), Account_Encode ?E (acctAt w2 r))) ?dirty)" by force
    moreover have "distinct (map fst (map (\<lambda>r. (keccak (eTrie ?E) (acAddr (acctAt w2 r)), Account_Encode ?E (acctAt w2 r))) ?dirty))"
      using acc(4) [folded keys] by (simp add: comp_def)
    ultimately show ?thesis by (simp add: t'(2) overlay_def Account_Encode_def map_of_is_SomeI del: set_map)
  qed
  have idx_addr: "acAddr (acctAt w r) = addr" if "?idx addr = Some (r, ts)" for addr r ts by (rule genOk_entry(1) [OF assms(2) that])
  have inj: "inj_on (\<lambda>r. acAddr (acctAt w r)) (set ?dirty)" by (rule inj_onI) (use dirty idx_addr in force)
  have cache: "accountCache w1 addr = (case ?idx addr of Some (r, ts) \<Rightarrow> Some r | None \<Rightarrow> accountCache w addr)" for addr
  proof (cases "?idx addr")
    case None
    then have "addr \<notin> (\<lambda>r. acAddr (acctAt w r)) ` set ?dirty" using dirty idx_addr by force
    then show ?thesis using None by (simp add: w1_def fold_cache(2) del: set_map)
  next
    case (Some p)
    then obtain r ts where i: "?idx addr = Some (r, ts)" by (cases p) auto
    then show ?thesis using fold_cache(1) [OF inj, of r] dirty idx_addr [OF i] by (auto simp: w1_def)
  qed
  have other: "tLookup (eTrie ?E) t' k = tLookup (eTrie ?E) t k" if "k \<notin> keccak (eTrie ?E) ` dom ?idx" for k
  proof -
    have "k \<noteq> keccak (eTrie ?E) (acAddr (acctAt w2 r))" if "r \<in> set ?dirty" for r
    proof -
      obtain addr ts where i: "?idx addr = Some (r, ts)" using dirty \<open>r \<in> set ?dirty\<close> by blast
      then have "acAddr (acctAt w2 r) = addr" using w2(6) idx_addr updatedBy_addr by metis
      then show ?thesis using i \<open>k \<notin> keccak (eTrie ?E) ` dom ?idx\<close> by blast
    qed
    then have "map_of (map (\<lambda>r. (keccak (eTrie ?E) (acAddr (acctAt w2 r)), Account_Encode ?E (acctAt w2 r))) ?dirty) k = None"
      unfolding map_of_eq_None_iff by (auto simp del: set_map) (auto simp: image_iff)
    then show ?thesis unfolding t'(2) overlay_def by simp
  qed
  have keep: "nextRef (acctHeap w2) = nextRef (acctHeap w)" "\<forall>r. r \<notin> set ?dirty \<longrightarrow> acctAt w2 r = acctAt w r" using w2(4,5) by simp_all
  have "accountCache w2 = (\<lambda>addr. case ?idx addr of Some (r, ts) \<Rightarrow> Some r | None \<Rightarrow> accountCache w addr)"
    using w2(2) cache by (auto simp: sameWorld_def)
  note frame = keep this
  let ?writer = "this\<lparr>eswBuffer := eswBuffer this @ [(eswIndexer this)\<lparr>eiIndex := finishedIdx ?A h ?idx, eiDirty := ?dirty\<rparr>],
    eswIndexer := NewEthIndexer (-1) (eswFilter this)\<rparr>"
  have fin: "finite (dom ?idx)" using assms(2) by (simp add: genOk_def)
  have "EthStorageWriter_Precommit H isSync (h, w) this = Some ((?writer, None), w2\<lparr>worldStateTrie := Some t'\<rparr>)"
    using acc(1) w2(1) t'(1) trie(2) unfolding EthStorageWriter_Precommit_def EthIndexer_Finalize_run [OF assms(1) fin] finishedIdx_def [symmetric]
    by (simp add: w1_def)
  then show thesis
    by (rule that [of _ _ ?dirty t']) (use w2(3,6) t'(3) trie look dset frame other in simp_all)
qed

lemma EthIndexer_Merge_all:
  assumes "ethw_law H"
  shows "eiDirty (EthIndexer_Merge H gs (NewEthIndexer v f)) = concat (map eiDirty gs)"
    "gs \<noteq> [] \<Longrightarrow> (\<And>g. g \<in> set gs \<Longrightarrow> eiVersion g = n) \<Longrightarrow> eiVersion (EthIndexer_Merge H gs this) = n"
proof -
  have "concat_law (hConcate H)" using assms unfolding ethw_law_def by (elim conjE) assumption
  moreover have "concat (map eiDirty (filter (\<lambda>i. eiDirty i \<noteq> []) gs)) = concat (map eiDirty gs)" by (induction gs) auto
  ultimately show "eiDirty (EthIndexer_Merge H gs (NewEthIndexer v f)) = concat (map eiDirty gs)"
    by (simp add: EthIndexer_Merge_def concat_law_def NewEthIndexer_def)
  have max: "\<forall>xs f. xs \<noteq> [] \<longrightarrow> snd (hMaxIf H xs f) \<in> set xs \<and> (\<forall>x \<in> set xs. f x \<le> f (snd (hMaxIf H xs f)))"
    using assms unfolding ethw_law_def by (elim conjE) assumption
  show "eiVersion (EthIndexer_Merge H gs this) = n" if "gs \<noteq> []" "\<And>g. g \<in> set gs \<Longrightarrow> eiVersion g = n"
    using max [rule_format, OF that(1)] that by (simp add: EthIndexer_Merge_def)
qed

text \<open>Committing the generations of a block: every dirty account can be read back from the root of the world
  trie, which is filed under the version of the indexers.\<close>

lemma Commit_run:
  assumes "ethw_law H" "worldStateTrie w = Some t" "dbErr w = None"
    and "tBacked (eTrie (hEth H)) (mainTrieDB (trieDB w)) t" "distinct (map fst (blockRoots w))"
    and "\<forall>r \<in> set (concat (map eiDirty (eswBuffer this))). pending (hEth H) (mainTrieDB (trieDB w)) (acctAt w r)"
    and "\<forall>g \<in> set (eswBuffer this). eiVersion g = n"
  obtains w' t' where "EthStorageWriter_Commit H block w this = Some ((this\<lparr>eswBuffer := []\<rparr>, None), w')"
    "worldStateTrie w' = Some t'" "tLookup (eTrie (hEth H)) t' = tLookup (eTrie (hEth H)) t"
    "tBacked (eTrie (hEth H)) (mainTrieDB (trieDB w')) t'"
    "accountsSaved (hEth H) (set (concat (map eiDirty (eswBuffer this)))) w w'"
    "distinct (map fst (blockRoots w'))"
    "\<forall>addr shards disks. \<forall>r \<in> set (concat (map eiDirty (eswBuffer this))).
       tLookup (eTrie (hEth H)) t (keccak (eTrie (hEth H)) addr) = eStateEnc (hEth H) (acState (acctAt w r)) \<longrightarrow>
       (\<exists>snap r' w3. LoadEthTrieByRoot (eTrie (hEth H)) shards disks (mainTrieDB (trieDB w')) (GetRootHash (of_int n) w') = (Some snap, None) \<and>
          GetAccount (hEth H) addr snap = Some ((Some r', None), w3) \<and>
          acState (acctAt w3 r') = acState (acctAt w r) \<and> storageOf (hEth H) (acctAt w3 r') = storageOf (hEth H) (acctAt w r))"
proof -
  let ?E = "hEth H" and ?T = "eTrie (hEth H)" and ?dirty = "concat (map eiDirty (eswBuffer this))"
  let ?m = "EthIndexer_Merge H (eswBuffer this) (NewEthIndexer 0 None)"
  have eth: "eth_law ?E" using assms(1) by (simp add: ethw_law_def)
  have some: "{r. Some r \<in> set (map Some ?dirty)} = set ?dirty" "\<forall>r. Some r \<in> set (map Some ?dirty) \<longrightarrow> pending ?E (mainTrieDB (trieDB w)) (acctAt w r)"
    using assms(6) by auto
  obtain w' t' where per: "persistToEthStore H (of_int (eiVersion ?m)) (map Some ?dirty) w = Some (None, w')" "dbErr w' = None"
    "worldStateTrie w' = Some t'" "tLookup ?T t' = tLookup ?T t" "tBacked ?T (mainTrieDB (trieDB w')) t'"
    "accountsSaved ?E (set ?dirty) w w'"
    "GetRootHash (of_int (eiVersion ?m)) w' = tHash ?T t" "distinct (map fst (blockRoots w'))"
    "dRoots ?T (mainTrieDB (trieDB w')) (tHash ?T t) = Some (tLookup ?T t)"
    by (rule persistToEthStore_run [OF assms(1,2,4,3,5) some(2), unfolded some(1)])
  have commit: "EthStorageWriter_Commit H block w this = Some ((this\<lparr>eswBuffer := []\<rparr>, None), w')"
    by (simp add: EthStorageWriter_Commit_def EthIndexer_Merge_all(1) [OF assms(1)] per(1,2) Let_def)
  have root: "GetRootHash (of_int n) w' = tHash ?T t" if r: "r \<in> set ?dirty" for r
  proof -
    have "eswBuffer this \<noteq> []" using r by auto
    then have "eiVersion ?m = n" using assms(7) by (intro EthIndexer_Merge_all(2) [OF assms(1)]) auto
    then show ?thesis using per(7) by simp
  qed
  have "\<exists>snap r' w3. LoadEthTrieByRoot ?T shards disks (mainTrieDB (trieDB w')) (GetRootHash (of_int n) w') = (Some snap, None) \<and>
      GetAccount ?E addr snap = Some ((Some r', None), w3) \<and>
      acState (acctAt w3 r') = acState (acctAt w r) \<and> storageOf ?E (acctAt w3 r') = storageOf ?E (acctAt w r)"
    if r: "r \<in> set ?dirty" "tLookup ?T t (keccak ?T addr) = eStateEnc ?E (acState (acctAt w r))" for addr shards disks r
    unfolding root [OF r(1)] by (rule snapshot_account [OF eth per(9) r(2) accountsSaved_root [OF per(6) r(1)]]) auto
  then show ?thesis by (intro that [OF commit per(3-6,8)]) blast
qed

text \<open>
  C4. A block reaches the database: after one generation has been precommitted and committed, both
  without error, the root recorded for it (under the version of the indexer, not under the block
  number) opens a snapshot in which every account of the generation is found, with the state and
  the storage its live transitions have given it. The writes go in any order of the accounts.
\<close>
theorem EthStorageWriter_block_persists:
  assumes "ethw_law H" "genOk H h w (eiIndex (eswIndexer this))" "worldStateTrie w = Some t"
    and "tBacked (eTrie (hEth H)) (mainTrieDB (trieDB w)) t" "dbErr w = None" "distinct (map fst (blockRoots w))"
    and "eswBuffer this = []"
  shows "\<exists>this1 w1 this2 w2. EthStorageWriter_Precommit H isSync (h, w) this = Some ((this1, None), w1) \<and>
    EthStorageWriter_Commit H block w1 this1 = Some ((this2, None), w2) \<and>
    (\<forall>addr r ts. eiIndex (eswIndexer this) addr = Some (r, ts) \<longrightarrow>
      (\<exists>snap r' w3. LoadEthTrieByRoot (eTrie (hEth H)) shards disks (mainTrieDB (trieDB w2))
            (GetRootHash (of_int (eiVersion (eswIndexer this))) w2) = (Some snap, None) \<and>
          GetAccount (hEth H) addr snap = Some ((Some r', None), w3) \<and>
          acState (acctAt w3 r') = acState (acctAt w1 r) \<and> storageOf (hEth H) (acctAt w3 r') = storageOf (hEth H) (acctAt w1 r) \<and>
          updatedBy (hEth H) (batchOf (hCell H) h (liveOf (hCell H) h ts)) (acctAt w r) (acctAt w1 r)))"
proof -
  let ?E = "hEth H" and ?T = "eTrie (hEth H)" and ?idx = "eiIndex (eswIndexer this)"
  have eth: "eth_law ?E" using assms(1) by (simp add: ethw_law_def)
  obtain w1 t' this1 dirty where pre:
    "EthStorageWriter_Precommit H isSync (h, w) this = Some ((this1, None), w1)"
    "eswBuffer this1 = eswBuffer this @ [(eswIndexer this)\<lparr>eiIndex := finishedIdx (hCell H) h ?idx, eiDirty := dirty\<rparr>]"
    "worldStateTrie w1 = Some t'" "dbErr w1 = None" "blockRoots w1 = blockRoots w" "mainTrieDB (trieDB w1) = mainTrieDB (trieDB w)"
    "\<forall>d. tBacked ?T d t \<longrightarrow> tBacked ?T d t'" "set dirty = {r. \<exists>addr ts. ?idx addr = Some (r, ts)}"
    "\<forall>addr r ts. ?idx addr = Some (r, ts) \<longrightarrow> updatedBy ?E (batchOf (hCell H) h (liveOf (hCell H) h ts)) (acctAt w r) (acctAt w1 r) \<and>
       pending ?E (mainTrieDB (trieDB w1)) (acctAt w1 r) \<and> tLookup ?T t' (keccak ?T addr) = eStateEnc ?E (acState (acctAt w1 r))"
    by (rule Precommit_run [OF assms(1-3,5)])
  let ?g = "(eswIndexer this)\<lparr>eiIndex := finishedIdx (hCell H) h ?idx, eiDirty := dirty\<rparr>"
  have ok: "tBacked ?T (mainTrieDB (trieDB w1)) t'" "distinct (map fst (blockRoots w1))"
    "\<forall>r \<in> set (eiDirty ?g). pending ?E (mainTrieDB (trieDB w1)) (acctAt w1 r)" "eswBuffer this1 = [?g]"
    using pre(2,5-9) assms(4,6,7) by auto
  have all: "concat (map eiDirty (eswBuffer this1)) = dirty" using ok(4) by simp
  have dirty: "\<forall>r \<in> set (concat (map eiDirty (eswBuffer this1))). pending ?E (mainTrieDB (trieDB w1)) (acctAt w1 r)"
    "\<forall>g \<in> set (eswBuffer this1). eiVersion g = eiVersion (eswIndexer this)" using ok(3,4) by simp_all
  obtain w2 where commit: "EthStorageWriter_Commit H block w1 this1 = Some ((this1\<lparr>eswBuffer := []\<rparr>, None), w2)"
    "\<forall>addr shards disks. \<forall>r \<in> set dirty. tLookup ?T t' (keccak ?T addr) = eStateEnc ?E (acState (acctAt w1 r)) \<longrightarrow>
       (\<exists>snap r' w3. LoadEthTrieByRoot ?T shards disks (mainTrieDB (trieDB w2)) (GetRootHash (of_int (eiVersion (eswIndexer this))) w2) = (Some snap, None) \<and>
          GetAccount ?E addr snap = Some ((Some r', None), w3) \<and>
          acState (acctAt w3 r') = acState (acctAt w1 r) \<and> storageOf ?E (acctAt w3 r') = storageOf ?E (acctAt w1 r))"
    by (rule Commit_run [OF assms(1) pre(3,4) ok(1,2) dirty, of block]) (simp only: all)
  have snap: "\<exists>snap r' w3. LoadEthTrieByRoot ?T shards disks (mainTrieDB (trieDB w2)) (GetRootHash (of_int (eiVersion (eswIndexer this))) w2) =
        (Some snap, None) \<and> GetAccount ?E addr snap = Some ((Some r', None), w3) \<and>
      acState (acctAt w3 r') = acState (acctAt w1 r) \<and> storageOf ?E (acctAt w3 r') = storageOf ?E (acctAt w1 r) \<and>
      updatedBy ?E (batchOf (hCell H) h (liveOf (hCell H) h ts)) (acctAt w r) (acctAt w1 r)"
    if "?idx addr = Some (r, ts)" for addr r ts
  proof -
    have "r \<in> set dirty" using that pre(8) by auto
    then show ?thesis using commit(2) pre(9) that by blast
  qed
  show ?thesis
    by (rule exI [of _ this1], rule exI [of _ w1], rule exI [of _ "this1\<lparr>eswBuffer := []\<rparr>"], rule exI [of _ w2],
        intro conjI allI impI, rule pre(1), rule commit(1), rule snap)
qed

section \<open>Importing\<close>

text \<open>The account cache refers to accounts by their own address.\<close>

definition cacheOk :: "('t, 'd, 'b) EthWorldState \<Rightarrow> bool" where
  "cacheOk w \<longleftrightarrow> (\<forall>addr r. accountCache w addr = Some r \<longrightarrow> r < nextRef (acctHeap w) \<and> acAddr (acctAt w r) = addr)"

text \<open>A step that at most allocates accounts.\<close>

definition heapGrows :: "('t, 'd, 'b) EthWorldState \<Rightarrow> ('t, 'd, 'b) EthWorldState \<Rightarrow> bool" where
  "heapGrows w w' \<longleftrightarrow> nextRef (acctHeap w) \<le> nextRef (acctHeap w') \<and> (\<forall>r < nextRef (acctHeap w). acctAt w' r = acctAt w r) \<and>
     sameWorld w w' \<and> trieDB w' = trieDB w"

lemma heapGrows_refl [simp]: "heapGrows w w"
  by (simp add: heapGrows_def sameWorld_def)

lemma heapGrows_trans: "heapGrows w w' \<Longrightarrow> heapGrows w' w'' \<Longrightarrow> heapGrows w w''"
  by (auto simp: heapGrows_def sameWorld_def)

lemma heapGrows_alloc:
  "alloc a (acctHeap w) = (r, hp) \<Longrightarrow> heapGrows w (w\<lparr>acctHeap := hp\<rparr>) \<and> r < nextRef hp \<and> cellAt hp r = a"
  by (auto simp: alloc_def heapGrows_def sameWorld_def)

lemma cacheOk_grows: "cacheOk w \<Longrightarrow> heapGrows w w' \<Longrightarrow> cacheOk w'"
  by (force simp: cacheOk_def heapGrows_def sameWorld_def)

lemma GetAccount_run:
  assumes "cacheOk w" "worldStateTrie w = Some t"
  obtains r e w' where "GetAccount E addr w = Some ((r, e), w')" "heapGrows w w'"
    "\<forall>r'. r = Some r' \<longrightarrow> r' < nextRef (acctHeap w') \<and> acAddr (acctAt w' r') = addr"
proof -
  have "\<exists>r e w'. GetAccount E addr w = Some ((r, e), w') \<and> heapGrows w w' \<and>
      (\<forall>r'. r = Some r' \<longrightarrow> r' < nextRef (acctHeap w') \<and> acAddr (acctAt w' r') = addr)"
    using assms
    by (auto simp: GetAccount_def cacheOk_def Let_def alloc_def heapGrows_def sameWorld_def
        split: option.split sum.split prod.split)
  then show thesis using that by blast
qed

lemma Preload_run:
  assumes "cacheOk w" "worldStateTrie w = Some t"
  obtains r w' where "EthWorldState_Preload E addr w = Some (r, w')" "heapGrows w w'" "r < nextRef (acctHeap w')"
    "acAddr (acctAt w' r) = toAddress (eTrie E) addr"
proof -
  obtain r e w1 where g: "GetAccount E (toAddress (eTrie E) addr) w = Some ((r, e), w1)" "heapGrows w w1"
    "\<forall>r'. r = Some r' \<longrightarrow> r' < nextRef (acctHeap w1) \<and> acAddr (acctAt w1 r') = toAddress (eTrie E) addr"
    by (rule GetAccount_run [OF assms])
  show ?thesis
  proof (cases r)
    case (Some r')
    then show ?thesis using g by (intro that [of r' w1]) (simp_all add: EthWorldState_Preload_def)
  next
    case None
    let ?a = "NewAccountWithSharedCache E (toAddress (eTrie E) addr) (EmptyAccountState E) (trieDB w1)"
    obtain r' hp where al: "alloc ?a (acctHeap w1) = (r', hp)" by fastforce
    have "acAddr ?a = toAddress (eTrie E) addr" by (simp add: NewAccountWithSharedCache_def split: prod.split)
    then show ?thesis using None g al heapGrows_alloc [OF al]
      by (intro that [of r' "w1\<lparr>acctHeap := hp\<rparr>"]) (auto simp: EthWorldState_Preload_def intro: heapGrows_trans)
  qed
qed

text \<open>The address a transition belongs to.\<close>

definition addrOf :: "('c, 'v, 't, 'n, 'd, 'b) ethw_lib \<Rightarrow> 'c heap \<Rightarrow> ref \<Rightarrow> bytes option" where
  "addrOf H h v = map_option (\<lambda>p. toAddress (eTrie (hEth H)) (fst (hexDecode (eTrie (hEth H)) (GetAccountAddr p)))) (pathAt (hCell H) h v)"

text \<open>An index that holds, for every address, one account of that address and the transitions in order.\<close>

definition groupedBy :: "('c, 'v, 't, 'n, 'd, 'b) ethw_lib \<Rightarrow> 'c heap \<Rightarrow> ('t, 'd, 'b) EthWorldState \<Rightarrow> ref list \<Rightarrow> (bytes \<rightharpoonup> ref \<times> ref list) \<Rightarrow> bool" where
  "groupedBy H h w ts idx \<longleftrightarrow> (\<forall>addr. map_option snd (idx addr) = groupBy (addrOf H h) ts addr \<and>
     (\<forall>r g. idx addr = Some (r, g) \<longrightarrow> r < nextRef (acctHeap w) \<and> acAddr (acctAt w r) = addr))"

lemma groupedBy_grows: "groupedBy H h w ts idx \<Longrightarrow> heapGrows w w' \<Longrightarrow> groupedBy H h w' ts idx"
  by (force simp: groupedBy_def heapGrows_def)

lemma groupedBy_step:
  assumes "groupedBy H h w ts idx" "addrOf H h v = Some addr"
    and "map_option snd (Some (r, g)) = Some (case groupBy (addrOf H h) ts addr of None \<Rightarrow> [v] | Some g \<Rightarrow> g @ [v])"
    and "r < nextRef (acctHeap w)" "acAddr (acctAt w r) = addr"
  shows "groupedBy H h w (ts @ [v]) (idx(addr \<mapsto> (r, g)))"
  using assms by (auto simp: groupedBy_def groupBy_snoc)

text \<open>An account that was loaded or created while importing.\<close>

definition preloaded :: "('v, 't, 'n, 'd, 'b) eth_lib \<Rightarrow> ('t, 'd, 'b) EthWorldState \<Rightarrow> ('t, 'd, 'b) EthWorldState \<Rightarrow> bytes \<Rightarrow> ref \<Rightarrow> bool" where
  "preloaded E w w' addr r \<longleftrightarrow> (\<exists>u u'. heapGrows w u \<and> EthWorldState_Preload E addr u = Some (r, u') \<and> heapGrows u' w')"

lemma preloaded_trans:
  "preloaded E w' w'' addr r \<Longrightarrow> heapGrows w w' \<Longrightarrow> preloaded E w w'' addr r"
  "preloaded E w w' addr r \<Longrightarrow> heapGrows w' w'' \<Longrightarrow> preloaded E w w'' addr r"
  unfolding preloaded_def using heapGrows_trans by blast+

lemma import_step:
  assumes "eth_law (hEth H)" "groupedBy H h w ts0 idx" "cacheOk w" "worldStateTrie w = Some t" "pathAt (hCell H) h v \<noteq> None"
  obtains idx1 w1 where "importSpec (addrKey H) (acctInit H) acctExtend (v # ts) (idx, (h, w)) =
      importSpec (addrKey H) (acctInit H) acctExtend ts (idx1, (h, w1))"
    "groupedBy H h w1 (ts0 @ [v]) idx1" "heapGrows w w1"
    "\<forall>a r g. idx1 a = Some (r, g) \<longrightarrow> (\<exists>g0. idx a = Some (r, g0)) \<or> preloaded (hEth H) w w1 a r"
proof -
  obtain a where a: "addrOf H h v = Some a" "addrKey H (h, w) v = Some (a, True)"
    "toAddress (eTrie (hEth H)) a = a"
  proof -
    obtain p where p: "pathAt (hCell H) h v = Some p" using assms(5) by blast
    have "hexutil_law (eTrie (hEth H))" using assms(1) by (simp add: eth_law_def)
    then have "toAddress (eTrie (hEth H)) (toAddress (eTrie (hEth H)) x) = toAddress (eTrie (hEth H)) x" for x
      by (simp add: hexutil_law_def)
    then show thesis using p by (intro that) (simp_all add: addrOf_def addrKey_def Let_def)
  qed
  show ?thesis
  proof (cases "idx a")
    case None
    obtain r w1 where pre: "EthWorldState_Preload (hEth H) a w = Some (r, w1)" "heapGrows w w1" "r < nextRef (acctHeap w1)"
      "acAddr (acctAt w1 r) = a" using Preload_run [OF assms(3,4)] a(3) by metis
    have "groupBy (addrOf H h) ts0 a = None" using assms(2) None unfolding groupedBy_def by (metis option.map_disc_iff)
    then have "groupedBy H h w1 (ts0 @ [v]) (idx(a \<mapsto> (r, [v])))"
      using pre by (intro groupedBy_step [OF groupedBy_grows [OF assms(2) pre(2)] a(1)]) simp_all
    moreover have "preloaded (hEth H) w w1 a r" using pre(1) unfolding preloaded_def by (meson heapGrows_refl)
    ultimately show ?thesis using pre a None by (intro that [of "idx(a \<mapsto> (r, [v]))" w1]) (simp_all add: acctInit_def)
  next
    case (Some rg)
    obtain r g where rg: "rg = (r, g)" by fastforce
    have "groupBy (addrOf H h) ts0 a = Some g" using assms(2) Some rg unfolding groupedBy_def by (metis option.simps(9) snd_conv)
    moreover have "r < nextRef (acctHeap w)" "acAddr (acctAt w r) = a" using assms(2) Some rg unfolding groupedBy_def by blast+
    ultimately have "groupedBy H h w (ts0 @ [v]) (idx(a \<mapsto> (r, g @ [v])))"
      by (intro groupedBy_step [OF assms(2) a(1)]) simp_all
    then show ?thesis using a Some rg by (intro that [of "idx(a \<mapsto> (r, g @ [v]))" w]) (simp_all add: acctExtend_def)
  qed
qed

lemma import_groups:
  assumes "eth_law (hEth H)" "groupedBy H h w ts0 idx" "cacheOk w" "worldStateTrie w = Some t"
    and "\<forall>v \<in> set ts. pathAt (hCell H) h v \<noteq> None"
  shows "\<exists>idx' w'. importSpec (addrKey H) (acctInit H) acctExtend ts (idx, (h, w)) = Some (idx', (h, w')) \<and>
    groupedBy H h w' (ts0 @ ts) idx' \<and> heapGrows w w' \<and> cacheOk w' \<and>
    (\<forall>a r g. idx' a = Some (r, g) \<longrightarrow> (\<exists>g0. idx a = Some (r, g0)) \<or> preloaded (hEth H) w w' a r)"
  using assms(2-)
proof (induction ts arbitrary: ts0 idx w)
  case Nil
  then show ?case by auto
next
  case (Cons v ts)
  obtain idx1 w1 where 1: "importSpec (addrKey H) (acctInit H) acctExtend (v # ts) (idx, (h, w)) =
      importSpec (addrKey H) (acctInit H) acctExtend ts (idx1, (h, w1))"
    "groupedBy H h w1 (ts0 @ [v]) idx1" "heapGrows w w1"
    "\<forall>a r g. idx1 a = Some (r, g) \<longrightarrow> (\<exists>g0. idx a = Some (r, g0)) \<or> preloaded (hEth H) w w1 a r"
    using import_step [OF assms(1) Cons.prems(1-3)] Cons.prems(4) by (metis list.set_intros(1))
  have "worldStateTrie w1 = Some t" using 1(3) Cons.prems(3) by (simp add: heapGrows_def sameWorld_def)
  then obtain idx' w' where "importSpec (addrKey H) (acctInit H) acctExtend ts (idx1, (h, w1)) = Some (idx', (h, w'))"
    "groupedBy H h w' ((ts0 @ [v]) @ ts) idx'" "heapGrows w1 w'" "cacheOk w'"
    "\<forall>a r g. idx' a = Some (r, g) \<longrightarrow> (\<exists>g0. idx1 a = Some (r, g0)) \<or> preloaded (hEth H) w1 w' a r"
    using Cons.IH [OF 1(2) cacheOk_grows [OF Cons.prems(2) 1(3)]] Cons.prems(4) by auto
  moreover from this have "(\<exists>g0. idx a = Some (r, g0)) \<or> preloaded (hEth H) w w' a r" if "idx' a = Some (r, g)" for a r g
    using 1(3,4) preloaded_trans that by meson
  ultimately show ?case using 1(1) heapGrows_trans [OF 1(3)] by (intro exI [of _ idx'] exI [of _ w']) simp
qed

text \<open>
  C17. Importing groups by account: from a grouped index and a sound account cache, the transitions the
  filter selects are appended to the entry of their account in the order of the import, an
  account that is not known yet is loaded or created under its address, no account that exists
  is changed, and the cache stays sound.
\<close>
theorem EthIndexer_Import_groups:
  assumes "ethw_law H" "groupedBy H h' w ts0 (eiIndex this)" "cacheOk w" "worldStateTrie w = Some t"
    and "lsiImportLoop (hCell H) (eiFilter this) ts ([], h) = Some (sel, h')" "\<forall>v \<in> set sel. pathAt (hCell H) h' v \<noteq> None"
  shows "\<exists>idx' w'. EthIndexer_Import H ts (h, w) this = Some (this\<lparr>eiIndex := idx'\<rparr>, (h', w')) \<and>
    groupedBy H h' w' (ts0 @ sel) idx' \<and> heapGrows w w' \<and> cacheOk w'"
proof -
  have eth: "eth_law (hEth H)" and idx: "indexer_law (hIndexer H)" using assms(1) by (simp_all add: ethw_law_def)
  show ?thesis
    using import_groups [OF eth assms(2-4,6)] assms(5) by (auto simp: EthIndexer_Import_def indexer_law_import [OF idx])
qed

text \<open>\<open>ApplyChanges\<close> panics as soon as the \<open>i\<close>-th account group has no \<open>i\<close>-th transition, for instance on
  two groups of one transition each.\<close>

lemma ApplyChanges_panics:
  assumes "i < length transitions" "length (transitions ! i) \<le> i"
  shows "ApplyChanges H h getter transitions w = None"
proof -
  let ?f = "\<lambda>(i, vals). if i < length vals then pathAt (hCell H) h (vals ! i) else None"
  have "(i, transitions ! i) \<in> set (enumerate 0 transitions)"
    using assms(1) by (auto simp: in_set_conv_nth nth_enumerate_eq)
  then have "those (map ?f (enumerate 0 transitions)) = None" by (rule those_None) (use assms(2) in simp)
  then show ?thesis by (simp add: ApplyChanges_def)
qed

text \<open>
  C35. An account that was read from the world trie has no backend: a storage update of it succeeds, and
  then committing it panics.
\<close>
theorem loaded_account_commit_panics:
  assumes "eth_law E" "accountCache w addr = None" "GetAccount E addr w = Some ((Some r, None), w')"
    and "batchOk E keys vals (acctAt w' r)" "updParts (zip keys vals) = (n, b, c, rest)" "rest \<noteq> []"
  shows "\<exists>a db. UpdateAccountStorageTrie E keys vals (acctAt w' r, trieDB w') = Some (None, (a, db)) \<and>
    Account_Commit E block (a, db) = None"
proof -
  have law: "trie_law (eTrie E)" using assms(1) by (simp add: eth_law_def)
  have "\<not> acBackend (acctAt w' r)"
    using assms(2,3) by (auto simp: GetAccount_def Let_def alloc_def split: option.splits if_splits sum.splits prod.splits bind_splits)
  moreover obtain t where "acTrie (acctAt w' r) = Some t" using assms(4) by (auto simp: batchOk_def)
  then obtain t' where "UpdateAccountStorageTrie E keys vals (acctAt w' r, trieDB w') =
      Some (None, (updatedAccount E n b c rest t' (acctAt w' r), putCode E c (trieDB w')))"
    using UpdateAccountStorageTrie_run [OF assms(1,4,5)] by metis
  moreover have "snd (snd (tCommit (eTrie E) t')) = None" for t' by (rule trie_law_commit [OF law])
  ultimately show ?thesis using assms(6) by (simp add: Account_Commit_def)
qed

section \<open>A concrete library\<close>

text \<open>Cells that hold a value of the codec; SYSTEM transitions skip the conflict check. The goroutines run in reverse order.\<close>

record 'v vcell =
  vcPath :: "string option"
  vcTx :: u64
  vcValue :: "'v option"

definition val_api :: "('v vcell, 'v) cell_api" where
  "val_api = \<lparr>GetPath = vcPath, SetPath = (\<lambda>p. vcPath_update (\<lambda>_. p)), GetTx = vcTx, Value = vcValue,
     SetValue = (\<lambda>v. vcValue_update (\<lambda>_. v)), IfSkipConflictCheck = (\<lambda>c. vcTx c = SYSTEM), IsBlockBound = (\<lambda>_. False),
     ApplyDelta = (\<lambda>c cs. (c, None)), isCRDT = (\<lambda>_. True), Preload = (\<lambda>_ v. v),
     RemoveIf = (\<lambda>P xs. (map snd (filter (\<lambda>(i, x). \<not> P i x) (enumerate 0 xs)), xs))\<rparr>"

lemma val_api_sel [simp]: "GetPath val_api = vcPath" "Value val_api = vcValue" "typedAt val_api h v"
  by (simp_all add: val_api_def typedAt_def split: option.split)

lemma val_api_law: "cell_law val_api"
  by (simp add: cell_law_def val_api_def filter_enumerate)

definition fin_ethw :: "(wval vcell, wval, ftrie, unit, bytes list, bytes \<rightharpoonup> bytes) ethw_lib" where
  "fin_ethw = \<lparr>hEth = fin_eth, hCell = val_api, hIndexer = keyOrderIndexer,
     hKVs = (\<lambda>h rs. Some (map (\<lambda>r. the (vcPath (cellAt h r))) rs, map (\<lambda>r. vcValue (cellAt h r)) rs)),
     hSched = (\<lambda>n. rev [0..<n]), hGroups = map snd, hConcate = (\<lambda>xs _ g. concat (map g xs)),
     hMaxIf = (\<lambda>xs f. (0, arg_min_list (\<lambda>x. - f x) xs)), hMin = (\<lambda>xs. (0, Min (set xs)))\<rparr>"

lemma fin_ethw_sel [simp]: "hEth fin_ethw = fin_eth" "hCell fin_ethw = val_api"
  by (simp_all add: fin_ethw_def)

lemma fin_ethw_law: "ethw_law fin_ethw"
proof -
  have "f x \<le> f (arg_min_list (\<lambda>x. - f x) xs)" if "x \<in> set xs" for x xs and f :: "wval vcell EthIndexer \<Rightarrow> int"
  proof -
    have "- f (arg_min_list (\<lambda>x. - f x) xs) = Min ((\<lambda>x. - f x) ` set xs)" using that by (intro f_arg_min_list_f) auto
    also have "\<dots> \<le> - f x" using that by simp
    finally show ?thesis by simp
  qed
  then show ?thesis
    unfolding ethw_law_def
    by (simp add: fin_eth_law val_api_law) (simp add: fin_ethw_def keyOrderIndexer_law concat_law_def arg_min_list_in)
qed

text \<open>A world with one account, and the two transitions of the sample batch.\<close>

definition zeroAddr :: bytes where
  "zeroAddr = replicate 20 0"

definition oneAccount :: "(ftrie, bytes list, bytes \<rightharpoonup> bytes) EthWorldState" where
  "oneAccount = (NewParallelEthMemDataStore fin_lib [] (\<lambda>_. Map.empty))
     \<lparr>acctHeap := \<lparr>cellAt = (\<lambda>_. freshAccount), nextRef = 1\<rparr>\<rparr>"

definition twoCells :: "wval vcell heap" where
  "twoCells = \<lparr>cellAt = (\<lambda>r. if r = 2 then \<lparr>vcPath = Some nonceKey, vcTx = SYSTEM, vcValue = Some nonce7\<rparr>
     else \<lparr>vcPath = Some slotKey, vcTx = SYSTEM, vcValue = Some bytes9\<rparr>), nextRef = 4\<rparr>"

definition oneGeneration :: "wval vcell EthStorageWriter" where
  "oneGeneration = \<lparr>eswIndexer = \<lparr>eiFilter = None, eiVersion = - 1, eiIndex = [zeroAddr \<mapsto> (0, [2, 3])], eiDirty = []\<rparr>,
     eswBuffer = [], eswFilter = None\<rparr>"

lemma fresh_pending: "pending fin_eth d freshAccount" "\<not> acDirty freshAccount" "acAddr freshAccount = zeroAddr"
  by (simp_all add: pending_def freshAccount_def EmptyAccountState_def zeroAddr_def fun_eq_iff)

lemma two_batch:
  "liveOf val_api twoCells [2, 3] = [2, 3]"
  "batchOf val_api twoCells [2, 3] = ([nonceKey, slotKey], [Some nonce7, Some bytes9])"
  by (simp_all add: liveOf_def batchOf_def twoCells_def)

lemma oneGeneration_ok: "genOk fin_ethw twoCells oneAccount (eiIndex (eswIndexer oneGeneration))"
  by (simp add: genOk_def oneGeneration_def oneAccount_def NewParallelEthMemDataStore_def NewEthDataStore_def
      fresh_pending two_batch sample_ok)

theorem EthStorageWriter_block_persists_witness:
  "\<exists>this1 w1 this2 w2. EthStorageWriter_Precommit fin_ethw True (twoCells, oneAccount) oneGeneration = Some ((this1, None), w1) \<and>
    EthStorageWriter_Commit fin_ethw 12 w1 this1 = Some ((this2, None), w2) \<and>
    (\<exists>snap r' w3. LoadEthTrieByRoot fin_lib [] (\<lambda>_. Map.empty) (mainTrieDB (trieDB w2)) (GetRootHash (- 1) w2) = (Some snap, None) \<and>
       GetAccount fin_eth zeroAddr snap = Some ((Some r', None), w3) \<and> storageOf fin_eth (acctAt w3 r') slot5 = [0, 9])"
proof -
  have start: "worldStateTrie oneAccount = Some fmempty" "dbErr oneAccount = None" "distinct (map fst (blockRoots oneAccount))"
    "eswBuffer oneGeneration = []" "acctAt oneAccount 0 = freshAccount"
    by (simp_all add: oneAccount_def NewParallelEthMemDataStore_def NewEthDataStore_def oneGeneration_def)
  have idx: "eiIndex (eswIndexer oneGeneration) zeroAddr = Some (0, [2, 3])" "eiVersion (eswIndexer oneGeneration) = - 1"
    by (simp_all add: oneGeneration_def)
  have upd: "storageOf fin_eth a slot5 = [0, 9]" if "updatedBy fin_eth ([nonceKey, slotKey], [Some nonce7, Some bytes9]) freshAccount a" for a
    using that sample_parts(1) by (auto simp: updatedBy_def sample_slots overlay_def)
  have backed: "tBacked (eTrie (hEth fin_ethw)) (mainTrieDB (trieDB oneAccount)) fmempty" by simp
  from EthStorageWriter_block_persists [OF fin_ethw_law oneGeneration_ok start(1) backed start(2-4), of True 12 "[]" "\<lambda>_. Map.empty"]
  obtain this1 w1 this2 w2 where run: "EthStorageWriter_Precommit fin_ethw True (twoCells, oneAccount) oneGeneration = Some ((this1, None), w1)"
    "EthStorageWriter_Commit fin_ethw 12 w1 this1 = Some ((this2, None), w2)"
    and all: "\<forall>addr r ts. eiIndex (eswIndexer oneGeneration) addr = Some (r, ts) \<longrightarrow>
      (\<exists>snap r' w3. LoadEthTrieByRoot fin_lib [] (\<lambda>_. Map.empty) (mainTrieDB (trieDB w2)) (GetRootHash (of_int (- 1)) w2) = (Some snap, None) \<and>
        GetAccount fin_eth addr snap = Some ((Some r', None), w3) \<and> acState (acctAt w3 r') = acState (acctAt w1 r) \<and>
        storageOf fin_eth (acctAt w3 r') = storageOf fin_eth (acctAt w1 r) \<and>
        updatedBy fin_eth (batchOf val_api twoCells (liveOf val_api twoCells ts)) (acctAt oneAccount r) (acctAt w1 r))"
    unfolding idx(2) fin_ethw_sel fin_eth_sel(1) by blast
  show ?thesis
    using run all [rule_format, OF idx(1)] unfolding two_batch start(5) by (auto simp: upd)
qed

theorem EthIndexer_Import_groups_witness:
  "\<exists>idx' w'. EthIndexer_Import fin_ethw [2, 3] (twoCells, oneAccount) (NewEthIndexer (- 1) (Some (\<lambda>r h. Some (True, h)))) =
      Some ((NewEthIndexer (- 1) (Some (\<lambda>r h. Some (True, h))))\<lparr>eiIndex := idx'\<rparr>, (twoCells, w')) \<and>
    groupedBy fin_ethw twoCells w' ([] @ [2, 3]) idx' \<and> heapGrows oneAccount w' \<and> cacheOk w'"
proof (rule EthIndexer_Import_groups [OF fin_ethw_law, where t = fmempty])
  show "groupedBy fin_ethw twoCells oneAccount [] (eiIndex (NewEthIndexer (- 1) (Some (\<lambda>r h. Some (True, h)))))"
    by (simp add: groupedBy_def NewEthIndexer_def)
  show "cacheOk oneAccount" "worldStateTrie oneAccount = Some fmempty"
    by (simp_all add: cacheOk_def oneAccount_def NewParallelEthMemDataStore_def NewEthDataStore_def)
  show "lsiImportLoop (hCell fin_ethw) (eiFilter (NewEthIndexer (- 1) (Some (\<lambda>r h. Some (True, h))))) [2, 3] ([], twoCells) =
      Some ([2, 3], twoCells)"
    by (simp add: NewEthIndexer_def twoCells_def)
  show "\<forall>v \<in> set [2, 3]. pathAt (hCell fin_ethw) twoCells v \<noteq> None" by (simp add: twoCells_def)
qed

text \<open>A world whose trie has an account that no cache knows.\<close>

definition storedAccount :: "(ftrie, bytes list, bytes \<rightharpoonup> bytes) EthWorldState" where
  "storedAccount = NewEthDataStore
     (Some (fmupd (keccak fin_lib zeroAddr) (eStateEnc fin_eth (EmptyAccountState fin_eth)) fmempty)) freshDB"

theorem loaded_account_commit_panics_witness:
  "\<exists>w' a db. GetAccount fin_eth zeroAddr storedAccount = Some ((Some 0, None), w') \<and>
    UpdateAccountStorageTrie fin_eth [nonceKey, slotKey] [Some nonce7, Some bytes9] (acctAt w' 0, trieDB w') = Some (None, (a, db)) \<and>
    Account_Commit fin_eth 1 (a, db) = None"
proof -
  have enc: "eStateEnc fin_eth s \<noteq> []" "eStateDec fin_eth (eStateEnc fin_eth s) = Inr s" for s
    using fin_eth_law unfolding eth_law_def by blast+
  have cache: "accountCache storedAccount zeroAddr = None" by (simp add: storedAccount_def NewEthDataStore_def)
  have "\<exists>w'. GetAccount fin_eth zeroAddr storedAccount = Some ((Some 0, None), w') \<and> acTrie (acctAt w' 0) \<noteq> None"
    by (simp add: GetAccount_def storedAccount_def NewEthDataStore_def fLookup_def enc alloc_def EmptyAccountState_def NewEthShardTrieMemDB_def)
  then obtain w' where w': "GetAccount fin_eth zeroAddr storedAccount = Some ((Some 0, None), w')" "acTrie (acctAt w' 0) \<noteq> None" by blast
  have "batchOk fin_eth [nonceKey, slotKey] [Some nonce7, Some bytes9] (acctAt w' 0)"
    using w'(2) sample_ok(1) unfolding batchOk_def sample_parts by simp
  from loaded_account_commit_panics [OF fin_eth_law cache w'(1) this sample_parts(1), of 1] w'(1) show ?thesis by blast
qed

end
