(* ===== verification/EthEngine.thy ===== *)
theory EthEngine
  imports Blocks EthWorldProps
begin

text \<open>
  The Ethereum writer under the committer. Between blocks the world state is settled on a set of
  addresses: those of them that are cached have been committed and agree with the world trie, the
  others are not in the trie. A new store is settled on all addresses, a store that is opened at a root
  on those the trie does not hold; a block that stays within the set leaves the world settled on it.
  Accounts outside of it would be loaded from the trie, and such accounts have no backend and cannot
  be committed. Within a block every generation updates the cached accounts and the world trie; their storage
  reaches the database at the commit, unless a later generation updates fields of the account only. The
  writer object is the writer together with the world state that it alone changes.
\<close>

section \<open>The writer behind the interface\<close>

definition ethOps ::
  "('c, 'v, 't, 'n, 'd, 'b) ethw_lib \<Rightarrow> ('c EthStorageWriter \<times> ('t, 'd, 'b) EthWorldState, 'c) StoreWriter" where
  "ethOps H =
     \<lparr>wImport = (\<lambda>ts h (e, w). map_option (\<lambda>(e', (h', w')). ((e', w'), h')) (EthStorageWriter_Import H ts (h, w) e)),
      wPrecommit = (\<lambda>isSync h (e, w). map_option (\<lambda>((e', r), w'). ((e', w'), r)) (EthStorageWriter_Precommit H isSync (h, w) e)),
      wCommit = (\<lambda>block h (e, w). map_option (\<lambda>((e', r), w'). ((e', w'), r)) (EthStorageWriter_Commit H block w e)),
      wIsSync = (\<lambda>(e, w). EthStorageWriter_IsSync e), wIsEth = (\<lambda>_. True), wIsExec = (\<lambda>_. False)\<rparr>"

section \<open>Accounts and batches of a block\<close>

definition pathAddr :: "('t, 'n, 'd, 'b) trie_lib \<Rightarrow> string \<Rightarrow> bytes" where
  "pathAddr T p = toAddress T (fst (hexDecode T (GetAccountAddr p)))"

lemma addrOf_pathAddr: "addrOf H h v = map_option (pathAddr (eTrie (hEth H))) (pathAt (hCell H) h v)"
  by (simp add: addrOf_def pathAddr_def [abs_def])

text \<open>The accounts that a block touches, and the paths of an account that it changes.\<close>

definition touched :: "('c, 'v, 't, 'n, 'd, 'b) ethw_lib \<Rightarrow> ('c \<Rightarrow> bool) \<Rightarrow> 'c heap \<Rightarrow> ref list \<Rightarrow> bytes set" where
  "touched H acc h ts = {addr. \<exists>r \<in> set ts. acc (cellAt h r) \<and> addrOf H h r = Some addr}"

definition changedPaths ::
  "('c, 'v, 't, 'n, 'd, 'b) ethw_lib \<Rightarrow> ('c \<Rightarrow> bool) \<Rightarrow> 'c heap \<Rightarrow> u64 list \<Rightarrow> ref list \<Rightarrow> bytes \<Rightarrow> string set" where
  "changedPaths H acc h txs ts addr =
     {p. pathAddr (eTrie (hEth H)) p = addr \<and> committedCell (hCell H) acc h txs ts p \<noteq> None}"

text \<open>The batch of an account, in the order \<open>ps\<close> of its paths.\<close>

definition blockBatch ::
  "('c, 'v, 't, 'n, 'd, 'b) ethw_lib \<Rightarrow> ('c \<Rightarrow> bool) \<Rightarrow> 'c heap \<Rightarrow> u64 list \<Rightarrow> ref list \<Rightarrow> string list \<Rightarrow>
   string list \<times> 'v option list" where
  "blockBatch H acc h txs ts ps =
     (ps, map (\<lambda>p. Value (hCell H) (the (committedCell (hCell H) acc h txs ts p))) ps)"

text \<open>The account before the block: the cached one, or a new one.\<close>

definition acctBefore ::
  "('v, 't, 'n, 'd, 'b) eth_lib \<Rightarrow> ('t, 'd, 'b) EthWorldState \<Rightarrow> bytes \<Rightarrow> 't Account" where
  "acctBefore E w addr =
     (case accountCache w addr of
        Some r \<Rightarrow> acctAt w r
      | None \<Rightarrow> NewAccountWithSharedCache E addr (EmptyAccountState E) (trieDB w))"

lemma new_account_pending:
  assumes "eth_law E"
  shows "pending E (mainTrieDB db) (NewAccountWithSharedCache E addr (EmptyAccountState E) db)"
    "\<not> acDirty (NewAccountWithSharedCache E addr (EmptyAccountState E) db)"
    "acAddr (NewAccountWithSharedCache E addr (EmptyAccountState E) db) = addr"
proof -
  have law: "trie_law (eTrie E)" using assms by (simp add: eth_law_def)
  note root = trie_law_empty(1) [OF law, of "mainTrieDB db"]
  obtain t where t: "tNew (eTrie E) (emptyRoot (eTrie E)) (mainTrieDB db) = (Some t, None)" "tLookup (eTrie E) t = (\<lambda>_. [])"
    "tHash (eTrie E) t = emptyRoot (eTrie E)" "tBacked (eTrie E) (mainTrieDB db) t"
    by (rule trie_law_open [OF law root])
  show "pending E (mainTrieDB db) (NewAccountWithSharedCache E addr (EmptyAccountState E) db)"
    "\<not> acDirty (NewAccountWithSharedCache E addr (EmptyAccountState E) db)"
    "acAddr (NewAccountWithSharedCache E addr (EmptyAccountState E) db) = addr"
    using t root by (simp_all add: NewAccountWithSharedCache_def LoadTrie_def EmptyAccountState_def pending_def)
qed

text \<open>An account that the import of a block has loaded is the account before the block, if the trie does
  not hold it.\<close>

lemma preloaded_account:
  assumes "eth_law E" "cacheOk w" "worldStateTrie w = Some t" "toAddress (eTrie E) addr = addr"
    and "accountCache w addr = None \<Longrightarrow> tLookup (eTrie E) t (keccak (eTrie E) addr) = []" "preloaded E w w' addr r"
  shows "acctAt w' r = acctBefore E w addr"
proof -
  have law: "trie_law (eTrie E)" using assms(1) by (simp add: eth_law_def)
  obtain u u' where u: "heapGrows w u" "EthWorldState_Preload E addr u = Some (r, u')" "heapGrows u' w'"
    using assms(6) unfolding preloaded_def by blast
  have same: "accountCache u = accountCache w" "worldStateTrie u = Some t" "trieDB u = trieDB w"
    using u(1) assms(3) by (auto simp: heapGrows_def sameWorld_def)
  show ?thesis
  proof (cases "accountCache w addr")
    case None
    let ?a = "NewAccountWithSharedCache E addr (EmptyAccountState E) (trieDB w)"
    obtain q hp where al: "alloc ?a (acctHeap u) = (q, hp)" by fastforce
    have "GetAccount E addr u = Some ((None, None), u)"
      using None assms(5) same by (simp add: GetAccount_def trie_law_get [OF law])
    then have "r = q" "u' = u\<lparr>acctHeap := hp\<rparr>"
      using u(2) same(3) al by (simp_all add: EthWorldState_Preload_def assms(4))
    moreover have "q < nextRef hp" "cellAt hp q = ?a" using heapGrows_alloc [OF al] by simp_all
    ultimately show ?thesis using u(3) None by (simp add: acctBefore_def heapGrows_def)
  next
    case (Some q)
    have "GetAccount E addr u = Some ((Some q, None), u)" using Some same(1) by (simp add: GetAccount_def)
    then have "r = q" "u' = u" using u(2) by (simp_all add: EthWorldState_Preload_def assms(4))
    moreover have "q < nextRef (acctHeap w)" using assms(2) Some by (auto simp: cacheOk_def)
    ultimately show ?thesis using u(1,3) Some by (simp add: acctBefore_def heapGrows_def)
  qed
qed

lemma preloaded_cached:
  assumes "toAddress (eTrie E) addr = addr" "accountCache w addr = Some q" "preloaded E w w' addr r"
  shows "r = q"
proof -
  obtain u u' where u: "heapGrows w u" "EthWorldState_Preload E addr u = Some (r, u')"
    using assms(3) unfolding preloaded_def by blast
  then have "accountCache u addr = Some q" using assms(2) by (simp add: heapGrows_def sameWorld_def)
  then show ?thesis using u(2) by (simp add: EthWorldState_Preload_def GetAccount_def assms(1))
qed

text \<open>In a finalized heap the live transitions of an account are one for every path it changes, with the
  merged value.\<close>

lemma headCell_ref:
  assumes "finalized A h txs ts h'" "headCell A acc h txs ts p = Some r"
  shows "r \<in> set ts" "acc (cellAt h r)" "pathAt A h r = Some p" "pathAt A h' r = Some p"
    "valueAt A h' r = Value A (the (committedCell A acc h txs ts p))" "committedCell A acc h txs ts p \<noteq> None"
proof -
  have fin: "\<forall>p. filter (\<lambda>r. pathAt A h' r = Some p) ts = (let g = survivors A h txs ts p in
       if g = [] then [] else [hd (sortSeq A h g)])"
    "\<forall>p. survivors A h txs ts p \<noteq> [] \<longrightarrow>
       cellAt h' (hd (sortSeq A h (survivors A h txs ts p))) = fst (mergedCell A h (survivors A h txs ts p))"
    using assms(1) by (simp_all add: finalized_def)
  have g: "survivors A h txs ts p \<noteq> []" "r = hd (sortSeq A h (survivors A h txs ts p))" "acc (cellAt h r)"
    using assms(2) by (auto simp: headCell_def Let_def split: if_splits)
  have "r \<in> set (survivors A h txs ts p)" using g(1,2) sortSeq_ne hd_in_set set_sortSeq by metis
  then show "r \<in> set ts" "pathAt A h r = Some p" by (auto simp: survivors_def)
  show "pathAt A h' r = Some p" "valueAt A h' r = Value A (the (committedCell A acc h txs ts p))" "acc (cellAt h r)"
    "committedCell A acc h txs ts p \<noteq> None"
    using headCell_facts [OF assms(2) fin] g(3) assms(2) by (simp_all add: committedCell_def)
qed

lemma live_headCell:
  assumes "finalized A h txs ts h'" "r \<in> set ts" "acc (cellAt h r)" "pathAt A h' r = Some p"
  shows "headCell A acc h txs ts p = Some r"
proof -
  have "r \<in> set (filter (\<lambda>r. pathAt A h' r = Some p) ts)" using assms(2,4) by simp
  moreover have "filter (\<lambda>r. pathAt A h' r = Some p) ts = (let g = survivors A h txs ts p in
       if g = [] then [] else [hd (sortSeq A h g)])" using assms(1) by (simp add: finalized_def)
  ultimately show ?thesis using assms(3) by (auto simp: headCell_def Let_def split: if_splits)
qed

lemma group_batch:
  fixes acc addr
  assumes "finalized (hCell H) h txs ts h'" "distinct ts"
  defines "g \<equiv> filter (\<lambda>r. addrOf H h r = Some addr) (filter (\<lambda>r. acc (cellAt h r)) ts)"
  obtains ps where "batchOf (hCell H) h' (liveOf (hCell H) h' g) = blockBatch H acc h txs ts ps" "distinct ps"
    "set ps = changedPaths H acc h txs ts addr" "ps = [] \<longleftrightarrow> liveOf (hCell H) h' g = []"
proof -
  let ?A = "hCell H" and ?l = "liveOf (hCell H) h' g"
  define ps where "ps = map (\<lambda>r. the (pathAt ?A h' r)) ?l"
  have live: "\<exists>p. pathAt ?A h' r = Some p \<and> headCell ?A acc h txs ts p = Some r \<and> pathAddr (eTrie (hEth H)) p = addr"
    if l: "r \<in> set ?l" for r
  proof -
    obtain p where p: "pathAt ?A h' r = Some p" "r \<in> set ts" "acc (cellAt h r)" "addrOf H h r = Some addr"
      using l by (auto simp: liveOf_def g_def)
    note hc = live_headCell [where acc = acc, OF assms(1) p(2,3,1)]
    show ?thesis using headCell_ref(3) [OF assms(1) hc] p hc by (auto simp: addrOf_pathAddr)
  qed
  have vals: "map (valueAt ?A h') ?l = map (\<lambda>p. Value ?A (the (committedCell ?A acc h txs ts p))) ps"
    unfolding ps_def map_map by (rule map_cong) (use live headCell_ref(5) [OF assms(1)] in fastforce)+
  have inj: "inj_on (\<lambda>r. the (pathAt ?A h' r)) (set ?l)"
    by (rule inj_onI) (metis live option.inject option.sel)
  have "distinct ?l" using assms(2) by (simp add: liveOf_def g_def)
  then have d: "distinct ps" using inj by (simp add: ps_def distinct_map)
  have "p \<in> set ps" if p: "pathAddr (eTrie (hEth H)) p = addr" "committedCell ?A acc h txs ts p \<noteq> None" for p
  proof -
    obtain r where r: "headCell ?A acc h txs ts p = Some r" using p(2) by (auto simp: committedCell_def split: if_splits)
    note ref = headCell_ref [OF assms(1) r]
    have "r \<in> set ?l" using ref p(1) by (simp add: liveOf_def g_def addrOf_pathAddr)
    then show ?thesis using ref(4) by (force simp: ps_def)
  qed
  moreover have "p \<in> changedPaths H acc h txs ts addr" if "p \<in> set ps" for p
    using that live headCell_ref(6) [OF assms(1)] by (fastforce simp: ps_def changedPaths_def)
  ultimately have "set ps = changedPaths H acc h txs ts addr" by (auto simp: changedPaths_def)
  then show thesis using d vals by (intro that [of ps]) (simp_all add: batchOf_def blockBatch_def ps_def)
qed

section \<open>The contract\<close>

text \<open>What a batch has to satisfy for every account: the fields have values of their types, the other paths
  have slots of their own and values that can be encoded.\<close>

definition batchFit :: "('v, 't, 'n, 'd, 'b) eth_lib \<Rightarrow> string list \<times> 'v option list \<Rightarrow> bool" where
  "batchFit E kvs \<longleftrightarrow>
     (case updParts (zip (fst kvs) (snd kvs)) of (n, b, c, rest) \<Rightarrow>
        fieldOk (eU64 E) n \<and> fieldOk (eU256 E) b \<and> fieldOk (eBytes E) c \<and> storable E rest)"

text \<open>The world is settled on the addresses \<open>D\<close>, except that the accounts \<open>R\<close> may have storage that is not yet
  committed.\<close>

definition settled ::
  "('c, 'v, 't, 'n, 'd, 'b) ethw_lib \<Rightarrow> bytes set \<Rightarrow> ref set \<Rightarrow> ('t, 'd, 'b) EthWorldState \<Rightarrow> bool" where
  "settled H D R w \<longleftrightarrow>
     dbErr w = None \<and> distinct (map fst (blockRoots w)) \<and> inj_on (keccak (eTrie (hEth H))) D \<and>
     (\<exists>t. worldStateTrie w = Some t \<and> tBacked (eTrie (hEth H)) (mainTrieDB (trieDB w)) t \<and>
        (\<forall>addr \<in> D. tLookup (eTrie (hEth H)) t (keccak (eTrie (hEth H)) addr) =
           (case accountCache w addr of None \<Rightarrow> [] | Some r \<Rightarrow> eStateEnc (hEth H) (acState (acctAt w r))))) \<and>
     (\<forall>addr r. accountCache w addr = Some r \<longrightarrow>
        addr \<in> D \<and> r < nextRef (acctHeap w) \<and> acAddr (acctAt w r) = addr \<and>
        pending (hEth H) (mainTrieDB (trieDB w)) (acctAt w r) \<and> (r \<in> R \<or> \<not> acDirty (acctAt w r)))"

lemma settledI:
  assumes "worldStateTrie w = Some t" "dbErr w = None" "distinct (map fst (blockRoots w))" "inj_on (keccak (eTrie (hEth H))) D"
    and "tBacked (eTrie (hEth H)) (mainTrieDB (trieDB w)) t"
    and "\<And>addr. addr \<in> D \<Longrightarrow> tLookup (eTrie (hEth H)) t (keccak (eTrie (hEth H)) addr) =
       (case accountCache w addr of None \<Rightarrow> [] | Some r \<Rightarrow> eStateEnc (hEth H) (acState (acctAt w r)))"
    and "\<And>addr r. accountCache w addr = Some r \<Longrightarrow> addr \<in> D \<and> r < nextRef (acctHeap w) \<and> acAddr (acctAt w r) = addr \<and>
       pending (hEth H) (mainTrieDB (trieDB w)) (acctAt w r) \<and> (r \<in> R \<or> \<not> acDirty (acctAt w r))"
  shows "settled H D R w"
  unfolding settled_def using assms(1-6) by (intro conjI allI impI assms(7)) auto

lemma settled_trie:
  assumes "settled H D R w"
  obtains t where "worldStateTrie w = Some t" "dbErr w = None" "distinct (map fst (blockRoots w))" "inj_on (keccak (eTrie (hEth H))) D"
    "tBacked (eTrie (hEth H)) (mainTrieDB (trieDB w)) t"
    "\<forall>addr \<in> D. tLookup (eTrie (hEth H)) t (keccak (eTrie (hEth H)) addr) =
       (case accountCache w addr of None \<Rightarrow> [] | Some r \<Rightarrow> eStateEnc (hEth H) (acState (acctAt w r)))"
  using assms unfolding settled_def by blast

lemma settled_entry:
  "settled H D R w \<Longrightarrow> accountCache w addr = Some r \<Longrightarrow> addr \<in> D \<and> r < nextRef (acctHeap w) \<and> acAddr (acctAt w r) = addr \<and>
     pending (hEth H) (mainTrieDB (trieDB w)) (acctAt w r) \<and> (r \<in> R \<or> \<not> acDirty (acctAt w r))"
  unfolding settled_def by blast

lemma settled_cacheOk: "settled H D R w \<Longrightarrow> cacheOk w"
  by (auto simp: settled_def cacheOk_def)

lemma settled_new:
  assumes "eth_law (hEth H)" "inj_on (keccak (eTrie (hEth H))) D"
  shows "settled H D {} (NewParallelEthMemDataStore (eTrie (hEth H)) db disks)"
proof -
  have "trie_law (eTrie (hEth H))" using assms(1) by (simp add: eth_law_def)
  note empty = trie_law_empty(2,3) [OF this]
  show ?thesis using assms(2)
    by (simp add: settled_def NewParallelEthMemDataStore_def NewEthDataStore_def Let_def empty)
qed

lemma settled_opened:
  assumes "eth_law (hEth H)" "inj_on (keccak (eTrie (hEth H))) D" "dRoots (eTrie (hEth H)) d root = Some c"
    and "\<And>addr. addr \<in> D \<Longrightarrow> c (keccak (eTrie (hEth H)) addr) = []"
  obtains w where "LoadEthTrieByRoot (eTrie (hEth H)) shards disks d root = (Some w, None)" "settled H D {} w"
proof -
  have "trie_law (eTrie (hEth H))" using assms(1) by (simp add: eth_law_def)
  then obtain t where "tNew (eTrie (hEth H)) root d = (Some t, None)" "tLookup (eTrie (hEth H)) t = c" "tBacked (eTrie (hEth H)) d t"
    using trie_law_open [OF _ assms(3)] by metis
  then show thesis using assms(2,4) by (intro that) (auto simp: LoadEthTrieByRoot_def settled_def NewEthDataStore_def)
qed

lemma settled_grows:
  assumes "settled H D R w" "heapGrows w w'"
  shows "settled H D R w'"
proof -
  have g: "accountCache w' = accountCache w" "worldStateTrie w' = worldStateTrie w" "dbErr w' = dbErr w"
    "blockRoots w' = blockRoots w" "trieDB w' = trieDB w" "nextRef (acctHeap w) \<le> nextRef (acctHeap w')"
    "\<And>r. r < nextRef (acctHeap w) \<Longrightarrow> acctAt w' r = acctAt w r"
    using assms(2) by (simp_all add: heapGrows_def sameWorld_def)
  have same: "acctAt w' r = acctAt w r" if "accountCache w addr = Some r" for addr r
    using settled_entry [OF assms(1) that] g(7) by blast
  obtain t where t: "worldStateTrie w = Some t" "dbErr w = None" "distinct (map fst (blockRoots w))" "inj_on (keccak (eTrie (hEth H))) D"
    "tBacked (eTrie (hEth H)) (mainTrieDB (trieDB w)) t"
    "\<forall>addr \<in> D. tLookup (eTrie (hEth H)) t (keccak (eTrie (hEth H)) addr) =
       (case accountCache w addr of None \<Rightarrow> [] | Some r \<Rightarrow> eStateEnc (hEth H) (acState (acctAt w r)))"
    by (rule settled_trie [OF assms(1)])
  show ?thesis
  proof (rule settledI [of _ t])
    show "tLookup (eTrie (hEth H)) t (keccak (eTrie (hEth H)) addr) =
       (case accountCache w' addr of None \<Rightarrow> [] | Some r \<Rightarrow> eStateEnc (hEth H) (acState (acctAt w' r)))" if "addr \<in> D" for addr
      using t(6) that same by (simp add: g(1) split: option.splits)
    show "addr \<in> D \<and> r < nextRef (acctHeap w') \<and> acAddr (acctAt w' r) = addr \<and>
       pending (hEth H) (mainTrieDB (trieDB w')) (acctAt w' r) \<and> (r \<in> R \<or> \<not> acDirty (acctAt w' r))"
      if "accountCache w' addr = Some r" for addr r
      using that settled_entry [OF assms(1), of addr r] same [of addr r] g(6) by (simp add: g(1,5))
  qed (use t g in simp_all)
qed

text \<open>Committing the accounts \<open>R\<close> settles the world.\<close>

lemma settled_saved:
  assumes "settled H D R w" "accountsSaved (hEth H) R w w'" "worldStateTrie w = Some t" "worldStateTrie w' = Some t'"
    and "tLookup (eTrie (hEth H)) t' = tLookup (eTrie (hEth H)) t" "tBacked (eTrie (hEth H)) (mainTrieDB (trieDB w')) t'"
    and "distinct (map fst (blockRoots w'))"
  shows "settled H D {} w'"
proof -
  note sv = accountsSaved_at [OF assms(2)]
  have s: "accountCache w' = accountCache w" "dbErr w' = dbErr w" "nextRef (acctHeap w') = nextRef (acctHeap w)"
    using assms(2) by (simp_all add: accountsSaved_def)
  have "\<not> acDirty (acctAt w' r)" if "r \<in> R \<or> \<not> acDirty (acctAt w r)" for r using that sv(5,7) [of r] by blast
  then show ?thesis using assms(1,3-7) sv(6) unfolding settled_def s sv(1,2) by (simp add: assms(3-5))
qed

section \<open>The generations of a block\<close>

text \<open>What a generation does to an account.\<close>

definition genTouched :: "('c, 'v, 't, 'n, 'd, 'b) ethw_lib \<Rightarrow> ('c \<Rightarrow> bool) \<Rightarrow> 'c generation \<Rightarrow> bytes set" where
  "genTouched H acc g = touched H acc (genHeap g) (genTrans g)"

definition genBatch ::
  "('c, 'v, 't, 'n, 'd, 'b) ethw_lib \<Rightarrow> ('c \<Rightarrow> bool) \<Rightarrow> 'c generation \<Rightarrow> bytes \<Rightarrow> string list \<times> 'v option list \<Rightarrow> bool" where
  "genBatch H acc g addr kvs \<longleftrightarrow> (\<exists>ps. distinct ps \<and> set ps = changedPaths H acc (genHeap g) (genTxs g) (genTrans g) addr \<and>
     kvs = blockBatch H acc (genHeap g) (genTxs g) (genTrans g) ps)"

definition genStores :: "('c, 'v, 't, 'n, 'd, 'b) ethw_lib \<Rightarrow> ('c \<Rightarrow> bool) \<Rightarrow> 'c generation \<Rightarrow> bytes \<Rightarrow> bool" where
  "genStores H acc g addr \<longleftrightarrow> (\<exists>kvs. genBatch H acc g addr kvs \<and> writesStorage kvs)"

text \<open>The account after several generations.\<close>

fun updatedThrough ::
  "('c, 'v, 't, 'n, 'd, 'b) ethw_lib \<Rightarrow> ('c \<Rightarrow> bool) \<Rightarrow> 'c generation list \<Rightarrow> bytes \<Rightarrow> 't Account \<Rightarrow> 't Account \<Rightarrow> bool" where
  "updatedThrough H acc [] addr a a' = (a' = a)"
| "updatedThrough H acc (g # gs) addr a a' =
     (\<exists>b kvs. genBatch H acc g addr kvs \<and> updatedBy (hEth H) kvs a b \<and> updatedThrough H acc gs addr b a')"

lemma updatedThrough_snoc:
  "updatedThrough H acc gs addr a b \<Longrightarrow> genBatch H acc g addr kvs \<Longrightarrow> updatedBy (hEth H) kvs b c \<Longrightarrow>
   updatedThrough H acc (gs @ [g]) addr a c"
proof (induction gs arbitrary: a)
  case Nil
  then show ?case by (simp del: split_paired_Ex) blast
next
  case (Cons g' gs)
  then show ?case by (simp del: split_paired_Ex) blast
qed

lemma untouched_changed: "addr \<notin> touched H acc h ts \<Longrightarrow> changedPaths H acc h txs ts addr = {}"
proof -
  assume n: "addr \<notin> touched H acc h ts"
  have "pathAddr (eTrie (hEth H)) p \<noteq> addr" if "committedCell (hCell H) acc h txs ts p \<noteq> None" for p
  proof -
    let ?s = "survivors (hCell H) h txs ts p" and ?r = "hd (sortSeq (hCell H) h (survivors (hCell H) h txs ts p))"
    have s: "?s \<noteq> []" "acc (cellAt h ?r)"
      using that by (auto simp: committedCell_def headCell_def Let_def split: if_splits)
    then have "?r \<in> set ?s" by (metis sortSeq_ne hd_in_set set_sortSeq)
    then have "?r \<in> set ts" "pathAt (hCell H) h ?r = Some p" by (simp_all add: survivors_def)
    then show ?thesis using n s(2) by (auto simp: touched_def addrOf_pathAddr)
  qed
  then show ?thesis unfolding changedPaths_def by blast
qed

lemma untouched_batch: "addr \<notin> genTouched H acc g \<Longrightarrow> genBatch H acc g addr ([], [])"
  by (simp add: genBatch_def genTouched_def untouched_changed blockBatch_def)

lemma updatedBy_nothing: "updatedBy E ([], []) a a"
  by (simp add: updatedBy_def)

lemma untouched_through: "(\<And>g. g \<in> set gs \<Longrightarrow> addr \<notin> genTouched H acc g) \<Longrightarrow> updatedThrough H acc gs addr a a"
proof (induction gs)
  case (Cons g gs)
  then have "genBatch H acc g addr ([], [])" "updatedThrough H acc gs addr a a" by (simp_all add: untouched_batch)
  then show ?case using updatedBy_nothing [of "hEth H" a] by (simp del: split_paired_Ex) blast
qed simp

definition touchedIn :: "('c, 'v, 't, 'n, 'd, 'b) ethw_lib \<Rightarrow> ('c \<Rightarrow> bool) \<Rightarrow> 'c generation list \<Rightarrow> bytes set" where
  "touchedIn H acc gs = (\<Union>g \<in> set gs. genTouched H acc g)"

section \<open>A block in progress\<close>

definition ethFresh ::
  "('c, 'v, 't, 'n, 'd, 'b) ethw_lib \<Rightarrow> ('c \<Rightarrow> bool) \<Rightarrow> bytes set \<Rightarrow> 'c EthStorageWriter \<times> ('t, 'd, 'b) EthWorldState \<Rightarrow> bool" where
  "ethFresh H acc D x \<longleftrightarrow> (case x of (e, w) \<Rightarrow>
     ethw_law H \<and> (\<exists>f. eiFilter (eswIndexer e) = Some f \<and> eswFilter e = Some f \<and> filt_law (hCell H) acc f) \<and>
     eiIndex (eswIndexer e) = Map.empty \<and> eiVersion (eswIndexer e) = - 1 \<and> eswBuffer e = [] \<and> settled H D {} w)"

text \<open>The accounts that the generations of the buffer have written.\<close>

definition dirtyIn :: "'c EthStorageWriter \<Rightarrow> ref set" where
  "dirtyIn e = set (concat (map eiDirty (eswBuffer e)))"

text \<open>After some generations the cache holds the updated accounts, and nothing else has changed; accounts are
  dirty only if one of the generations has written to their storage.\<close>

definition ethStaged ::
  "('c, 'v, 't, 'n, 'd, 'b) ethw_lib \<Rightarrow> ('c \<Rightarrow> bool) \<Rightarrow> bytes set \<Rightarrow> 'c generation list \<Rightarrow>
   'c EthStorageWriter \<times> ('t, 'd, 'b) EthWorldState \<Rightarrow> 'c EthStorageWriter \<times> ('t, 'd, 'b) EthWorldState \<Rightarrow> bool" where
  "ethStaged H acc D gs x x' \<longleftrightarrow> ethFresh H acc D x \<and> (case x' of (e, w) \<Rightarrow>
     (\<exists>f. eiFilter (eswIndexer e) = Some f \<and> eswFilter e = Some f \<and> filt_law (hCell H) acc f) \<and>
     eiIndex (eswIndexer e) = Map.empty \<and> eiVersion (eswIndexer e) = - 1 \<and> (\<forall>g \<in> set (eswBuffer e). eiVersion g = - 1) \<and>
     mainTrieDB (trieDB w) = mainTrieDB (trieDB (snd x)) \<and> settled H D (dirtyIn e) w \<and>
     (\<forall>r \<in> dirtyIn e. \<exists>addr. accountCache w addr = Some r) \<and>
     (\<forall>addr r. accountCache w addr = Some r \<and> acDirty (acctAt w r) \<longrightarrow> (\<exists>g \<in> set gs. genStores H acc g addr)) \<and>
     (\<forall>addr \<in> touchedIn H acc gs. \<exists>r \<in> dirtyIn e. accountCache w addr = Some r \<and>
        updatedThrough H acc gs addr (acctBefore (hEth H) (snd x) addr) (acctAt w r)) \<and>
     (\<forall>addr. addr \<notin> touchedIn H acc gs \<longrightarrow> accountCache w addr = accountCache (snd x) addr \<and>
        (\<forall>r. accountCache (snd x) addr = Some r \<longrightarrow> acctAt w r = acctAt (snd x) r)))"

lemma ethStaged_start: "ethFresh H acc D x \<Longrightarrow> ethStaged H acc D [] x x"
  by (cases x) (auto simp: ethStaged_def ethFresh_def dirtyIn_def touchedIn_def settled_def)

lemma ethStagedD:
  assumes "ethStaged H acc D gs x (e, w)"
  shows "ethFresh H acc D x" "ethw_law H"
    "\<exists>f. eiFilter (eswIndexer e) = Some f \<and> eswFilter e = Some f \<and> filt_law (hCell H) acc f"
    "eiIndex (eswIndexer e) = Map.empty" "eiVersion (eswIndexer e) = - 1" "\<forall>g \<in> set (eswBuffer e). eiVersion g = - 1"
    "mainTrieDB (trieDB w) = mainTrieDB (trieDB (snd x))" "settled H D (dirtyIn e) w"
    "\<forall>r \<in> dirtyIn e. \<exists>addr. accountCache w addr = Some r"
    "\<forall>addr r. accountCache w addr = Some r \<and> acDirty (acctAt w r) \<longrightarrow> (\<exists>g \<in> set gs. genStores H acc g addr)"
    "\<forall>addr \<in> touchedIn H acc gs. \<exists>r \<in> dirtyIn e. accountCache w addr = Some r \<and>
        updatedThrough H acc gs addr (acctBefore (hEth H) (snd x) addr) (acctAt w r)"
    "\<forall>addr. addr \<notin> touchedIn H acc gs \<longrightarrow> accountCache w addr = accountCache (snd x) addr \<and>
        (\<forall>r. accountCache (snd x) addr = Some r \<longrightarrow> acctAt w r = acctAt (snd x) r)"
  using assms by (simp_all add: ethStaged_def ethFresh_def split: prod.splits)

lemma ethStagedI:
  assumes "ethFresh H acc D x" "\<exists>f. eiFilter (eswIndexer e) = Some f \<and> eswFilter e = Some f \<and> filt_law (hCell H) acc f"
    and "eiIndex (eswIndexer e) = Map.empty" "eiVersion (eswIndexer e) = - 1" "\<forall>g \<in> set (eswBuffer e). eiVersion g = - 1"
    and "mainTrieDB (trieDB w) = mainTrieDB (trieDB (snd x))" "settled H D (dirtyIn e) w"
    and "\<forall>r \<in> dirtyIn e. \<exists>addr. accountCache w addr = Some r"
    and "\<And>addr r. accountCache w addr = Some r \<Longrightarrow> acDirty (acctAt w r) \<Longrightarrow> \<exists>g \<in> set gs. genStores H acc g addr"
    and "\<And>addr. addr \<in> touchedIn H acc gs \<Longrightarrow> \<exists>r \<in> dirtyIn e. accountCache w addr = Some r \<and>
        updatedThrough H acc gs addr (acctBefore (hEth H) (snd x) addr) (acctAt w r)"
    and "\<And>addr. addr \<notin> touchedIn H acc gs \<Longrightarrow> accountCache w addr = accountCache (snd x) addr"
    and "\<And>addr r. addr \<notin> touchedIn H acc gs \<Longrightarrow> accountCache (snd x) addr = Some r \<Longrightarrow> acctAt w r = acctAt (snd x) r"
  shows "ethStaged H acc D gs x (e, w)"
  unfolding ethStaged_def prod.case using assms(1-8) by (intro conjI allI ballI impI) (simp, (blast intro: assms(9-12))+)

lemma ethStaged_grows:
  assumes "ethStaged H acc D gs x (e, w)" "heapGrows w w'"
  shows "ethStaged H acc D gs x (e, w')"
proof -
  note st = ethStagedD [OF assms(1)]
  have g: "accountCache w' = accountCache w" "trieDB w' = trieDB w" "\<And>r. r < nextRef (acctHeap w) \<Longrightarrow> acctAt w' r = acctAt w r"
    using assms(2) by (simp_all add: heapGrows_def sameWorld_def)
  have same: "acctAt w' r = acctAt w r" if "accountCache w addr = Some r" for addr r
    using settled_entry [OF st(8) that] g(3) by blast
  show ?thesis
  proof (rule ethStagedI [OF st(1,3-6)])
    show "mainTrieDB (trieDB w') = mainTrieDB (trieDB (snd x))" "\<forall>r \<in> dirtyIn e. \<exists>addr. accountCache w' addr = Some r"
      "settled H D (dirtyIn e) w'" using st(7,9) settled_grows [OF st(8) assms(2)] by (simp_all add: g(1,2))
    show "\<exists>r \<in> dirtyIn e. accountCache w' addr = Some r \<and>
      updatedThrough H acc gs addr (acctBefore (hEth H) (snd x) addr) (acctAt w' r)" if "addr \<in> touchedIn H acc gs" for addr
      using st(11) that same unfolding g(1) by metis
    show "accountCache w' addr = accountCache (snd x) addr" "accountCache (snd x) addr = Some r \<Longrightarrow> acctAt w' r = acctAt (snd x) r"
      if "addr \<notin> touchedIn H acc gs" for addr r using st(12) that same unfolding g(1) by metis+
    show "\<exists>g \<in> set gs. genStores H acc g addr" if "accountCache w' addr = Some r" "acDirty (acctAt w' r)" for addr r
      using st(10) that same unfolding g(1) by metis
  qed
qed

definition ethImported ::
  "('c, 'v, 't, 'n, 'd, 'b) ethw_lib \<Rightarrow> ('c \<Rightarrow> bool) \<Rightarrow> 'c heap \<Rightarrow> ref list \<Rightarrow>
   'c EthStorageWriter \<times> ('t, 'd, 'b) EthWorldState \<Rightarrow> 'c EthStorageWriter \<times> ('t, 'd, 'b) EthWorldState \<Rightarrow> bool" where
  "ethImported H acc h ts x x' \<longleftrightarrow> (\<exists>idx.
     fst x' = (fst x)\<lparr>eswIndexer := (eswIndexer (fst x))\<lparr>eiIndex := idx\<rparr>\<rparr> \<and>
     groupedBy H h (snd x') (filter (\<lambda>r. acc (cellAt h r)) ts) idx \<and> heapGrows (snd x) (snd x') \<and>
     (\<forall>addr r g. idx addr = Some (r, g) \<longrightarrow> preloaded (hEth H) (snd x) (snd x') addr r))"

text \<open>A generation stays within \<open>D\<close>, its batches fit, and a batch without storage entries does not go to an account
  whose storage an earlier generation of the block has written: the commit would lose that.\<close>

definition ethAdmissible ::
  "('c, 'v, 't, 'n, 'd, 'b) ethw_lib \<Rightarrow> ('c \<Rightarrow> bool) \<Rightarrow> bytes set \<Rightarrow> 'c generation list \<Rightarrow> 'c heap \<Rightarrow> u64 list \<Rightarrow> ref list \<Rightarrow> bool" where
  "ethAdmissible H acc D gs h txs ts \<longleftrightarrow> touched H acc h ts \<subseteq> D \<and>
     (\<forall>addr \<in> touched H acc h ts. \<forall>ps. ps \<noteq> [] \<and> distinct ps \<and> set ps = changedPaths H acc h txs ts addr \<longrightarrow>
        batchFit (hEth H) (blockBatch H acc h txs ts ps) \<and>
        (writesStorage (blockBatch H acc h txs ts ps) \<or> (\<forall>g \<in> set gs. \<not> genStores H acc g addr)))"

text \<open>After the commit every touched account is cached, is what it was before, updated with the merged
  values of the paths that the generations changed, one generation after the other, and is found with its storage in
  the world that the root of the block opens; the other cached accounts are as before. The root is filed under the
  version of the writer's indexers, which is always -1.\<close>

definition ethOutcome ::
  "('c, 'v, 't, 'n, 'd, 'b) ethw_lib \<Rightarrow> ('c \<Rightarrow> bool) \<Rightarrow> 'c generation list \<Rightarrow>
   'c EthStorageWriter \<times> ('t, 'd, 'b) EthWorldState \<Rightarrow> err \<Rightarrow> 'c EthStorageWriter \<times> ('t, 'd, 'b) EthWorldState \<Rightarrow> bool" where
  "ethOutcome H acc gs x err x' \<longleftrightarrow> err = None \<and>
     (\<forall>addr \<in> touchedIn H acc gs. \<exists>r a. accountCache (snd x') addr = Some r \<and>
        updatedThrough H acc gs addr (acctBefore (hEth H) (snd x) addr) a \<and>
        acState (acctAt (snd x') r) = acState a \<and> storageOf (hEth H) (acctAt (snd x') r) = storageOf (hEth H) a \<and>
        (\<forall>shards disks. \<exists>snap r w. LoadEthTrieByRoot (eTrie (hEth H)) shards disks (mainTrieDB (trieDB (snd x')))
              (GetRootHash (of_int (- 1)) (snd x')) = (Some snap, None) \<and>
           GetAccount (hEth H) addr snap = Some ((Some r, None), w) \<and>
           acState (acctAt w r) = acState a \<and> storageOf (hEth H) (acctAt w r) = storageOf (hEth H) a)) \<and>
     (\<forall>addr. addr \<notin> touchedIn H acc gs \<longrightarrow> accountCache (snd x') addr = accountCache (snd x) addr \<and>
        (\<forall>r. accountCache (snd x) addr = Some r \<longrightarrow> acState (acctAt (snd x') r) = acState (acctAt (snd x) r) \<and>
           storageOf (hEth H) (acctAt (snd x') r) = storageOf (hEth H) (acctAt (snd x) r)))"

lemma groupedBy_touched:
  assumes "groupedBy H h w (filter (\<lambda>r. acc (cellAt h r)) ts) idx"
  shows "dom idx = touched H acc h ts"
    "idx addr = Some (r, g) \<Longrightarrow> g = filter (\<lambda>r. addrOf H h r = Some addr) (filter (\<lambda>r. acc (cellAt h r)) ts)"
proof -
  have s: "map_option snd (idx a) = groupBy (addrOf H h) (filter (\<lambda>r. acc (cellAt h r)) ts) a" for a
    using assms by (simp add: groupedBy_def)
  have "groupBy (addrOf H h) (filter (\<lambda>r. acc (cellAt h r)) ts) a \<noteq> None \<longleftrightarrow> a \<in> touched H acc h ts" for a
    by (auto simp: touched_def groupBy_def Let_def filter_empty_conv)
  then show "dom idx = touched H acc h ts" unfolding s [symmetric] by auto
  show "g = filter (\<lambda>r. addrOf H h r = Some addr) (filter (\<lambda>r. acc (cellAt h r)) ts)" if "idx addr = Some (r, g)"
    using s [of addr] that by (auto simp: groupBy_def Let_def split: if_splits)
qed

lemma finite_touched: "finite (touched H acc h ts)"
proof -
  have "touched H acc h ts \<subseteq> (\<lambda>r. the (addrOf H h r)) ` set ts" by (force simp: touched_def)
  then show ?thesis by (rule finite_surj [rotated]) simp
qed

lemma ethImport_ok:
  assumes "ethStaged H acc D gs x0 x" "distinct ts" "\<And>r. r \<in> set ts \<Longrightarrow> pathAt (hCell H) h r \<noteq> None \<and> typedAt (hCell H) h r"
  shows "\<exists>x' h'. wImport (ethOps H) ts h x = Some (x', h') \<and> sameMeta (hCell H) h h' \<and>
    (\<forall>r \<in> set ts. typedAt (hCell H) h' r) \<and> (\<forall>r. r \<notin> set ts \<longrightarrow> cellAt h' r = cellAt h r) \<and> ethImported H acc h ts x x'"
proof -
  obtain e w where x: "x = (e, w)" by fastforce
  note st = ethStagedD [OF assms(1) [unfolded x]]
  obtain f t where fr: "ethw_law H" "eiFilter (eswIndexer e) = Some f" "filt_law (hCell H) acc f"
    "eiIndex (eswIndexer e) = Map.empty" "cacheOk w" "worldStateTrie w = Some t"
    using st(2-4) settled_cacheOk [OF st(8)] settled_trie [OF st(8)] by metis
  have eth: "eth_law (hEth H)" and ixl: "indexer_law (hIndexer H)" using fr(1) by (simp_all add: ethw_law_def)
  let ?rs = "filter (\<lambda>r. acc (cellAt h r)) ts"
  obtain h' where loop: "lsiImportLoop (hCell H) (Some f) ts ([], h) = Some (?rs, h')" "sameMeta (hCell H) h h'"
    "\<forall>r \<in> set ts. typedAt (hCell H) h' r" "\<forall>r. r \<notin> set ts \<longrightarrow> cellAt h' r = cellAt h r"
    using lciImportLoop_ok [OF fr(3) assms(2,3), of "[]"] lsiImportLoop_paths [OF fr(3) assms(2,3), of "[]"] by auto
  have "\<forall>v \<in> set ?rs. pathAt (hCell H) h' v \<noteq> None" using loop(2) assms(3) by (simp add: sameMeta_def)
  moreover have "groupedBy H h' w [] Map.empty" by (simp add: groupedBy_def)
  ultimately obtain idx w' where imp:
    "importSpec (addrKey H) (acctInit H) acctExtend ?rs (Map.empty, (h', w)) = Some (idx, (h', w'))"
    "groupedBy H h' w' ?rs idx" "heapGrows w w'"
    "\<forall>a r g. idx a = Some (r, g) \<longrightarrow> preloaded (hEth H) w w' a r"
    using import_groups [OF eth _ fr(5,6), of h' "[]" Map.empty ?rs] by auto
  have "addrOf H h' = addrOf H h" using loop(2) by (simp add: addrOf_def sameMeta_def fun_eq_iff)
  then have "groupedBy H h w' ?rs idx" using imp(2) by (simp add: groupedBy_def)
  moreover have "EthStorageWriter_Import H ts (h, w) e =
      Some (e\<lparr>eswIndexer := (eswIndexer e)\<lparr>eiIndex := idx\<rparr>\<rparr>, (h', w'))"
    using loop(1) imp(1) by (simp add: EthStorageWriter_Import_def EthIndexer_Import_def fr(2,4) indexer_law_import [OF ixl])
  ultimately show ?thesis
    using loop(2-4) imp(3,4) by (auto simp: ethOps_def x ethImported_def)
qed

lemma batchFit_ok:
  assumes "batchFit E (ks, vs)" "length ks = length vs" "pending E d a"
  shows "batchOk E ks vs a"
  using assms by (auto simp: batchFit_def batchOk_def pending_def)

text \<open>The account that a generation finds is the one that the generations before it have left.\<close>

lemma acctBefore_through:
  assumes "ethStaged H acc D gs x (e, w)"
  shows "updatedThrough H acc gs addr (acctBefore (hEth H) (snd x) addr) (acctBefore (hEth H) w addr)"
    "pending (hEth H) (mainTrieDB (trieDB w)) (acctBefore (hEth H) w addr)"
    "acDirty (acctBefore (hEth H) w addr) \<Longrightarrow> \<exists>g \<in> set gs. genStores H acc g addr"
proof -
  note st = ethStagedD [OF assms]
  have eth: "eth_law (hEth H)" using st(2) by (simp add: ethw_law_def)
  have new: "NewAccountWithSharedCache (hEth H) addr s (trieDB w) = NewAccountWithSharedCache (hEth H) addr s (trieDB (snd x))" for s
    using st(7) by (simp add: NewAccountWithSharedCache_def LoadTrie_def)
  show "updatedThrough H acc gs addr (acctBefore (hEth H) (snd x) addr) (acctBefore (hEth H) w addr)"
  proof (cases "addr \<in> touchedIn H acc gs")
    case True
    then show ?thesis using st(11) by (auto simp: acctBefore_def)
  next
    case False
    then have "acctBefore (hEth H) w addr = acctBefore (hEth H) (snd x) addr"
      using st(12) new by (auto simp: acctBefore_def split: option.split)
    moreover have "addr \<notin> genTouched H acc g" if "g \<in> set gs" for g using False that by (auto simp: touchedIn_def)
    ultimately show ?thesis using untouched_through by metis
  qed
  show "pending (hEth H) (mainTrieDB (trieDB w)) (acctBefore (hEth H) w addr)"
    using settled_entry [OF st(8)] new_account_pending(1) [OF eth] by (auto simp: acctBefore_def split: option.split)
  show "\<exists>g \<in> set gs. genStores H acc g addr" if "acDirty (acctBefore (hEth H) w addr)"
    using that st(10) new_account_pending(2) [OF eth] by (auto simp: acctBefore_def split: option.splits)
qed

lemma imported_genOk:
  assumes "ethStaged H acc D gs x0 x" "ethImported H acc h ts x x'" "ethAdmissible H acc D gs h txs ts" "distinct ts"
    and "finalized (hCell H) h txs ts h'"
  shows "genOk H h' (snd x') (eiIndex (eswIndexer (fst x')))"
    "\<And>addr r g. eiIndex (eswIndexer (fst x')) addr = Some (r, g) \<Longrightarrow> acctAt (snd x') r = acctBefore (hEth H) (snd x) addr"
    "\<And>addr r g q. eiIndex (eswIndexer (fst x')) addr = Some (r, g) \<Longrightarrow> accountCache (snd x) addr = Some q \<Longrightarrow> r = q"
proof -
  let ?E = "hEth H" and ?T = "eTrie (hEth H)" and ?idx = "eiIndex (eswIndexer (fst x'))" and ?A = "hCell H"
  have staged: "ethStaged H acc D gs x0 (fst x, snd x)" using assms(1) by simp
  note st = ethStagedD [OF staged] and before = acctBefore_through [OF staged]
  obtain t0 where t0: "worldStateTrie (snd x) = Some t0" "inj_on (keccak ?T) D"
    "\<And>addr. addr \<in> D \<Longrightarrow> tLookup ?T t0 (keccak ?T addr) =
       (case accountCache (snd x) addr of None \<Rightarrow> [] | Some r \<Rightarrow> eStateEnc ?E (acState (acctAt (snd x) r)))"
    using settled_trie [OF st(8)] by metis
  have grp: "groupedBy H h (snd x') (filter (\<lambda>r. acc (cellAt h r)) ts) ?idx" "heapGrows (snd x) (snd x')"
    "\<forall>addr r g. ?idx addr = Some (r, g) \<longrightarrow> preloaded ?E (snd x) (snd x') addr r"
    using assms(2) by (auto simp: ethImported_def)
  note td = groupedBy_touched [OF grp(1)]
  have eth: "eth_law ?E" "hexutil_law ?T" using st(2) by (simp_all add: ethw_law_def eth_law_def)
  have db: "trieDB (snd x') = trieDB (snd x)" using grp(2) by (simp add: heapGrows_def)
  have addr: "toAddress ?T addr = addr" if "?idx addr = Some (r, g)" for addr r g
  proof -
    have "addr \<in> touched H acc h ts" using td(1) that by blast
    then show ?thesis using eth(2) by (auto simp: touched_def addrOf_def hexutil_law_def)
  qed
  show "r = q" if "?idx addr = Some (r, g)" "accountCache (snd x) addr = Some q" for addr r g q
    using preloaded_cached [OF addr [OF that(1)] that(2)] grp(3) that(1) by blast
  show acct: "acctAt (snd x') r = acctBefore ?E (snd x) addr" if i: "?idx addr = Some (r, g)" for addr r g
  proof -
    have t: "addr \<in> touched H acc h ts" using td(1) i by blast
    note a = addr [OF i]
    have D: "addr \<in> D" using t assms(3) by (auto simp: ethAdmissible_def)
    show ?thesis
      by (rule preloaded_account [OF eth(1) settled_cacheOk [OF st(8)] t0(1) a]) (use t0(3) [OF D] grp(3) i in auto)
  qed
  have batch: "(\<forall>v \<in> set (liveOf ?A h' g). typedAt ?A h' v) \<and> (liveOf ?A h' g \<noteq> [] \<longrightarrow>
      (case batchOf ?A h' (liveOf ?A h' g) of (keys, vals) \<Rightarrow> batchOk ?E keys vals (acctAt (snd x') r) \<and>
         (acDirty (acctAt (snd x') r) \<longrightarrow> writesStorage (keys, vals))))"
    if i: "?idx addr = Some (r, g)" for addr r g
  proof -
    have g: "g = filter (\<lambda>r. addrOf H h r = Some addr) (filter (\<lambda>r. acc (cellAt h r)) ts)" by (rule td(2) [OF i])
    obtain ps where ps: "batchOf ?A h' (liveOf ?A h' g) = blockBatch H acc h txs ts ps" "distinct ps"
      "set ps = changedPaths H acc h txs ts addr" "ps = [] \<longleftrightarrow> liveOf ?A h' g = []"
      unfolding g by (rule group_batch [OF assms(5,4)])
    have pend: "pending ?E (mainTrieDB (trieDB (snd x'))) (acctAt (snd x') r)" using before(2) by (simp add: acct [OF i] db)
    have "addr \<in> touched H acc h ts" using td(1) i by blast
    then have fit: "batchFit ?E (blockBatch H acc h txs ts ps)"
      "writesStorage (blockBatch H acc h txs ts ps) \<or> (\<forall>g \<in> set gs. \<not> genStores H acc g addr)" if "ps \<noteq> []"
      using assms(3) ps(2,3) that unfolding ethAdmissible_def by blast+
    have "batchOk ?E (fst (blockBatch H acc h txs ts ps)) (snd (blockBatch H acc h txs ts ps)) (acctAt (snd x') r) \<and>
        (acDirty (acctAt (snd x') r) \<longrightarrow> writesStorage (blockBatch H acc h txs ts ps))" if "ps \<noteq> []"
    proof
      show "batchOk ?E (fst (blockBatch H acc h txs ts ps)) (snd (blockBatch H acc h txs ts ps)) (acctAt (snd x') r)"
        using fit(1) that by (intro batchFit_ok [OF _ _ pend]) (simp_all add: blockBatch_def)
      show "acDirty (acctAt (snd x') r) \<longrightarrow> writesStorage (blockBatch H acc h txs ts ps)"
        using fit(2) [OF that] before(3) by (auto simp: acct [OF i])
    qed
    moreover have "typedAt ?A h' v" if "v \<in> set (liveOf ?A h' g)" for v
      using that assms(5) by (auto simp: g liveOf_def liveIn_def finalized_def)
    ultimately show ?thesis using ps(1,4) by (simp add: case_prod_beta)
  qed
  have "finite (dom ?idx)" "inj_on (keccak ?T) (dom ?idx)"
    using assms(3) finite_touched t0(2) by (auto simp: td(1) ethAdmissible_def intro: inj_on_subset)
  then show "genOk H h' (snd x') ?idx"
  proof (rule genOkI)
    fix addr r g
    assume i: "?idx addr = Some (r, g)"
    show "acAddr (acctAt (snd x') r) = addr" using grp(1) i by (auto simp: groupedBy_def)
    show "pending ?E (mainTrieDB (trieDB (snd x'))) (acctAt (snd x') r)" using before(2) by (simp add: acct [OF i] db)
    show "\<forall>v \<in> set (liveOf ?A h' g). typedAt ?A h' v"
      "liveOf ?A h' g \<noteq> [] \<longrightarrow> (case batchOf ?A h' (liveOf ?A h' g) of (keys, vals) \<Rightarrow> batchOk ?E keys vals (acctAt (snd x') r) \<and>
         (acDirty (acctAt (snd x') r) \<longrightarrow> writesStorage (keys, vals)))"
      by (fact batch [OF i, THEN conjunct1], fact batch [OF i, THEN conjunct2])
  qed
qed

text \<open>Precommitting a generation keeps the world settled, up to the storage of the dirty accounts.\<close>

lemma settled_updated:
  assumes "settled H D R0 w" "worldStateTrie w = Some t" "inj_on (keccak (eTrie (hEth H))) D" "dom idx \<subseteq> D"
    and "\<forall>addr r g. idx addr = Some (r, g) \<longrightarrow> r < nextRef (acctHeap w) \<and> acAddr (acctAt w r) = addr \<and> r \<in> R"
    and "\<forall>r \<in> R. \<exists>addr g. idx addr = Some (r, g)"
    and w': "worldStateTrie w' = Some t'" "dbErr w' = None" "blockRoots w' = blockRoots w" "mainTrieDB (trieDB w') = mainTrieDB (trieDB w)"
    "tBacked (eTrie (hEth H)) (mainTrieDB (trieDB w')) t'" "nextRef (acctHeap w') = nextRef (acctHeap w)"
    "\<forall>r. r \<notin> R \<longrightarrow> acctAt w' r = acctAt w r"
    "accountCache w' = (\<lambda>addr. case idx addr of Some (r, g) \<Rightarrow> Some r | None \<Rightarrow> accountCache w addr)"
    "\<forall>k. k \<notin> keccak (eTrie (hEth H)) ` dom idx \<longrightarrow> tLookup (eTrie (hEth H)) t' k = tLookup (eTrie (hEth H)) t k"
    "\<forall>addr r g. idx addr = Some (r, g) \<longrightarrow> acAddr (acctAt w' r) = addr \<and>
       pending (hEth H) (mainTrieDB (trieDB w')) (acctAt w' r) \<and>
       tLookup (eTrie (hEth H)) t' (keccak (eTrie (hEth H)) addr) = eStateEnc (hEth H) (acState (acctAt w' r))"
  shows "settled H D (R0 \<union> R) w'"
    "\<And>addr r. idx addr = None \<Longrightarrow> accountCache w addr = Some r \<Longrightarrow> acctAt w' r = acctAt w r"
proof -
  let ?E = "hEth H" and ?T = "eTrie (hEth H)"
  obtain u where u: "worldStateTrie w = Some u" "dbErr w = None" "distinct (map fst (blockRoots w))" "inj_on (keccak ?T) D"
    "tBacked ?T (mainTrieDB (trieDB w)) u"
    "\<forall>addr \<in> D. tLookup ?T u (keccak ?T addr) =
       (case accountCache w addr of None \<Rightarrow> [] | Some r \<Rightarrow> eStateEnc ?E (acState (acctAt w r)))"
    by (rule settled_trie [OF assms(1)])
  then have old: "tLookup ?T t (keccak ?T addr) =
      (case accountCache w addr of None \<Rightarrow> [] | Some r \<Rightarrow> eStateEnc ?E (acState (acctAt w r)))" if "addr \<in> D" for addr
    using that assms(2) by simp
  note entry = settled_entry [OF assms(1)]
  show same: "acctAt w' r = acctAt w r" if "idx addr = None" "accountCache w addr = Some r" for addr r
  proof -
    have "idx (acAddr (acctAt w r)) = None" using entry [OF that(2)] that(1) by simp
    then have "r \<notin> R" using assms(5,6) by (metis option.distinct(1))
    then show ?thesis using w'(7) by blast
  qed
  have entry': "addr \<in> D \<and> r < nextRef (acctHeap w') \<and> acAddr (acctAt w' r) = addr \<and>
      pending ?E (mainTrieDB (trieDB w')) (acctAt w' r) \<and> (r \<in> R0 \<union> R \<or> \<not> acDirty (acctAt w' r))"
    if "accountCache w' addr = Some r" for addr r
  proof (cases "idx addr")
    case None
    then have c: "accountCache w addr = Some r" using that w'(8) by simp
    show ?thesis using entry [OF c] same [OF None c] by (auto simp: w'(4,6))
  next
    case (Some p)
    have "accountCache w' addr = Some (fst p)" using Some by (simp add: w'(8) case_prod_beta)
    then have i: "idx addr = Some (r, snd p)" using that Some by simp
    show ?thesis using w'(10) [rule_format, OF i] assms(5) [rule_format, OF i] assms(4) i by (auto simp: w'(6))
  qed
  have trie: "tLookup ?T t' (keccak ?T addr) = (case accountCache w' addr of None \<Rightarrow> [] | Some r \<Rightarrow> eStateEnc ?E (acState (acctAt w' r)))"
    if "addr \<in> D" for addr
  proof (cases "idx addr")
    case None
    have "keccak ?T addr \<notin> keccak ?T ` dom idx"
      using inj_on_image_mem_iff [OF assms(3) that assms(4)] None by (simp add: domIff)
    then have "tLookup ?T t' (keccak ?T addr) = tLookup ?T t (keccak ?T addr)" using w'(9) by blast
    then show ?thesis using None old [OF that] same [OF None] by (auto simp: w'(8) split: option.splits)
  next
    case (Some p)
    then obtain r g where i: "idx addr = Some (r, g)" by (cases p) auto
    then show ?thesis using w'(10) [rule_format, OF i] by (simp add: w'(8))
  qed
  show "settled H D (R0 \<union> R) w'" by (rule settledI [OF w'(1,2)]) (use w'(3,5) u(3) assms(3) trie entry' in simp_all)
qed

lemma acctBefore_grows:
  assumes "settled H D R w" "heapGrows w w'"
  shows "acctBefore E w' addr = acctBefore E w addr"
  using settled_entry [OF assms(1), of addr] assms(2)
  by (auto simp: acctBefore_def heapGrows_def sameWorld_def split: option.split)

text \<open>One more generation: the accounts of its index have been updated with its batches, the others are as before.\<close>

lemma ethStaged_snoc:
  assumes staged: "ethStaged H acc D gs x0 (e, w)"
    and idx: "genTouched H acc g = dom idx" "\<And>addr r b. idx addr = Some (r, b) \<Longrightarrow> r \<in> R" "\<And>r. r \<in> R \<Longrightarrow> \<exists>addr b. idx addr = Some (r, b)"
      "\<And>addr r b q. idx addr = Some (r, b) \<Longrightarrow> accountCache w addr = Some q \<Longrightarrow> r = q"
    and cache: "accountCache w' = (\<lambda>addr. case idx addr of Some (r, b) \<Rightarrow> Some r | None \<Rightarrow> accountCache w addr)"
    and same: "\<And>addr r. idx addr = None \<Longrightarrow> accountCache w addr = Some r \<Longrightarrow> acctAt w' r = acctAt w r"
    and acct: "\<And>addr r b. idx addr = Some (r, b) \<Longrightarrow>
      \<exists>kvs. genBatch H acc g addr kvs \<and> updatedBy (hEth H) kvs (acctBefore (hEth H) w addr) (acctAt w' r)"
    and w': "mainTrieDB (trieDB w') = mainTrieDB (trieDB w)" "settled H D (dirtyIn e \<union> R) w'"
    and e': "dirtyIn e' = dirtyIn e \<union> R" "\<forall>g \<in> set (eswBuffer e'). eiVersion g = - 1" "eswFilter e' = eswFilter e"
      "eswIndexer e' = NewEthIndexer (- 1) (eswFilter e)"
  shows "ethStaged H acc D (gs @ [g]) x0 (e', w')"
proof -
  let ?E = "hEth H"
  note st = ethStagedD [OF staged] and before = acctBefore_through [OF staged]
  have cases: "addr \<in> touchedIn H acc (gs @ [g]) \<longleftrightarrow> addr \<in> touchedIn H acc gs \<or> idx addr \<noteq> None" for addr
    by (auto simp: touchedIn_def idx(1))
  show ?thesis
  proof (rule ethStagedI [OF st(1)])
    show "\<exists>f. eiFilter (eswIndexer e') = Some f \<and> eswFilter e' = Some f \<and> filt_law (hCell H) acc f"
      "eiIndex (eswIndexer e') = Map.empty" "eiVersion (eswIndexer e') = - 1" "\<forall>g \<in> set (eswBuffer e'). eiVersion g = - 1"
      using st(3) e'(2) by (auto simp: e'(3,4) NewEthIndexer_def)
    show "mainTrieDB (trieDB w') = mainTrieDB (trieDB (snd x0))" "settled H D (dirtyIn e') w'"
      using st(7) w' by (simp_all add: e'(1))
    show "\<forall>r \<in> dirtyIn e'. \<exists>addr. accountCache w' addr = Some r"
    proof
      fix r
      assume "r \<in> dirtyIn e'"
      then consider addr b where "idx addr = Some (r, b)" | addr where "accountCache w addr = Some r"
        using st(9) idx(3) unfolding e'(1) by blast
      then show "\<exists>addr. accountCache w' addr = Some r"
      proof cases
        case (1 addr b)
        then show ?thesis by (intro exI [of _ addr]) (simp add: cache)
      next
        case (2 addr)
        then show ?thesis using idx(4) [of addr] by (intro exI [of _ addr]) (auto simp: cache split: option.split)
      qed
    qed
    show "\<exists>g \<in> set (gs @ [g]). genStores H acc g addr" if c: "accountCache w' addr = Some r" "acDirty (acctAt w' r)" for addr r
    proof (cases "idx addr")
      case None
      then have "accountCache w addr = Some r" "acctAt w' r = acctAt w r" using c(1) cache same [OF None] by auto
      then show ?thesis using st(10) c(2) by auto
    next
      case (Some p)
      then obtain b where i: "idx addr = Some (r, b)" using c(1) by (cases p) (simp add: cache)
      then obtain kvs where k: "genBatch H acc g addr kvs" "updatedBy ?E kvs (acctBefore ?E w addr) (acctAt w' r)" using acct by blast
      have "writesStorage kvs \<Longrightarrow> genStores H acc g addr" using k(1) unfolding genStores_def by blast
      with updatedBy_dirty [OF k(2) c(2)] before(3) show ?thesis by auto
    qed
    show "\<exists>r \<in> dirtyIn e'. accountCache w' addr = Some r \<and>
        updatedThrough H acc (gs @ [g]) addr (acctBefore ?E (snd x0) addr) (acctAt w' r)"
      if a: "addr \<in> touchedIn H acc (gs @ [g])" for addr
    proof (cases "idx addr")
      case None
      then have "addr \<in> touchedIn H acc gs" "genBatch H acc g addr ([], [])"
        using a cases untouched_batch by (blast, simp add: untouched_batch idx(1) domIff)
      moreover from calculation(1) obtain r where r: "r \<in> dirtyIn e" "accountCache w addr = Some r"
        "updatedThrough H acc gs addr (acctBefore ?E (snd x0) addr) (acctAt w r)" using st(11) by blast
      ultimately show ?thesis using same [OF None r(2)] updatedThrough_snoc [OF r(3) _ updatedBy_nothing] None
        by (intro bexI [of _ r]) (simp_all add: cache e'(1))
    next
      case (Some p)
      then obtain r b where i: "idx addr = Some (r, b)" by (cases p) auto
      then obtain kvs where k: "genBatch H acc g addr kvs" "updatedBy ?E kvs (acctBefore ?E w addr) (acctAt w' r)" using acct by blast
      show ?thesis using updatedThrough_snoc [OF before(1) k] idx(2) [OF i] i by (intro bexI [of _ r]) (auto simp: cache e'(1))
    qed
    show "accountCache w' addr = accountCache (snd x0) addr"
      "accountCache (snd x0) addr = Some r \<Longrightarrow> acctAt w' r = acctAt (snd x0) r"
      if a: "addr \<notin> touchedIn H acc (gs @ [g])" for addr r
    proof -
      have n: "addr \<notin> touchedIn H acc gs" "idx addr = None" using a cases by blast+
      then show "accountCache w' addr = accountCache (snd x0) addr" using st(12) by (simp add: cache)
      show "acctAt w' r = acctAt (snd x0) r" if "accountCache (snd x0) addr = Some r"
        using st(12) n(1) that same [OF n(2), of r] by simp
    qed
  qed
qed

lemma ethPhases_ok:
  assumes "ethStaged H acc D gs x0 x" "ethImported H acc h ts x x'" "ethAdmissible H acc D gs h txs ts" "distinct ts"
    and "finalized (hCell H) h txs ts h'" and gn: "g = \<lparr>genHeap = h, genTxs = txs, genTrans = ts, genDone = h'\<rparr>"
  shows "\<exists>x''. do { v \<leftarrow> syncStep (ethOps H) h' x'; asyncStep (ethOps H) h' v } = Some x'' \<and>
    ethStaged H acc D (gs @ [g]) x0 x''"
proof -
  let ?E = "hEth H" and ?T = "eTrie (hEth H)" and ?A = "hCell H"
  obtain e w e' w' where x: "x = (e, w)" "x' = (e', w')" by fastforce
  let ?idx = "eiIndex (eswIndexer e')"
  note gen = imported_genOk [OF assms(1-5), unfolded x fst_conv snd_conv]
  have imp: "e' = e\<lparr>eswIndexer := (eswIndexer e)\<lparr>eiIndex := ?idx\<rparr>\<rparr>" "heapGrows w w'"
    "groupedBy H h w' (filter (\<lambda>r. acc (cellAt h r)) ts) ?idx"
    using assms(2) by (auto simp: ethImported_def x)
  note td = groupedBy_touched [OF imp(3)]
  note staged = ethStaged_grows [OF assms(1) [unfolded x(1)] imp(2)]
  note st = ethStagedD [OF staged]
  have before: "acctBefore ?E w' addr = acctBefore ?E w addr" for addr
    by (rule acctBefore_grows [OF _ imp(2)]) (rule ethStagedD(8) [OF assms(1) [unfolded x(1)]])
  have e': "eswBuffer e' = eswBuffer e" "eiVersion (eswIndexer e') = - 1" "eswFilter e' = eswFilter e"
    using st(5) by (subst imp(1), simp)+
  obtain t where t: "worldStateTrie w' = Some t" "dbErr w' = None" "tBacked ?T (mainTrieDB (trieDB w')) t" "inj_on (keccak ?T) D"
    using settled_trie [OF st(8)] by metis
  obtain w2 t2 e2 dirty where pre: "EthStorageWriter_Precommit H False (h', w') e' = Some ((e2, None), w2)"
    "eswBuffer e2 = eswBuffer e' @ [(eswIndexer e')\<lparr>eiIndex := finishedIdx ?A h' ?idx, eiDirty := dirty\<rparr>]"
    "worldStateTrie w2 = Some t2" "dbErr w2 = None" "blockRoots w2 = blockRoots w'" "mainTrieDB (trieDB w2) = mainTrieDB (trieDB w')"
    "\<forall>d. tBacked ?T d t \<longrightarrow> tBacked ?T d t2" "eswFilter e2 = eswFilter e'" "eswIndexer e2 = NewEthIndexer (- 1) (eswFilter e')"
    "set dirty = {r. \<exists>addr ts. ?idx addr = Some (r, ts)}" "nextRef (acctHeap w2) = nextRef (acctHeap w')"
    "\<forall>r. r \<notin> set dirty \<longrightarrow> acctAt w2 r = acctAt w' r"
    "accountCache w2 = (\<lambda>addr. case ?idx addr of Some (r, ts) \<Rightarrow> Some r | None \<Rightarrow> accountCache w' addr)"
    "\<forall>k. k \<notin> keccak ?T ` dom ?idx \<longrightarrow> tLookup ?T t2 k = tLookup ?T t k"
    "\<forall>addr r ts. ?idx addr = Some (r, ts) \<longrightarrow> updatedBy ?E (batchOf ?A h' (liveOf ?A h' ts)) (acctAt w' r) (acctAt w2 r) \<and>
       pending ?E (mainTrieDB (trieDB w2)) (acctAt w2 r) \<and> tLookup ?T t2 (keccak ?T addr) = eStateEnc ?E (acState (acctAt w2 r))"
    by (rule Precommit_run [OF st(2) gen(1) t(1,2)])
  have refs: "\<forall>addr r b. ?idx addr = Some (r, b) \<longrightarrow> r < nextRef (acctHeap w') \<and> acAddr (acctAt w' r) = addr \<and> r \<in> set dirty"
    "\<forall>r \<in> set dirty. \<exists>addr b. ?idx addr = Some (r, b)" using imp(3) pre(10) by (auto simp: groupedBy_def)
  have D: "dom ?idx \<subseteq> D" using assms(3) by (simp add: td(1) ethAdmissible_def)
  have backed: "tBacked ?T (mainTrieDB (trieDB w2)) t2" using pre(6,7) t(3) by simp
  have new: "\<forall>addr r b. ?idx addr = Some (r, b) \<longrightarrow> acAddr (acctAt w2 r) = addr \<and> pending ?E (mainTrieDB (trieDB w2)) (acctAt w2 r) \<and>
       tLookup ?T t2 (keccak ?T addr) = eStateEnc ?E (acState (acctAt w2 r))"
    using pre(15) refs(1) updatedBy_addr by metis
  note upd = settled_updated [OF st(8) t(1,4) D refs pre(3-6) backed pre(11,12,13,14) new]
  have acct: "\<exists>kvs. genBatch H acc g addr kvs \<and> updatedBy ?E kvs (acctBefore ?E w' addr) (acctAt w2 r)"
    if i: "?idx addr = Some (r, b)" for addr r b
  proof -
    obtain ps where ps: "batchOf ?A h' (liveOf ?A h' b) = blockBatch H acc h txs ts ps" "distinct ps"
      "set ps = changedPaths H acc h txs ts addr"
      unfolding td(2) [OF i] by (rule group_batch [OF assms(5,4)])
    have "updatedBy ?E (blockBatch H acc h txs ts ps) (acctBefore ?E w' addr) (acctAt w2 r)"
      using pre(15) i unfolding before gen(2) [OF i, symmetric] ps(1) [symmetric] by blast
    then show ?thesis using ps(2,3) by (intro exI [of _ "blockBatch H acc h txs ts ps"]) (auto simp: genBatch_def gn)
  qed
  have cached: "r = q" if "?idx addr = Some (r, b)" "accountCache w' addr = Some q" for addr r b q
    using gen(3) [OF that(1)] that(2) imp(2) by (simp add: heapGrows_def sameWorld_def)
  have "ethStaged H acc D (gs @ [g]) x0 (e2, w2)"
    by (rule ethStaged_snoc [where idx = ?idx and R = "set dirty", OF staged _ _ _ cached pre(13) upd(2) acct pre(6) upd(1)])
       (use refs st(6) in \<open>auto simp: td(1) genTouched_def gn dirtyIn_def pre(2,8,9) e'\<close>)
  moreover have "do { v \<leftarrow> syncStep (ethOps H) h' x'; asyncStep (ethOps H) h' v } = Some (e2, w2)"
    using pre(1) by (simp add: x syncStep_def asyncStep_def ethOps_def)
  ultimately show ?thesis by blast
qed

lemma ethCommit_ok:
  assumes "ethStaged H acc D gs x0 x"
  shows "\<exists>x' e. wCommit (ethOps H) v h x = Some (x', e) \<and> ethFresh H acc D x' \<and> ethOutcome H acc gs x0 e x'"
proof -
  let ?E = "hEth H" and ?T = "eTrie (hEth H)"
  obtain e w where x: "x = (e, w)" by fastforce
  note st = ethStagedD [OF assms [unfolded x]]
  obtain t where t: "worldStateTrie w = Some t" "dbErr w = None" "tBacked ?T (mainTrieDB (trieDB w)) t"
    "distinct (map fst (blockRoots w))" "\<And>addr. addr \<in> D \<Longrightarrow> tLookup ?T t (keccak ?T addr) =
       (case accountCache w addr of None \<Rightarrow> [] | Some r \<Rightarrow> eStateEnc ?E (acState (acctAt w r)))"
    using settled_trie [OF st(8)] by metis
  have pend: "\<forall>r \<in> set (concat (map eiDirty (eswBuffer e))). pending ?E (mainTrieDB (trieDB w)) (acctAt w r)"
    using st(9) settled_entry [OF st(8)] unfolding dirtyIn_def by metis
  obtain w2 t2 where com: "EthStorageWriter_Commit H v w e = Some ((e\<lparr>eswBuffer := []\<rparr>, None), w2)"
    "worldStateTrie w2 = Some t2" "tLookup ?T t2 = tLookup ?T t" "tBacked ?T (mainTrieDB (trieDB w2)) t2"
    "accountsSaved ?E (dirtyIn e) w w2" "distinct (map fst (blockRoots w2))"
    "\<forall>addr shards disks. \<forall>r \<in> dirtyIn e. tLookup ?T t (keccak ?T addr) = eStateEnc ?E (acState (acctAt w r)) \<longrightarrow>
       (\<exists>snap r' w3. LoadEthTrieByRoot ?T shards disks (mainTrieDB (trieDB w2)) (GetRootHash (of_int (- 1)) w2) = (Some snap, None) \<and>
          GetAccount ?E addr snap = Some ((Some r', None), w3) \<and>
          acState (acctAt w3 r') = acState (acctAt w r) \<and> storageOf ?E (acctAt w3 r') = storageOf ?E (acctAt w r))"
    by (rule Commit_run [OF st(2) t(1-4) pend st(6), of v, folded dirtyIn_def])
  note sv = accountsSaved_at [OF com(5)]
  have cache: "accountCache w2 = accountCache w" using com(5) by (simp add: accountsSaved_def)
  have "settled H D {} w2" by (rule settled_saved [OF st(8) com(5) t(1) com(2-4,6)])
  then have fresh: "ethFresh H acc D (e\<lparr>eswBuffer := []\<rparr>, w2)" using st(2-5) by (simp add: ethFresh_def)
  have acct: "\<exists>r a. accountCache w2 addr = Some r \<and> updatedThrough H acc gs addr (acctBefore ?E (snd x0) addr) a \<and>
        acState (acctAt w2 r) = acState a \<and> storageOf ?E (acctAt w2 r) = storageOf ?E a \<and>
        (\<forall>shards disks. \<exists>snap r w. LoadEthTrieByRoot ?T shards disks (mainTrieDB (trieDB w2)) (GetRootHash (of_int (- 1)) w2) = (Some snap, None) \<and>
           GetAccount ?E addr snap = Some ((Some r, None), w) \<and>
           acState (acctAt w r) = acState a \<and> storageOf ?E (acctAt w r) = storageOf ?E a)"
    if a: "addr \<in> touchedIn H acc gs" for addr
  proof -
    obtain r where r: "r \<in> dirtyIn e" "accountCache w addr = Some r"
      "updatedThrough H acc gs addr (acctBefore ?E (snd x0) addr) (acctAt w r)" using st(11) a by blast
    have "addr \<in> D" using settled_entry [OF st(8) r(2)] by blast
    then have "tLookup ?T t (keccak ?T addr) = eStateEnc ?E (acState (acctAt w r))" using t(5) r(2) by simp
    then show ?thesis using com(7) r sv(2,3) unfolding cache
      by (intro exI [of _ r] exI [of _ "acctAt w r"]) blast
  qed
  have "accountCache w2 addr = accountCache (snd x0) addr \<and> (\<forall>r. accountCache (snd x0) addr = Some r \<longrightarrow>
      acState (acctAt w2 r) = acState (acctAt (snd x0) r) \<and> storageOf ?E (acctAt w2 r) = storageOf ?E (acctAt (snd x0) r))"
    if "addr \<notin> touchedIn H acc gs" for addr using st(12) that unfolding cache sv(2,3) by simp
  then have "ethOutcome H acc gs x0 None (e\<lparr>eswBuffer := []\<rparr>, w2)"
    unfolding ethOutcome_def snd_conv using acct by blast
  then show ?thesis using com(1) fresh by (simp add: x ethOps_def)
qed

interpretation eth: block_writer "hCell H" "ethOps H" "ethFresh H acc D" "ethStaged H acc D" "ethImported H acc"
  "ethAdmissible H acc D" "\<lambda>_ _ _ _. True" "ethOutcome H acc"
  for H :: "('c, 'v, 't, 'n, 'd, 'b) ethw_lib" and acc D
proof (unfold_locales, goal_cases)
  case (2 h g gs ts x0 x x')
  obtain f where f: "filt_law (hCell H) acc f" using ethStagedD(3) [of H acc D gs x0 "fst x" "snd x"] 2(2) by auto
  have "addrOf H g = addrOf H h" using 2(1) by (simp add: addrOf_def sameMeta_def fun_eq_iff)
  then show ?case using 2(3) by (simp add: ethImported_def groupedBy_def filt_law_cong [OF f 2(1)])
next
  case (4 gs h txs ts h' x0 x x')
  then show ?case using ethPhases_ok [OF 4(1-5) refl] by blast
next
  case (5 gs h x0 x v)
  show ?case by (rule ethCommit_ok [OF 5(1)])
qed (fact ethStaged_start ethImport_ok)+

end
