(* ===== verification/Proxy.thy ===== *)
theory Proxy
  imports EthWorldProps LiveCache
begin

text \<open>
  \<open>src/storage/proxy\<close>: the proxy that bundles the live cache, its backend and the Ethereum store,
  with its codecs and writers (\<open>state_proxy.go\<close>), the snapshot of an old Ethereum state
  (\<open>snapshot_state_proxy.go\<close>), the read-only server (\<open>remote/server.go\<close>), and the constructors of
  the live cache and the live storage. \<open>cachedstore.CachedStore\<close> of common-lib is a parameter; it is
  built from a backend, a codec, a capacity and a size function.
\<close>

section \<open>Codecs and stores\<close>

text \<open>\<open>stgcodec.StorageCodec\<close>: the two conversions. A panic is None.\<close>

record ('a, 'b) StgCodec =
  forwardConv :: "string \<Rightarrow> 'a \<Rightarrow> (string \<times> 'b \<times> err) option"
  backwardConv :: "string \<Rightarrow> 'b \<Rightarrow> (string \<times> 'a \<times> err) option"

definition newLiveCacheCodec :: "'v arco_api \<Rightarrow> ('v option, bytes) StgCodec" where
  "newLiveCacheCodec B = \<lparr>
     forwardConv = (\<lambda>key value. do { (encoded, e) \<leftarrow> arco_Encode B key value; Some (key, encoded, e) }),
     backwardConv = (\<lambda>key value. do {
       decoded \<leftarrow> arco_Decode B 0 key value;
       case decoded of
         None \<Rightarrow> Some (key, None, None)
       | Some v \<Rightarrow> if acIsCRDT B v then Some (key, Some v, None) else None
     })\<rparr>"

definition liveStorageCodec :: "'v arco_api \<Rightarrow> ('v option, bytes) StgCodec" where
  "liveStorageCodec B = \<lparr>
     forwardConv = (\<lambda>key value.
       if value \<noteq> None then do { (encoded, e) \<leftarrow> arco_Encode B key value; Some (key, encoded, e) }
       else Some (key, [], None)),
     backwardConv = (\<lambda>key value. do {
       v \<leftarrow> arco_Decode B 0 key value;
       case v of
         None \<Rightarrow> Some ([], None, Some ''failed to decode data'')
       | Some x \<Rightarrow> if acIsCRDT B x then Some (key, Some x, None) else None
     })\<rparr>"

definition byteLiveStorageCodec :: "(bytes, bytes) StgCodec" where
  "byteLiveStorageCodec = \<lparr>forwardConv = (\<lambda>key value. Some (key, value, None)), backwardConv = (\<lambda>key value. Some (key, value, None))\<rparr>"

text \<open>\<open>cachedstore.NewCachedStore\<close>, at a codec from \<open>'a\<close> to \<open>'b\<close>.\<close>

type_synonym ('db, 'a, 'b, 'cs) newCachedStore = "'db option \<Rightarrow> ('a, 'b) StgCodec \<Rightarrow> u64 \<Rightarrow> ('a \<Rightarrow> u64) \<Rightarrow> 'cs"

definition memSizeOf :: "('v \<Rightarrow> u64) \<Rightarrow> 'v option \<Rightarrow> u64" where
  "memSizeOf memSize v = (case v of None \<Rightarrow> 0 | Some x \<Rightarrow> memSize x)"

definition NewLiveCache ::
  "('db, 'v option, bytes, 'cs) newCachedStore \<Rightarrow> ('v \<Rightarrow> u64) \<Rightarrow> u64 \<Rightarrow> 'db option \<Rightarrow> ('v option, bytes) StgCodec \<Rightarrow> 'cs" where
  "NewLiveCache new memSize cacheCap backend codec = new backend codec cacheCap (memSizeOf memSize)"

definition NewLiveStorage :: "('db, 'a, 'b, 'cs) newCachedStore \<Rightarrow> ('a \<Rightarrow> u64) \<Rightarrow> 'db option \<Rightarrow> ('a, 'b) StgCodec \<Rightarrow> 'cs" where
  "NewLiveStorage new sizeOf db codec = new db codec 1024 sizeOf"

definition initLiveStorage ::
  "('db, 'v option, bytes, 'cs) newCachedStore \<Rightarrow> 'v arco_api \<Rightarrow> ('v \<Rightarrow> u64) \<Rightarrow> 'db option \<Rightarrow> 'cs" where
  "initLiveStorage new B memSize db = NewLiveStorage new (memSizeOf memSize) db (liveStorageCodec B)"

definition initByteLiveStorage :: "('db, bytes, bytes, 'cs) newCachedStore \<Rightarrow> 'db option \<Rightarrow> 'cs" where
  "initByteLiveStorage new db = NewLiveStorage new (\<lambda>v. of_nat (length v)) db byteLiveStorageCodec"

section \<open>StorageProxy (state_proxy.go)\<close>

text \<open>The third-party side of the proxy: the constructor of the cached store and the views on it.\<close>

record ('v, 'db, 'cs, 'k, 's) proxy_lib =
  pNew :: "('db, 'v option, bytes, 'cs) newCachedStore"
  pArco :: "'v arco_api"
  pMemSize :: "'v \<Rightarrow> u64"
  pMemDB :: 'db
  pCache :: "'cs \<Rightarrow> 'k"
  pBackend :: "'cs \<Rightarrow> 's option"

record ('t, 'd, 'b, 'cs) StorageProxy =
  pxStore :: 'cs
  ethStorage :: "('t, 'd, 'b) EthWorldState option"
  pxPlatform :: Platform

definition NewCacheOnlyStoreProxy ::
  "('v, 'db, 'cs, 'k, 's) proxy_lib \<Rightarrow> ('t, 'n, 'd, 'b) trie_lib \<Rightarrow> type_ids \<Rightarrow> 'd \<Rightarrow> (nat \<Rightarrow> 'b) \<Rightarrow> ('t, 'd, 'b, 'cs) StorageProxy" where
  "NewCacheOnlyStoreProxy P T ids db disks =
     \<lparr>pxStore = NewLiveCache (pNew P) (pMemSize P) (- 1) None (newLiveCacheCodec (pArco P)),
      ethStorage = Some (NewParallelEthMemDataStore T db disks), pxPlatform = NewPlatform ids\<rparr>"

definition NewMemDBStoreProxy ::
  "('v, 'db, 'cs, 'k, 's) proxy_lib \<Rightarrow> ('t, 'n, 'd, 'b) trie_lib \<Rightarrow> type_ids \<Rightarrow> 'd \<Rightarrow> (nat \<Rightarrow> 'b) \<Rightarrow> ('t, 'd, 'b, 'cs) StorageProxy" where
  "NewMemDBStoreProxy P T ids db disks =
     \<lparr>pxStore = NewLiveCache (pNew P) (pMemSize P) (- 1) (Some (pMemDB P)) (newLiveCacheCodec (pArco P)),
      ethStorage = Some (NewParallelEthMemDataStore T db disks), pxPlatform = NewPlatform ids\<rparr>"

text \<open>\<open>execDB\<close> is the result of opening the execution database, \<open>ethErr\<close> the error of opening the
  Ethereum database: only the first is looked at.\<close>

definition NewFileStoreProxy ::
  "('v, 'db, 'cs, 'k, 's) proxy_lib \<Rightarrow> ('t, 'n, 'd, 'b) trie_lib \<Rightarrow> type_ids \<Rightarrow> string + 'db \<Rightarrow> u64 \<Rightarrow> err \<Rightarrow> 'd \<Rightarrow> (nat \<Rightarrow> 'b) \<Rightarrow>
   ('t, 'd, 'b, 'cs) StorageProxy option" where
  "NewFileStoreProxy P T ids execDB cacheCap ethErr db disks =
     (case execDB of
        Inl _ \<Rightarrow> None
      | Inr fileDB \<Rightarrow> Some
          \<lparr>pxStore = NewLiveCache (pNew P) (pMemSize P) cacheCap (Some fileDB) (newLiveCacheCodec (pArco P)),
           ethStorage = NewLevelDBDataStore T ethErr db disks, pxPlatform = NewPlatform ids\<rparr>)"

definition NewPebbleDBProxy ::
  "('v, 'db, 'cs, 'k, 's) proxy_lib \<Rightarrow> ('t, 'n, 'd, 'b) trie_lib \<Rightarrow> type_ids \<Rightarrow> string + 'db \<Rightarrow> u64 \<Rightarrow> err \<Rightarrow> 'd \<Rightarrow> (nat \<Rightarrow> 'b) \<Rightarrow>
   ('t, 'd, 'b, 'cs) StorageProxy option" where
  "NewPebbleDBProxy P T ids execDB cacheCap ethErr db disks =
     (case execDB of
        Inl _ \<Rightarrow> None
      | Inr pebbleDB \<Rightarrow> Some
          \<lparr>pxStore = NewLiveCache (pNew P) (pMemSize P) cacheCap (Some pebbleDB) (newLiveCacheCodec (pArco P)),
           ethStorage = NewLevelDBDataStore T ethErr db disks, pxPlatform = NewPlatform ids\<rparr>)"

definition StorageProxy_Preload ::
  "('v, 't, 'n, 'd, 'b) eth_lib \<Rightarrow> bytes \<Rightarrow> ('t, 'd, 'b, 'cs) StorageProxy \<Rightarrow> (ref \<times> ('t, 'd, 'b, 'cs) StorageProxy) option" where
  "StorageProxy_Preload E data this = do {
     w \<leftarrow> ethStorage this;
     (r, w) \<leftarrow> EthWorldState_Preload E data w;
     Some (r, this\<lparr>ethStorage := Some w\<rparr>)
   }"

datatype ('c, 'v, 'k, 's) proxyWriter =
  CacheWriter "('c, 'v, 'k) LiveCacheWriter"
| EthWriter "'c EthStorageWriter"
| StorageWriter "('c, 'v, bytes, 's) LiveStorageWriter"

definition SyncWriters ::
  "('v, 'db, 'cs, 'k, 's) proxy_lib \<Rightarrow> ('c, 'v) cell_api \<Rightarrow> 'v path_api \<Rightarrow> ('t, 'd, 'b, 'cs) StorageProxy \<Rightarrow>
   ('c, 'v, 'k, 's) proxyWriter list" where
  "SyncWriters P A V this =
     [CacheWriter (NewLiveCacheWriter (pCache P (pxStore this)) (- 1) (Some (NonTransientOnly A V (pxPlatform this))))]"

definition AsyncWriters ::
  "('v, 'db, 'cs, 'k, 's) proxy_lib \<Rightarrow> ('c, 'v) cell_api \<Rightarrow> 'v path_api \<Rightarrow> ('t, 'd, 'b, 'cs) StorageProxy \<Rightarrow>
   ('c, 'v, 'k, 's) proxyWriter list" where
  "AsyncWriters P A V this =
     [EthWriter (NewEthStorageWriter (- 1) (Some (NonTransientOnly A V (pxPlatform this)))),
      StorageWriter (NewLiveStorageWriter (pBackend P (pxStore this)) (- 1) (Some (NonTransientOnly A V (pxPlatform this))))]"

definition GetWriters ::
  "('v, 'db, 'cs, 'k, 's) proxy_lib \<Rightarrow> ('c, 'v) cell_api \<Rightarrow> 'v path_api \<Rightarrow> ('t, 'd, 'b, 'cs) StorageProxy \<Rightarrow>
   ('c, 'v, 'k, 's) proxyWriter list" where
  "GetWriters P A V this = SyncWriters P A V this @ AsyncWriters P A V this"

definition StorageProxy_SetVersion :: "bytes \<Rightarrow> ('t, 'd, 'b, 'cs) StorageProxy \<Rightarrow> err" where
  "StorageProxy_SetVersion v this = None"

section \<open>EthStateSnapshot (snapshot_state_proxy.go)\<close>

definition NewEthStateSnapshot ::
  "('t, 'n, 'd, 'b) trie_lib \<Rightarrow> bytes \<Rightarrow> ('d, 'b) EthShardTrieDB \<Rightarrow> ('t, 'd, 'b) EthWorldState option \<times> err" where
  "NewEthStateSnapshot T rootHash db =
     (case LoadEthTrieByRoot T (diskShardDBs db) (diskDB db) (mainTrieDB db) rootHash of
        (_, Some e) \<Rightarrow> (None, Some e)
      | (w, None) \<Rightarrow> (w, None))"

text \<open>The filter of the snapshot's writer is the method of an empty proxy, whose platform is nil: looking
  a long path up in its map panics.\<close>

definition nilPlatformFilter :: "('c, 'v) cell_api \<Rightarrow> 'v path_api \<Rightarrow> 'c filt" where
  "nilPlatformFilter A V tran h =
     (let keep = (\<lambda>h. Some (\<not> IsBlockBound A (cellAt h tran), h)) in
      case valueAt A h tran of
        None \<Rightarrow> keep h
      | Some v \<Rightarrow>
          if \<not> isCRDT A v then None
          else if vTypeID V v \<noteq> vPATH V then keep h
          else if \<not> isPath V v then None
          else if \<not> pathIsBlockBound V v then keep h
          else case pathAt A h tran of
                 None \<Rightarrow> None
               | Some p \<Rightarrow>
                   if length p \<le> ETH_ACCOUNT_FULL_LENGTH
                   then keep (upd tran (SetValue A (Some (pathReset V v))) h)
                   else None)"

definition EthStateSnapshot_GetWriters :: "('c, 'v) cell_api \<Rightarrow> 'v path_api \<Rightarrow> 'c EthStorageWriter list" where
  "EthStateSnapshot_GetWriters A V = [NewEthStorageWriter (- 1) (Some (nilPlatformFilter A V))]"

definition EthStateSnapshot_SetVersion ::
  "('t, 'n, 'd, 'b) trie_lib \<Rightarrow> bytes \<Rightarrow> ('t, 'd, 'b) EthWorldState \<Rightarrow> ('t, 'd, 'b) EthWorldState option \<times> err" where
  "EthStateSnapshot_SetVersion T version w =
     LoadEthTrieByRoot T (diskShardDBs (trieDB w)) (diskDB (trieDB w)) (mainTrieDB (trieDB w)) version"

section \<open>ReadonlyServer (remote/server.go)\<close>

record ('v) ReadonlyServer =
  rsAddr :: string
  rsStore :: "string \<Rightarrow> 'v option \<times> err"
  rsEncoder :: "'v option \<Rightarrow> bytes"
  rsDecoder :: "bytes \<Rightarrow> 'v option \<times> err"

definition NewReadonlyServer ::
  "string \<Rightarrow> ('v option \<Rightarrow> bytes) \<Rightarrow> (bytes \<Rightarrow> 'v option \<times> err) \<Rightarrow> (string \<Rightarrow> 'v option \<times> err) \<Rightarrow> 'v ReadonlyServer" where
  "NewReadonlyServer addr encoder decoder dataStore =
     \<lparr>rsAddr = addr, rsStore = dataStore, rsEncoder = encoder, rsDecoder = decoder\<rparr>"

definition ReadonlyServer_Get :: "string \<Rightarrow> 'v ReadonlyServer \<Rightarrow> bytes \<times> err" where
  "ReadonlyServer_Get path this =
     (case rsStore this path of (_, Some e) \<Rightarrow> ([], Some e) | (v, None) \<Rightarrow> (rsEncoder this v, None))"

definition ReadonlyServer_GetBatch :: "string list \<Rightarrow> 'v ReadonlyServer \<Rightarrow> bytes option list \<times> err" where
  "ReadonlyServer_GetBatch paths this =
     (map (\<lambda>p. case rsStore this p of (_, Some _) \<Rightarrow> None | (v, None) \<Rightarrow> Some (rsEncoder this v)) paths, None)"

text \<open>What is written to the response: \<open>formKey\<close> is the form value of the request, None if it cannot be parsed.\<close>

definition ReadonlyServer_Receive :: "string \<Rightarrow> string option \<Rightarrow> 'v ReadonlyServer \<Rightarrow> bytes option" where
  "ReadonlyServer_Receive httpMethod formKey this =
     (if httpMethod = ''GET''
      then case formKey of
             None \<Rightarrow> None
           | Some key \<Rightarrow> (case fst (rsStore this key) of None \<Rightarrow> None | Some v \<Rightarrow> Some (rsEncoder this (Some v)))
      else None)"

section \<open>Properties\<close>

text \<open>A server: a request for one path gets what a batch gives for it, and a request over HTTP the same bytes if there is
  a value, although it does not look at the error of the store.\<close>

lemma ReadonlyServer_answers:
  assumes "this = NewReadonlyServer addr encoder decoder dataStore" "i < length paths" "dataStore (paths ! i) = (v, None)"
  shows "ReadonlyServer_Get (paths ! i) this = (encoder v, None)" "fst (ReadonlyServer_GetBatch paths this) ! i = Some (encoder v)"
    "ReadonlyServer_Receive ''GET'' (Some (paths ! i)) this = (if v = None then None else Some (encoder v))"
  using assms by (auto simp: NewReadonlyServer_def ReadonlyServer_Get_def ReadonlyServer_GetBatch_def ReadonlyServer_Receive_def)

text \<open>
  C38. The codecs of the live cache and of the live storage agree on everything but deletions: a value of one of
  the eight types the Arcology codec knows is encoded in the same way by both and decoded by both to itself.
  A deletion is encoded as the empty slice, which the cache's codec reads back as nil without an error, while
  the storage's codec reports an error and loses the key.
\<close>
theorem live_codecs_roundtrip:
  assumes "arco_law B" "acIsCRDT B v" "acTypeID B v \<in> set (arcoIds B)"
  shows "(\<exists>b. forwardConv (newLiveCacheCodec B) key (Some v) = Some (key, b, None) \<and>
      forwardConv (liveStorageCodec B) key (Some v) = Some (key, b, None) \<and>
      backwardConv (newLiveCacheCodec B) key b = Some (key, Some v, None) \<and>
      backwardConv (liveStorageCodec B) key b = Some (key, Some v, None)) \<and>
    forwardConv (newLiveCacheCodec B) key None = Some (key, [], None) \<and>
    forwardConv (liveStorageCodec B) key None = Some (key, [], None) \<and>
    backwardConv (newLiveCacheCodec B) key [] = Some (key, None, None) \<and>
    backwardConv (liveStorageCodec B) key [] = Some ([], None, Some ''failed to decode data'')"
proof -
  have dec: "acDecodeAs B (acTypeID B v) (acEncode B v) = v" using assms by (auto simp: arco_law_def)
  show ?thesis using assms(2,3) dec
    by (simp add: newLiveCacheCodec_def liveStorageCodec_def arco_Encode_def arco_Decode_snoc) (simp add: arco_Decode_def)
qed

theorem live_codecs_roundtrip_witness:
  "(\<exists>b. forwardConv (newLiveCacheCodec tagged_arco) ''k'' (Some (104, [1, 2])) = Some (''k'', b, None) \<and>
     backwardConv (liveStorageCodec tagged_arco) ''k'' b = Some (''k'', Some (104, [1, 2]), None)) \<and>
   backwardConv (liveStorageCodec tagged_arco) ''k'' [] = Some ([], None, Some ''failed to decode data'')"
proof -
  have law: "arco_law tagged_arco" by (simp add: arco_law_def tagged_arco_def arcoIds_def)
  show ?thesis
    using live_codecs_roundtrip [OF law, of "(104, [1, 2])" "''k''"] by (auto simp: tagged_arco_def arcoIds_def)
qed

text \<open>
  C39. The writer of a snapshot cannot import a block-bound path below an account: its filter asks a nil platform
  and panics, where the filter of the proxy's writers answers.
\<close>
theorem snapshot_import_panics:
  assumes "cell_law (hCell H)" "path_law (hCell H) V" "valueAt (hCell H) h r = Some v" "isCRDT (hCell H) v"
    and "vTypeID V v = vPATH V" "pathIsBlockBound V v" "pathAt (hCell H) h r = Some p" "64 < length p"
    and "w \<in> set (EthStateSnapshot_GetWriters (hCell H) V)"
  shows "EthStorageWriter_Import H (r # ts) (h, world) w = None \<and>
    NonTransientOnly (hCell H) V platform r h \<noteq> None"
proof -
  have path: "isPath V v" using assms(2,4,5) by (simp add: path_law_def)
  have "eiFilter (eswIndexer w) = Some (nilPlatformFilter (hCell H) V)"
    using assms(9) by (simp add: EthStateSnapshot_GetWriters_def NewEthStorageWriter_def NewEthIndexer_def)
  moreover have "nilPlatformFilter (hCell H) V r h = None"
    using assms(3-8) path by (simp add: nilPlatformFilter_def account_lengths)
  ultimately show ?thesis
    using assms(3-8) path by (simp add: EthStorageWriter_Import_def EthIndexer_Import_def NonTransientOnly_def Let_def)
qed

definition boundPath :: "wval path_api" where
  "boundPath = \<lparr>vTypeID = (\<lambda>_. 1), vPATH = 1, isPath = (\<lambda>_. True), pathIsBlockBound = (\<lambda>_. True), pathReset = (\<lambda>v. v)\<rparr>"

theorem snapshot_import_panics_witness:
  "EthStorageWriter_Import fin_ethw [2] (twoCells, oneAccount) (NewEthStorageWriter (- 1) (Some (nilPlatformFilter val_api boundPath))) = None"
proof -
  have law: "cell_law (hCell fin_ethw)" "path_law (hCell fin_ethw) boundPath"
    by (simp_all add: val_api_law path_law_def boundPath_def)
  have cell: "valueAt (hCell fin_ethw) twoCells 2 = Some nonce7" "isCRDT (hCell fin_ethw) nonce7"
    "pathAt (hCell fin_ethw) twoCells 2 = Some nonceKey" "64 < length nonceKey"
    by (simp_all add: twoCells_def nonceKey_def acctPath_def sampleAddr_def) (simp add: val_api_def)
  have w: "NewEthStorageWriter (- 1) (Some (nilPlatformFilter val_api boundPath)) \<in>
      set (EthStateSnapshot_GetWriters (hCell fin_ethw) boundPath)"
    by (simp add: EthStateSnapshot_GetWriters_def)
  show ?thesis
    using snapshot_import_panics [OF law cell(1,2) _ _ cell(3,4) w, of "[]" oneAccount "\<lparr>defaultPaths = Map.empty\<rparr>"] by (simp add: boundPath_def)
qed

end
