(* ===== verification/Node.thy ===== *)
theory Node
  imports Engine EthEngine Proxy
begin

text \<open>
  All writers of a node under one committer: the execution cache writer of the execution store and the
  writers of its storage proxy, as \<open>ExecutionStateStore.GetWriters\<close> returns them. They provide the contract
  of a writer that carries blocks, one block after the other.
\<close>

section \<open>The writers of a node\<close>

text \<open>A writer behind the Go interface; the Ethereum writer is taken with the world state it writes to.\<close>

type_synonym ('v, 'c, 'k, 's, 't, 'd, 'b) nodeWriter =
  "('v, 'c, 'k, bytes, 's) engineWriter + 'c EthStorageWriter \<times> ('t, 'd, 'b) EthWorldState"

definition asWriter ::
  "('t, 'd, 'b) EthWorldState \<Rightarrow> ('v, 'c) ExecutionCacheWriter + ('c, 'v, 'k, 's) proxyWriter \<Rightarrow>
   ('v, 'c, 'k, 's, 't, 'd, 'b) nodeWriter" where
  "asWriter world w =
     (case w of
        Inl e \<Rightarrow> Inl (ExecW e)
      | Inr (CacheWriter c) \<Rightarrow> Inl (CacheW c)
      | Inr (EthWriter e) \<Rightarrow> Inr (e, world)
      | Inr (StorageWriter s) \<Rightarrow> Inl (StgW s))"

abbreviation nodeOps ::
  "('c, 'v, 't, 'n, 'd, 'b) ethw_lib \<Rightarrow> ('c, 'v, 'k) livecache_lib \<Rightarrow> ('c, 'v, bytes, 's) livestg_lib \<Rightarrow>
   (('v, 'c, 'k, 's, 't, 'd, 'b) nodeWriter, 'c) StoreWriter" where
  "nodeOps H K S \<equiv> sumOps (engineOps (hCell H) K S) (ethOps H)"

text \<open>The transitions that the filter of the proxy accepts.\<close>

abbreviation persistent :: "('c, 'v, 't, 'n, 'd, 'b) ethw_lib \<Rightarrow> 'c \<Rightarrow> bool" where
  "persistent H c \<equiv> \<not> IsBlockBound (hCell H) c"

definition nodeFresh ::
  "('c, 'v, 't, 'n, 'd, 'b) ethw_lib \<Rightarrow> ('c, 'v, 'k) livecache_lib \<Rightarrow> ('c, 'v, bytes, 's) livestg_lib \<Rightarrow> bytes set \<Rightarrow>
   ('v, 'c, 'k, 's, 't, 'd, 'b) nodeWriter \<Rightarrow> bool" where
  "nodeFresh H K S D =
     case_sum (\<lambda>w. engineReady (hCell H) K S (persistent H) \<and> engineFresh K S (persistent H) w) (ethFresh H (persistent H) D)"

text \<open>A writer after some generations of a block, what closing a generation does to it, and what a block does.\<close>

definition nodeStaged ::
  "('c, 'v, 't, 'n, 'd, 'b) ethw_lib \<Rightarrow> ('c, 'v, 'k) livecache_lib \<Rightarrow> ('c, 'v, bytes, 's) livestg_lib \<Rightarrow> bytes set \<Rightarrow> 'c generation list \<Rightarrow>
   ('v, 'c, 'k, 's, 't, 'd, 'b) nodeWriter \<Rightarrow> ('v, 'c, 'k, 's, 't, 'd, 'b) nodeWriter \<Rightarrow> bool" where
  "nodeStaged H K S D gs =
     sumRel (\<lambda>w w'. engineReady (hCell H) K S (persistent H) \<and> engineStaged (hCell H) K S (persistent H) gs w w')
       (ethStaged H (persistent H) D gs)"

definition nodeServed ::
  "('c, 'v, 't, 'n, 'd, 'b) ethw_lib \<Rightarrow> 'c generation list \<Rightarrow> 'c heap \<Rightarrow>
   ('v, 'c, 'k, 's, 't, 'd, 'b) nodeWriter \<Rightarrow> ('v, 'c, 'k, 's, 't, 'd, 'b) nodeWriter \<Rightarrow> bool" where
  "nodeServed H gs h = sumRel (engineServed (hCell H) gs h) (\<lambda>_ _. True)"

definition nodeOutcome ::
  "('c, 'v, 't, 'n, 'd, 'b) ethw_lib \<Rightarrow> ('c, 'v, 'k) livecache_lib \<Rightarrow> ('c, 'v, bytes, 's) livestg_lib \<Rightarrow> 'c generation list \<Rightarrow>
   ('v, 'c, 'k, 's, 't, 'd, 'b) nodeWriter \<Rightarrow> err \<Rightarrow> ('v, 'c, 'k, 's, 't, 'd, 'b) nodeWriter \<Rightarrow> bool" where
  "nodeOutcome H K S gs w e =
     sumRel (\<lambda>w. engineOutcome (hCell H) K S (persistent H) gs w e) (\<lambda>x. ethOutcome H (persistent H) gs x e) w"

text \<open>What a generation has to satisfy: its transitions can be merged, and the batches of the Ethereum accounts fit.\<close>

definition nodeAdmissible ::
  "('c, 'v, 't, 'n, 'd, 'b) ethw_lib \<Rightarrow> bytes set \<Rightarrow> 'c generation list \<Rightarrow> 'c heap \<Rightarrow> u64 list \<Rightarrow> ref list \<Rightarrow> bool" where
  "nodeAdmissible H D gs h txs ts \<longleftrightarrow> mergeable (hCell H) h txs ts \<and> ethAdmissible H (persistent H) D gs h txs ts"

interpretation node: block_writer "hCell H" "nodeOps H K S" "nodeFresh H K S D" "nodeStaged H K S D"
  "\<lambda>h ts. sumRel (engineImported K S (persistent H) ts (filter (\<lambda>r. persistent H (cellAt h r)) ts)) (ethImported H (persistent H) h ts)"
  "\<lambda>gs h txs ts. True \<and> ethAdmissible H (persistent H) D gs h txs ts" "nodeServed H" "nodeOutcome H K S"
  for H :: "('c, 'v, 't, 'n, 'd, 'b) ethw_lib" and K :: "('c, 'v, 'k) livecache_lib" and S :: "('c, 'v, bytes, 's) livestg_lib" and D
  unfolding nodeFresh_def nodeStaged_def [abs_def] nodeServed_def [abs_def] nodeOutcome_def [abs_def]
  by (rule block_writer_sum [OF ew.block_writer_axioms eth.block_writer_axioms])

text \<open>Between generations, transactions write to the execution store and read from the Ethereum store.\<close>

definition execEnv ::
  "('v, 'c, 'k, 's, 't, 'd, 'b) nodeWriter \<Rightarrow> ('v, 'c, 'k, 's, 't, 'd, 'b) nodeWriter \<Rightarrow> bool" where
  "execEnv = sumRel (\<lambda>w w'. w' = w \<or> (\<exists>e store. w = ExecW e \<and> w' = ExecW (e\<lparr>ecwStore := store\<rparr>)))
     (\<lambda>x x'. fst x' = fst x \<and> heapGrows (snd x) (snd x'))"

lemma execEnv_staged:
  assumes "execEnv w w'" "nodeStaged H K S D gs w0 w"
  shows "nodeStaged H K S D gs w0 w'"
proof (cases w0)
  case (Inl a0)
  then obtain a where "w = Inl a" "engineStaged (hCell H) K S (persistent H) gs a0 a" using assms(2) by (auto simp: nodeStaged_def)
  then show ?thesis using assms Inl by (auto simp: execEnv_def nodeStaged_def engineStaged_def split: engineWriter.splits)
next
  case (Inr x0)
  then obtain e u where x: "w = Inr (e, u)" "ethStaged H (persistent H) D gs x0 (e, u)" using assms(2) by (auto simp: nodeStaged_def)
  then obtain u' where "w' = Inr (e, u')" "heapGrows u u'" using assms(1) by (auto simp: execEnv_def)
  then show ?thesis using ethStaged_grows [OF x(2)] Inr by (simp add: nodeStaged_def)
qed

text \<open>The writers that a store over a proxy returns are at the beginning of a block.\<close>

lemma GetWriters_four:
  assumes "committedStore store = Some cs" "versioned cs = Some (GetWriters P A V px)"
    and "ExecutionStateStore_GetWriters versioned store = Some gws"
  shows "length gws = 4"
    "i < 4 \<Longrightarrow> gws ! i = (if i = 0 then Inl \<lparr>ecwIndexer = NewExecutionCacheIndexer (sint (stateVersion store)) None, ecwStore = store\<rparr>
       else if i = 1 then Inr (CacheWriter (NewLiveCacheWriter (pCache P (pxStore px)) (- 1) (Some (NonTransientOnly A V (pxPlatform px)))))
       else if i = 2 then Inr (EthWriter (NewEthStorageWriter (- 1) (Some (NonTransientOnly A V (pxPlatform px)))))
       else Inr (StorageWriter (NewLiveStorageWriter (pBackend P (pxStore px)) (- 1) (Some (NonTransientOnly A V (pxPlatform px))))))"
  using assms
  by (auto simp: ExecutionStateStore_GetWriters_def GetWriters_def SyncWriters_def AsyncWriters_def less_Suc_eq numeral_eq_Suc)

lemma GetWriters_fresh:
  assumes laws: "ethw_law H" "engine_law (hCell H) K S" "path_law (hCell H) V"
    and px: "settled H D {} world" "pBackend P (pxStore px) \<noteq> None"
    and gws: "committedStore store = Some cs" "versioned cs = Some (GetWriters P (hCell H) V px)"
      "ExecutionStateStore_GetWriters versioned store = Some gws" "i < 4"
  shows "nodeFresh H K S D (asWriter world (gws ! i))"
proof -
  let ?A = "hCell H" and ?f = "NonTransientOnly (hCell H) V (pxPlatform px)"
  have f: "filt_law ?A (persistent H) ?f" by (rule NonTransientOnly_law) (use laws in \<open>simp_all add: engine_law_def\<close>)
  have K: "livecache_law K" "lcCell K = ?A" and S: "livestg_law S" "lsCell S = ?A" using laws(2) by (simp_all add: engine_law_def)
  have r: "engineReady ?A K S (persistent H)" using laws(2) f by (auto simp: engineReady_def)
  have c: "lcwInv K (persistent H) (NewLiveCacheWriter (pCache P (pxStore px)) (- 1) (Some ?f))"
    by (rule lcwInv_New) (use K f in simp_all)
  have s: "lswInv S (persistent H) (NewLiveStorageWriter (pBackend P (pxStore px)) (- 1) (Some ?f))"
    using S f by (auto simp: lswInv_def NewLiveStorageWriter_def NewLiveStgIndexer_def)
  show ?thesis unfolding GetWriters_four(2) [OF gws] using r c s f px laws(1)
    by (auto simp: asWriter_def nodeFresh_def engineFresh_def ethFresh_def NewExecutionCacheIndexer_def NewEthStorageWriter_def
        NewEthIndexer_def NewLiveCacheWriter_def NewLiveCacheIndexer_def NewLiveStorageWriter_def NewLiveStgIndexer_def)
qed

text \<open>Whatever blocks a committer over these writers has processed, it is ready for more.\<close>

lemma node_ready:
  assumes "committer_law L" "lCell L = hCell H" "moveif_keeps L" "ethw_law H" "engine_law (hCell H) K S" "path_law (hCell H) V"
    and "committedStore store = Some cs" "versioned cs = Some (GetWriters P (hCell H) V px)"
    and "ExecutionStateStore_GetWriters versioned store = Some gws" "settled H D {} world" "pBackend P (pxStore px) \<noteq> None"
    and "c0 = NewStateCommitter L (nodeOps H K S) [0..<4] (\<lambda>i. asWriter world (gws ! i))"
    and "committerReach L (nodeOps H K S) (nodeAdmissible H D) execEnv c0 gs w0 h c"
  shows "committerReady (\<lambda>i. nodeStaged H K S D gs (w0 i)) [0..<4] (\<lambda>i. wIsSync (nodeOps H K S) (asWriter world (gws ! i))) c"
    "closedGens (hCell H) gs h"
proof -
  have new: "committerReady (\<lambda>_. nodeFresh H K S D) [0..<4] (\<lambda>i. wIsSync (nodeOps H K S) (asWriter world (gws ! i))) c0" unfolding assms(12)
    by (rule committerReady_New [OF assms(1) _ NewStateCommitter_keeps [OF assms(3)]]) (use GetWriters_fresh [OF assms(4-6,10,11,7-9)] in auto)
  have "True \<and> ethAdmissible H (persistent H) D gs h txs ts \<and> mergeable (hCell H) h txs ts" if "nodeAdmissible H D gs h txs ts" for gs h txs ts
    using that by (simp add: nodeAdmissible_def)
  then have "committerReady (\<lambda>i. nodeStaged H K S D gs (w0 i)) [0..<4] (\<lambda>i. wIsSync (nodeOps H K S) (asWriter world (gws ! i))) c \<and>
    closedGens (hCell H) gs h"
    by (intro node.reach_ready [OF assms(1,2) _ execEnv_staged assms(13) new]) auto
  then show "committerReady (\<lambda>i. nodeStaged H K S D gs (w0 i)) [0..<4] (\<lambda>i. wIsSync (nodeOps H K S) (asWriter world (gws ! i))) c"
    "closedGens (hCell H) gs h" by blast+
qed

section \<open>A concrete node\<close>

text \<open>A storage proxy over maps, with cells of the codec's values and finite tries. Every value counts as a
  block-bound path whose reset changes nothing, so that importing leaves the heap alone.\<close>

definition map_proxy_lib :: "(wval, unit, (string \<rightharpoonup> wval) \<times> (string \<rightharpoonup> bytes), string \<rightharpoonup> wval, string \<rightharpoonup> bytes) proxy_lib" where
  "map_proxy_lib = \<lparr>pNew = (\<lambda>_ _ _ _. (Map.empty, Map.empty)),
     pArco = \<lparr>acEncode = wbytes, acTypeID = (\<lambda>_. 103), acIsCRDT = (\<lambda>_. True), idString = 101, idBigint = 102,
       idBytesNC = 103, idPath = 104, idInt64C = 105, idUint64C = 106, idU256 = 107, idInt64NC = 108,
       acDecodeAs = (\<lambda>_ b. blank\<lparr>wkind := NBytes, wbytes := b\<rparr>)\<rparr>,
     pMemSize = (\<lambda>_. 0), pMemDB = (), pCache = fst, pBackend = (\<lambda>s. Some (snd s))\<rparr>"

definition sampleProxy :: "(ftrie, bytes list, bytes \<rightharpoonup> bytes, (string \<rightharpoonup> wval) \<times> (string \<rightharpoonup> bytes)) StorageProxy" where
  "sampleProxy = NewMemDBStoreProxy map_proxy_lib fin_lib sample_ids [] (\<lambda>_. Map.empty)"

abbreviation sampleWorld :: "(ftrie, bytes list, bytes \<rightharpoonup> bytes) EthWorldState" where
  "sampleWorld \<equiv> NewParallelEthMemDataStore fin_lib [] (\<lambda>_. Map.empty)"

definition sampleStore :: "wval ExecutionStateStore" where
  "sampleStore = NewExecutionStateStore sample_ids
     (Some \<lparr>csHas = (\<lambda>_. False), csGet = (\<lambda>_. (None, None)), csGetAs = (\<lambda>_ _. (None, None))\<rparr>)"

abbreviation sampleWriters :: "((wval, wval vcell) ExecutionCacheWriter + (wval vcell, wval, string \<rightharpoonup> wval, string \<rightharpoonup> bytes) proxyWriter) list" where
  "sampleWriters \<equiv> the (ExecutionStateStore_GetWriters (\<lambda>_. Some (GetWriters map_proxy_lib val_api boundPath sampleProxy)) sampleStore)"

abbreviation sampleObjs where
  "sampleObjs i \<equiv> asWriter sampleWorld (sampleWriters ! i)"

abbreviation sampleOps where
  "sampleOps \<equiv> nodeOps fin_ethw (seq_cache val_api) (seq_stg val_api wbytes)"

lemma sample_laws:
  "mergeable (val_api :: ('v vcell, 'v) cell_api) h txs ts" "engine_law val_api (seq_cache val_api) (seq_stg val_api wbytes)" "path_law val_api boundPath"
  "inj_on (keccak fin_lib) {b. length b = 20}"
proof -
  show "mergeable (val_api :: ('v vcell, 'v) cell_api) h txs ts"
    by (auto simp: mergeable_def mergedCell_def typedCell_def val_api_def split: option.split)
  show "engine_law val_api (seq_cache val_api) (seq_stg val_api wbytes)"
    unfolding engine_law_def by (intro conjI val_api_law seq_cache_law seq_stg_law) (simp_all add: seq_stg_def seq_cache_def)
  show "path_law val_api boundPath" by (simp add: path_law_def boundPath_def val_api_def)
  show "inj_on (keccak fin_lib) {b. length b = 20}" by (rule inj_onI) (simp add: fin_lib_def)
qed

lemma sample_writers:
  "ExecutionStateStore_GetWriters (\<lambda>_. Some (GetWriters map_proxy_lib val_api boundPath sampleProxy)) sampleStore = Some sampleWriters"
  by (simp add: ExecutionStateStore_GetWriters_def sampleStore_def NewExecutionStateStore_def)

text \<open>Importing leaves the heap alone.\<close>

lemma set_own_value: "valueAt val_api h r = Some x \<Longrightarrow> upd r (SetValue val_api (Some x)) h = h"
  by (cases h; cases "cellAt h r") (auto simp: upd_def val_api_def)

lemma val_preload: "Preload val_api k x = x"
  by (simp add: val_api_def)

lemma boundPath_filter: "NonTransientOnly val_api boundPath pl r h = Some (b, h') \<Longrightarrow> h' = h"
  by (auto simp: NonTransientOnly_def boundPath_def Let_def set_own_value simp del: val_api_sel split: option.splits if_splits)

lemma importLoop_heap:
  "lciImportLoop (Some (NonTransientOnly val_api boundPath pl)) ts (buf, h) = Some (buf', h') \<Longrightarrow> h' = h"
  "lsiImportLoop A (Some (NonTransientOnly val_api boundPath pl)) ts (buf, h) = Some (buf', h') \<Longrightarrow> h' = h"
  by (induction ts arbitrary: buf h) (auto simp: bind_eq_Some_conv split: if_splits dest!: boundPath_filter)

lemma sample_wImport:
  assumes "i < 4" "wImport sampleOps ts h (sampleObjs i) = Some (w, h')"
  shows "h' = h"
proof -
  have cs: "committedStore sampleStore = Some (the (committedStore sampleStore))" by (simp add: sampleStore_def NewExecutionStateStore_def)
  note w = GetWriters_four(2) [OF cs refl sample_writers assms(1)]
  have ixl: "indexer_law (hIndexer fin_ethw)" using fin_ethw_law by (simp add: ethw_law_def)
  have eth: "fst hw' = h1" if imp: "EthStorageWriter_Import fin_ethw ts (h1, u) (NewEthStorageWriter (- 1)
      (Some (NonTransientOnly val_api boundPath (pxPlatform sampleProxy)))) = Some (e, hw')" for h1 u e hw'
  proof -
    obtain rs h2 idx where l: "lsiImportLoop val_api (Some (NonTransientOnly val_api boundPath (pxPlatform sampleProxy))) ts ([], h1) = Some (rs, h2)"
      "importSpec (addrKey fin_ethw) (acctInit fin_ethw) acctExtend rs (Map.empty, (h2, u)) = Some (idx, hw')"
      using imp by (auto simp: EthStorageWriter_Import_def EthIndexer_Import_def NewEthStorageWriter_def NewEthIndexer_def
          bind_eq_Some_conv indexer_law_import [OF ixl])
    have "fst hw' = fst (h2, u)"
      by (rule importSpec_keeps [OF _ _ l(2)]) (auto simp: acctInit_def acctExtend_def bind_eq_Some_conv)
    then show ?thesis using importLoop_heap(2) [OF l(1)] by simp
  qed
  show ?thesis using assms(2) eth unfolding w asWriter_def
    by (auto simp: sumOps_def engineOps_def engineImport_def ethOps_def LiveCacheWriter_Import_def LiveCacheIndexer_Import_def
        LiveStorageWriter_Import_def LiveStgIndexer_Import_def NewLiveCacheWriter_def NewLiveCacheIndexer_def
        NewLiveStorageWriter_def NewLiveStgIndexer_def bind_eq_Some_conv map_option_case dest: importLoop_heap
        split: if_splits option.splits)
qed

lemma importWriters_keeps:
  assumes "\<And>i w h'. i \<in> set ws \<Longrightarrow> wImport W ts h (objs i) = Some (w, h') \<Longrightarrow> h' = h" "distinct ws"
    and "importWriters W ts ws (objs, h) = Some (objs', h')"
  shows "h' = h"
  using assms
proof (induction ws arbitrary: objs)
  case (Cons i ws)
  then obtain w where 1: "wImport W ts h (objs i) = Some (w, h)" "importWriters W ts ws (objs(i := w), h) = Some (objs', h')"
    by (force simp: bind_eq_Some_conv)
  show ?case
  proof (rule Cons.IH [OF _ _ 1(2)])
    show "h' = h" if "j \<in> set ws" "wImport W ts h ((objs(i := w)) j) = Some (w', h')" for j w' h'
      using that Cons.prems(1) [of j w' h'] Cons.prems(2) by (auto split: if_splits)
    show "distinct ws" using Cons.prems(2) by simp
  qed
qed simp

lemma sample_import:
  assumes "Import (seq_lib val_api) sampleOps ts (NewStateCommitter (seq_lib val_api) sampleOps ws objs, h) = Some (c1, h1)" "distinct ws"
    and "\<And>i. i \<in> set ws \<Longrightarrow> \<exists>j < 4. objs i = sampleObjs j"
  shows "h1 = h"
proof -
  let ?new = "NewStateCommitter (seq_lib val_api) sampleOps ws objs"
  have new: "writers ?new = ws" "wobj ?new = objs" "byPath ?new = Map.empty" "byTxID ?new = Map.empty"
    by (simp_all add: NewStateCommitter_def seq_lib_def)
  obtain bp h2 bt h3 objs' where run: "importSpec (pathKey val_api) (pathInit val_api) appendRef ts (Map.empty, h) = Some (bp, h2)"
    "importSpec (txKey val_api) txInit appendRef ts (Map.empty, h2) = Some (bt, h3)"
    "importWriters sampleOps ts ws (objs, h3) = Some (objs', h1)"
    using assms(1) unfolding Import_def PathIndexer_Import_def TxIndexer_Import_def prod.case new
    by (auto simp: bind_eq_Some_conv) (simp add: seq_lib_def keyOrderIndexer_def)
  have 2: "h2 = h" by (rule importSpec_keeps [OF _ _ run(1), of "\<lambda>x. x"])
    (auto simp: pathInit_def appendRef_def set_own_value val_preload simp del: val_api_sel split: option.splits if_splits)
  have 3: "h3 = h2" by (rule importSpec_keeps [OF _ _ run(2), of "\<lambda>x. x"]) (auto simp: txInit_def appendRef_def)
  have "h1 = h3"
  proof (rule importWriters_keeps [OF _ assms(2) run(3)])
    show "h' = h3" if "i \<in> set ws" "wImport sampleOps ts h3 (objs i) = Some (w, h')" for i w h'
      using assms(3) [OF that(1)] sample_wImport [of _ ts h3 w h'] that(2) by metis
  qed
  then show ?thesis using 2 3 by simp
qed

text \<open>A block that sets the nonce and a storage slot of an account.\<close>

lemma two_paths: "pathAddr fin_lib slotKey = pathAddr fin_lib nonceKey" "nonceKey \<noteq> slotKey"
  by (simp_all add: pathAddr_def nonceKey_def slotKey_def EthAccount.acctPath_def sampleAddr_def GetAccountAddr_def ParseAccountAddr_def account_lengths
      ETH_ACCOUNT_PREFIX_eq)

lemma two_committed:
  "committedCell val_api acc twoCells txs [2, 3] p =
     (if p = nonceKey \<and> acc (cellAt twoCells 2) then Some (cellAt twoCells 2)
      else if p = slotKey \<and> acc (cellAt twoCells 3) then Some (cellAt twoCells 3) else None)"
proof -
  have "survivors val_api twoCells txs [2, 3] p = (if p = nonceKey then [2] else if p = slotKey then [3] else [])"
    using two_paths(2) by (auto simp: survivors_def kept_def twoCells_def) (simp_all add: val_api_def)
  then show ?thesis using two_paths(2)
    by (auto simp: committedCell_def headCell_def mergedCell_def sortSeq_def Let_def) (simp_all add: val_api_def)
qed

lemma two_elements: "distinct ps \<Longrightarrow> set ps = {a, b} \<Longrightarrow> a \<noteq> b \<Longrightarrow> ps = [a, b] \<or> ps = [b, a]"
proof -
  assume a: "distinct ps" "set ps = {a, b}" "a \<noteq> b"
  then have "length ps = 2" by (metis card_2_iff distinct_card)
  then obtain x y where "ps = [x, y]" by (auto simp: length_Suc_conv numeral_2_eq_2)
  then show ?thesis using a by (auto simp: doubleton_eq_iff)
qed

lemma sample_changed:
  "touched fin_ethw (persistent fin_ethw) twoCells [2, 3] = {pathAddr fin_lib nonceKey}"
  "changedPaths fin_ethw (persistent fin_ethw) twoCells txs [2, 3] (pathAddr fin_lib nonceKey) = {nonceKey, slotKey}"
proof -
  have acc: "persistent fin_ethw c" for c by (simp add: val_api_def)
  show "touched fin_ethw (persistent fin_ethw) twoCells [2, 3] = {pathAddr fin_lib nonceKey}"
    using two_paths(1) by (auto simp: touched_def addrOf_pathAddr acc simp del: fin_ethw_sel(2)) (auto simp: twoCells_def)
  show "changedPaths fin_ethw (persistent fin_ethw) twoCells txs [2, 3] (pathAddr fin_lib nonceKey) = {nonceKey, slotKey}"
    using two_paths acc by (auto simp: changedPaths_def two_committed)
qed

lemma sample_batch:
  assumes "distinct ps" "set ps = {nonceKey, slotKey}"
  shows "batchFit fin_eth (blockBatch fin_ethw (persistent fin_ethw) twoCells txs [2, 3] ps)"
    "updParts (zip (fst (blockBatch fin_ethw (persistent fin_ethw) twoCells txs [2, 3] ps))
        (snd (blockBatch fin_ethw (persistent fin_ethw) twoCells txs [2, 3] ps))) =
       (Some (nonceKey, Some nonce7), None, None, [(slotKey, Some bytes9)])"
    "fst (blockBatch fin_ethw (persistent fin_ethw) twoCells txs [2, 3] ps) \<noteq> []"
proof -
  have acc: "persistent fin_ethw c" for c by (simp add: val_api_def)
  have val: "Value val_api (the (committedCell val_api (persistent fin_ethw) twoCells txs [2, 3] nonceKey)) = Some nonce7"
    "Value val_api (the (committedCell val_api (persistent fin_ethw) twoCells txs [2, 3] slotKey)) = Some bytes9"
    using acc two_paths(2) by (simp_all add: two_committed) (simp_all add: twoCells_def)
  have swapped: "updParts (zip [slotKey, nonceKey] [Some bytes9, Some nonce7]) =
     (Some (nonceKey, Some nonce7), None, None, [(slotKey, Some bytes9)])"
    by (simp add: updParts_def sample_suffixes) (simp add: nonceKey_def slotKey_def EthAccount.acctPath_def sampleAddr_def isAccountRoot_def
      HasSuffix_def account_lengths ETH_ACCOUNT_PREFIX_eq PATH_NONCE_def PATH_BALANCE_def PATH_CODE_def suffix_def)
  show parts: "updParts (zip (fst (blockBatch fin_ethw (persistent fin_ethw) twoCells txs [2, 3] ps))
        (snd (blockBatch fin_ethw (persistent fin_ethw) twoCells txs [2, 3] ps))) =
       (Some (nonceKey, Some nonce7), None, None, [(slotKey, Some bytes9)])"
    using two_elements [OF assms two_paths(2)] val swapped sample_parts(1) by (auto simp: blockBatch_def simp del: zip_Cons_Cons)
  show "batchFit fin_eth (blockBatch fin_ethw (persistent fin_ethw) twoCells txs [2, 3] ps)"
    using sample_ok(1) unfolding batchFit_def parts batchOk_def sample_parts by simp
  show "fst (blockBatch fin_ethw (persistent fin_ethw) twoCells txs [2, 3] ps) \<noteq> []" using assms(2) by (auto simp: blockBatch_def)
qed

lemma sample_admissible: "nodeAdmissible fin_ethw {b. length b = 20} [] twoCells txs [2, 3]"
proof -
  have "length (pathAddr fin_lib nonceKey) = 20" using fin_hexutil_law by (simp add: pathAddr_def hexutil_law_def)
  then have "ethAdmissible fin_ethw (persistent fin_ethw) {b. length b = 20} [] twoCells txs [2, 3]"
    unfolding ethAdmissible_def sample_changed(1) using sample_changed(2) sample_batch(1) by simp
  then show ?thesis unfolding nodeAdmissible_def fin_ethw_sel(2) using sample_laws(1) by blast
qed

text \<open>What such a block leaves in the Ethereum store.\<close>

abbreviation sampleEthWriter where
  "sampleEthWriter \<equiv> Inr (NewEthStorageWriter (- 1) (Some (NonTransientOnly val_api boundPath (pxPlatform sampleProxy))), sampleWorld)"

lemma sample_outcome:
  assumes "nodeOutcome fin_ethw (seq_cache val_api) (seq_stg val_api wbytes)
    [\<lparr>genHeap = twoCells, genTxs = txs, genTrans = [2, 3], genDone = h2\<rparr>] sampleEthWriter err w'"
  shows "\<exists>e w r. w' = Inr (e, w) \<and> accountCache w (pathAddr fin_lib nonceKey) = Some r \<and>
    saNonce (acState (acctAt w r)) = 7 \<and> storageOf fin_eth (acctAt w r) slot5 = [0, 9]"
proof -
  let ?g = "\<lparr>genHeap = twoCells, genTxs = txs, genTrans = [2, 3], genDone = h2\<rparr>"
  have cell: "hEth fin_ethw = fin_eth" by simp
  obtain e w where w: "w' = Inr (e, w)" "ethOutcome fin_ethw (persistent fin_ethw) [?g]
       (NewEthStorageWriter (- 1) (Some (NonTransientOnly val_api boundPath (pxPlatform sampleProxy))), sampleWorld) err (e, w)"
    using assms by (auto simp: nodeOutcome_def)
  have touched: "touchedIn fin_ethw (persistent fin_ethw) [?g] = {pathAddr fin_lib nonceKey}"
    using sample_changed(1) by (simp add: touchedIn_def genTouched_def)
  obtain r a where out: "accountCache w (pathAddr fin_lib nonceKey) = Some r"
    "updatedThrough fin_ethw (persistent fin_ethw) [?g] (pathAddr fin_lib nonceKey) (acctBefore fin_eth sampleWorld (pathAddr fin_lib nonceKey)) a"
    "acState (acctAt w r) = acState a" "storageOf fin_eth (acctAt w r) = storageOf fin_eth a"
    using bspec [OF conjunct1 [OF conjunct2 [OF w(2) [unfolded ethOutcome_def touched]]] singletonI] unfolding cell snd_conv by blast
  obtain ps where ps: "distinct ps" "set ps = {nonceKey, slotKey}"
    "updatedBy fin_eth (blockBatch fin_ethw (persistent fin_ethw) twoCells txs [2, 3] ps) (acctBefore fin_eth sampleWorld (pathAddr fin_lib nonceKey)) a"
    using out(2) sample_changed(2) by (auto simp: genBatch_def)
  note b = sample_batch(2,3) [OF ps(1,2)]
  have "saNonce (acState a) = 7" "storageOf fin_eth a slot5 = [0, 9]"
    using ps(3) unfolding updatedBy_def b(1) using b(2)
    by (auto simp: updatedAccount_def updatedState_def fieldVal_def nonce7_def blank_def sample_slots overlay_def)
  then show ?thesis using w(1) out(1,3,4) by auto
qed

text \<open>A generation through the committer of the concrete node.\<close>

abbreviation sampleCommitter where
  "sampleCommitter \<equiv> NewStateCommitter (seq_lib val_api) sampleOps [0..<4] (\<lambda>i. sampleObjs i)"

lemma sample_node:
  "committer_law (seq_lib val_api :: (_, wval vcell, wval) committer_lib)" "lCell (seq_lib val_api :: (_, wval vcell, wval) committer_lib) = hCell fin_ethw"
  "moveif_keeps (seq_lib val_api :: (_, wval vcell, wval) committer_lib)" "ethw_law fin_ethw" "engine_law (hCell fin_ethw) (seq_cache val_api) (seq_stg val_api wbytes)"
  "path_law (hCell fin_ethw) boundPath" "committedStore sampleStore = Some (the (committedStore sampleStore))"
  "ExecutionStateStore_GetWriters (\<lambda>_. Some (GetWriters map_proxy_lib (hCell fin_ethw) boundPath sampleProxy)) sampleStore = Some sampleWriters"
  "ethStorage sampleProxy = Some sampleWorld" "settled fin_ethw {b. length b = 20} {} sampleWorld"
  "pBackend map_proxy_lib (pxStore sampleProxy) \<noteq> None"
  using seq_lib_law [OF val_api_law] sample_laws fin_ethw_law sample_writers settled_new [of fin_ethw "{b. length b = 20}"] fin_eth_law
  by (simp_all add: sampleStore_def NewExecutionStateStore_def sampleProxy_def NewMemDBStoreProxy_def map_proxy_lib_def
      moveif_keeps_def seq_lib_def)

lemma sample_generation:
  obtains c1 c2 h2 where "Import (seq_lib val_api) sampleOps [2, 3] (sampleCommitter, twoCells) = Some (c1, twoCells)"
    "DebugPrecommit (seq_lib val_api) sampleOps txs (c1, twoCells) = Some (c2, h2)"
    "committerReach (seq_lib val_api) sampleOps (nodeAdmissible fin_ethw {b. length b = 20}) execEnv sampleCommitter
       [\<lparr>genHeap = twoCells, genTxs = txs, genTrans = [2, 3], genDone = h2\<rparr>] (wobj sampleCommitter) h2 c2"
proof -
  let ?L = "seq_lib val_api" and ?D = "{b :: bytes. length b = 20}"
  have ts: "pathAt (hCell fin_ethw) twoCells r \<noteq> None" "typedAt (hCell fin_ethw) twoCells r" for r by (simp_all add: twoCells_def)
  note start = committerReach.start [of ?L sampleOps "nodeAdmissible fin_ethw ?D" execEnv sampleCommitter twoCells]
  note ready = node_ready [OF sample_node(1-7) refl sample_node(8,10,11) refl start]
  have d: "distinct [2, 3 :: nat]" "set [2, 3] \<inter> set (liveRefs (hCell fin_ethw) []) = {}" by (simp_all add: liveRefs_def)
  obtain c1 h1 where imp: "Import ?L sampleOps [2, 3] (sampleCommitter, twoCells) = Some (c1, h1)"
    "nodeAdmissible fin_ethw ?D [] h1 txs [2, 3] \<longrightarrow>
       (\<exists>c2 h2. DebugPrecommit ?L sampleOps txs (c1, h1) = Some (c2, h2))"
    using node.generation_run [OF sample_node(1,2) ready d ts, of txs] by (auto simp: nodeAdmissible_def)
  have h1: "h1 = twoCells" by (rule sample_import [OF imp(1)]) auto
  then obtain c2 h2 where pc: "DebugPrecommit ?L sampleOps txs (c1, twoCells) = Some (c2, h2)" using imp(2) sample_admissible by auto
  have "committerReach ?L sampleOps (nodeAdmissible fin_ethw ?D) execEnv sampleCommitter
      ([] @ [\<lparr>genHeap = twoCells, genTxs = txs, genTrans = [2, 3], genDone = h2\<rparr>]) (wobj sampleCommitter) h2 c2"
    by (rule committerReach.generation [OF start _ _ _ _ sample_admissible pc]) (use imp(1) h1 ts in \<open>auto simp: liveRefs_def\<close>)
  then show ?thesis using that [OF _ pc] imp(1) h1 by simp
qed

end
