(* ===== verification/Harness.thy ===== *)
theory Harness
  imports Node
begin

text \<open>
  \<open>src/test/harness/util.go\<close>: accounts and injected values from an execution store through the committer into the
  writers of its storage proxy. This is the way of transitions from their execution to the stores in one piece.

  \<open>StateCells.To(InterProcTransition)\<close>, \<open>Encode\<close> and \<open>Decode\<close> of common-lib are parameters, and so is the view of a
  proxy as a committed store with the type assertion that gets the proxy back.
\<close>

section \<open>The operations (util.go)\<close>

record ('v, 'c, 't, 'd, 'b, 'cs) harness_lib =
  nView :: "('t, 'd, 'b, 'cs) StorageProxy \<Rightarrow> 'v ReadOnlyStore"
  nProxy :: "'v ReadOnlyStore option \<Rightarrow> ('t, 'd, 'b, 'cs) StorageProxy option"
  nToInterProc :: "ref list \<Rightarrow> 'c heap \<Rightarrow> ref list \<times> 'c heap"
  nEncode :: "'c heap \<Rightarrow> ref list \<Rightarrow> bytes option"
  nDecode :: "bytes \<Rightarrow> unit option"

text \<open>The writers of the proxy as objects under a committer; the Ethereum store of a proxy is never nil here, since
  only the constructors of file databases can leave it out.\<close>

definition proxyWriters ::
  "('v, 'db, 'cs, 'k, 's) proxy_lib \<Rightarrow> ('c, 'v) cell_api \<Rightarrow> 'v path_api \<Rightarrow> ('t, 'd, 'b, 'cs) StorageProxy \<Rightarrow>
   ('t, 'd, 'b) EthWorldState \<Rightarrow> nat \<Rightarrow> ('v, 'c, 'k, 's, 't, 'd, 'b) nodeWriter" where
  "proxyWriters P A V px world i = asWriter world (Inr (GetWriters P A V px ! i))"

text \<open>A new committer over the writers imports the transitions, precommits with the whitelist of transaction 1 and
  commits block 10.\<close>

definition commitTransitions ::
  "('w, 'c, 'v) committer_lib \<Rightarrow> ('w, 'c) StoreWriter \<Rightarrow> nat list \<Rightarrow> (nat \<Rightarrow> 'w) \<Rightarrow> ref list \<Rightarrow> 'c heap \<Rightarrow>
   ('w StateCommitter \<times> 'c heap) option" where
  "commitTransitions L W ws objs acctTrans h = do {
     let committer = NewStateCommitter L W ws objs;
     (committer, h) \<leftarrow> Import L W acctTrans (committer, h);
     (committer, h) \<leftarrow> DebugPrecommit L W [1] (committer, h);
     committer \<leftarrow> DebugCommit L W 10 h committer;
     Some (committer, h)
   }"

fun createAccounts ::
  "('v, 'c, 'm) exec_api \<Rightarrow> kvs_fun \<Rightarrow> sort1st_fun \<Rightarrow> type_ids \<Rightarrow> 'v init_values \<Rightarrow> (bytes \<Rightarrow> string) \<Rightarrow>
   bytes list \<Rightarrow> ('v, 'c) world \<Rightarrow> (err \<times> ('v, 'c) world) option" where
  "createAccounts X kvs SortBy1st ids iv encode [] w = Some (None, w)"
| "createAccounts X kvs SortBy1st ids iv encode (sender # accts) w = do {
     ((_, e), w) \<leftarrow> CreateDefaultPaths kvs SortBy1st ids iv (\<lambda>tx p v. xNew X tx p 0 1 0 v) (Has X)
       (\<lambda>tx p v. Write X tx p v None) 1 (encode sender) w;
     if e \<noteq> None then Some (Some (''Failed to create default paths for '' @ encode sender), w)
     else createAccounts X kvs SortBy1st ids iv encode accts w
   }"

definition CreateAccountInStore ::
  "('c, 'v, 't, 'n, 'd, 'b) ethw_lib \<Rightarrow> ('c, 'v, 'k) livecache_lib \<Rightarrow> ('c, 'v, bytes, 's) livestg_lib \<Rightarrow>
   (('v, 'c, 'k, 's, 't, 'd, 'b) nodeWriter, 'c, 'v) committer_lib \<Rightarrow> ('v, 'db, 'cs, 'k, 's) proxy_lib \<Rightarrow> 'v path_api \<Rightarrow>
   ('v, 'c, 't, 'd, 'b, 'cs) harness_lib \<Rightarrow> ('v, 'c, 'm) exec_api \<Rightarrow> kvs_fun \<Rightarrow> sort1st_fun \<Rightarrow> type_ids \<Rightarrow> 'v init_values \<Rightarrow>
   'd \<Rightarrow> (nat \<Rightarrow> 'b) \<Rightarrow> bytes list \<Rightarrow> 'c heap \<Rightarrow>
   (('v ExecutionStateStore option \<times> err \<times> ('v, 'c, 'k, 's, 't, 'd, 'b) nodeWriter StateCommitter option) \<times> 'c heap) option" where
  "CreateAccountInStore H K S L P V N X kvs SortBy1st ids iv db disks accts h = do {
     let writeCache = NewDefaultExecutionStateStore ids (Some (nView N (NewMemDBStoreProxy P (eTrie (hEth H)) ids db disks)));
     (e, w) \<leftarrow> createAccounts X kvs SortBy1st ids iv (hexEncode (eTrie (hEth H))) accts (writeCache, h);
     if e \<noteq> None then Some ((None, e, None), snd w)
     else do {
       let (raw, (writeCache, h)) = Export X [Some (xSorter X)] w;
       let (acctTrans, h) = nToInterProc N raw h;
       buffer \<leftarrow> nEncode N h acctTrans;
       _ \<leftarrow> nDecode N buffer;
       case nProxy N (committedStore writeCache) of
         None \<Rightarrow> Some ((None, Some ''failed to get storage proxy from execution state store'', None), h)
       | Some storeProxy \<Rightarrow> do {
           world \<leftarrow> ethStorage storeProxy;
           (committer, h) \<leftarrow> commitTransitions L (nodeOps H K S) [0..<3] (proxyWriters P (hCell H) V storeProxy world) acctTrans h;
           Some ((Some writeCache, None, Some committer), h)
         }
     }
   }"

fun injectLoop ::
  "('v, 'c, 'm) exec_api \<Rightarrow> string list \<Rightarrow> 'v option list \<Rightarrow> err \<Rightarrow> ('v, 'c) world \<Rightarrow> (err \<times> ('v, 'c) world) option" where
  "injectLoop X [] vals aggregatedErr w = Some (aggregatedErr, w)"
| "injectLoop X (key # keys) [] aggregatedErr w = None"
| "injectLoop X (key # keys) (v # vals) aggregatedErr w = do {
     ((_, e), w) \<leftarrow> Inject X SYSTEM key v w;
     injectLoop X keys vals (joinErrors [aggregatedErr, e]) w
   }"


section \<open>From the execution store to the writers\<close>

text \<open>The writers of a proxy are at the beginning of a block.\<close>

lemma proxyWriters_fresh:
  assumes "ethw_law H" "engine_law (hCell H) K S" "path_law (hCell H) V" "settled H D {} world" "pBackend P (pxStore px) \<noteq> None" "i < 3"
  shows "nodeFresh H K S D (proxyWriters P (hCell H) V px world i)"
proof -
  define store :: "'b ExecutionStateStore" where "store = NewExecutionStateStore sample_ids (Some undefined)"
  let ?gws = "Inl \<lparr>ecwIndexer = NewExecutionCacheIndexer (sint (stateVersion store)) None, ecwStore = store\<rparr> #
    map Inr (GetWriters P (hCell H) V px)"
  have cs: "committedStore store = Some undefined" by (simp add: store_def NewExecutionStateStore_def)
  have "ExecutionStateStore_GetWriters (\<lambda>_. Some (GetWriters P (hCell H) V px)) store = Some ?gws"
    by (simp add: ExecutionStateStore_GetWriters_def cs)
  moreover have "length (GetWriters P (hCell H) V px) = 3" by (simp add: GetWriters_def SyncWriters_def AsyncWriters_def)
  ultimately show ?thesis using GetWriters_fresh [OF assms(1-5) cs refl, of ?gws "Suc i"] assms(6) by (simp add: proxyWriters_def)
qed

lemma commitTransitions_ok:
  assumes L: "committer_law L" "lCell L = hCell H" "moveif_keeps L"
    and laws: "ethw_law H" "engine_law (hCell H) K S" "path_law (hCell H) V"
    and px: "settled H D {} world" "pBackend P (pxStore px) \<noteq> None"
    and new: "c0 = NewStateCommitter L (nodeOps H K S) [0..<3] (proxyWriters P (hCell H) V px world)"
    and ts: "distinct ts" "\<forall>r \<in> set ts. pathAt (hCell H) h r \<noteq> None \<and> typedAt (hCell H) h r"
    and adm: "\<forall>c1 h1. Import L (nodeOps H K S) ts (c0, h) = Some (c1, h1) \<longrightarrow> nodeAdmissible H D [] h1 [1] ts"
  shows "\<exists>c c1 c2 h1 h2. commitTransitions L (nodeOps H K S) [0..<3] (proxyWriters P (hCell H) V px world) ts h = Some (c, h2) \<and>
    Import L (nodeOps H K S) ts (c0, h) = Some (c1, h1) \<and> sameMeta (hCell H) h h1 \<and> DebugPrecommit L (nodeOps H K S) [1] (c1, h1) = Some (c2, h2) \<and>
    (\<forall>i < 3. \<exists>e. wCommit (nodeOps H K S) 10 h2 (wobj c2 i) = Some (wobj c i, e) \<and>
       nodeOutcome H K S [\<lparr>genHeap = h1, genTxs = [1], genTrans = ts, genDone = h2\<rparr>] (proxyWriters P (hCell H) V px world i) e (wobj c i))"
proof -
  let ?W = "nodeOps H K S" and ?objs = "proxyWriters P (hCell H) V px world"
  let ?sync = "\<lambda>i. wIsSync ?W (?objs i)"
  have "nodeStaged H K S D [] (?objs i) (?objs i)" if "i < 3" for i
    by (rule node.staged_start [OF proxyWriters_fresh [OF laws px that]])
  then have r: "committerReady (\<lambda>i. nodeStaged H K S D [] (?objs i)) [0..<3] ?sync c0" unfolding new(1)
    by (intro committerReady_New [OF L(1) _ NewStateCommitter_keeps [OF L(3)]]) auto
  have start: "closedGens (hCell H) [] h" "set ts \<inter> set (liveRefs (hCell H) []) = {}" by (simp_all add: closedGens_def liveRefs_def)
  obtain c1 h1 c2 h2 where run: "Import L ?W ts (c0, h) = Some (c1, h1)" "sameMeta (hCell H) h h1"
    "DebugPrecommit L ?W [1] (c1, h1) = Some (c2, h2)"
    "closedGens (hCell H) [\<lparr>genHeap = h1, genTxs = [1], genTrans = ts, genDone = h2\<rparr>] h2"
    "committerReady (\<lambda>i. nodeStaged H K S D [\<lparr>genHeap = h1, genTxs = [1], genTrans = ts, genDone = h2\<rparr>] (?objs i)) [0..<3] ?sync c2"
    using node.generation_run [OF L(1,2) r start(1) ts(1) start(2), of "[1]"] ts(2) adm by (auto simp: nodeAdmissible_def)
  obtain c where "DebugCommit L ?W 10 h2 c2 = Some c"
    "\<forall>i < 3. \<exists>e. wCommit ?W 10 h2 (wobj c2 i) = Some (wobj c i, e) \<and>
       nodeOutcome H K S [\<lparr>genHeap = h1, genTxs = [1], genTrans = ts, genDone = h2\<rparr>] (?objs i) e (wobj c i)"
    using node.commit_run [OF L(1) run(5,4), of 10] by auto
  then show ?thesis using run(1-3) new(1)
    by (intro exI [of _ c] exI [of _ c1] exI [of _ c2] exI [of _ h1] exI [of _ h2]) (simp add: commitTransitions_def)
qed

text \<open>With fewer values than keys the loop panics, after it has injected what there is.\<close>

lemma injectLoop_short: "length vals < length keys \<Longrightarrow> injectLoop X keys vals e w = None"
proof (induction keys arbitrary: vals e w)
  case (Cons key keys)
  show ?case
  proof (cases vals)
    case (Cons v vs)
    then show ?thesis using \<open>length vals < length (key # keys)\<close> Cons.IH by (cases "Inject X SYSTEM key v w") (auto split: prod.split)
  qed simp
qed simp


text \<open>Accounts are created without an error; what the store exports then can be imported.\<close>

lemma createAccounts_ok:
  assumes "kvs_law kvs" "sort1st_law SortBy1st" "ids_law T" "accountInv X T w"
    and "\<And>t v. defaultValue T iv t = Some v \<Longrightarrow> isCRDT (xCell X) v \<and> xTypeID X v \<noteq> 0"
    and "\<And>a. a \<in> set accts \<Longrightarrow> length (encode a) = 42 \<and> CHR ''/'' \<notin> set (encode a)"
  shows "\<exists>w1. createAccounts X kvs SortBy1st T iv encode accts w = Some (None, w1) \<and> accountInv X T w1 \<and>
    committedStore (fst w1) = committedStore (fst w) \<and> (\<forall>q. Has X q w \<longrightarrow> Has X q w1) \<and>
    (\<forall>a \<in> set accts. \<forall>b \<in> set builtinPaths. Has X (ETH_ACCOUNT_PREFIX @ encode a @ b) w1)"
  using assms(4,6)
proof (induction accts arbitrary: w)
  case Nil
  then show ?case by simp
next
  case (Cons a accts)
  have a: "length (encode a) = 42" "CHR ''/'' \<notin> set (encode a)" using Cons.prems(2) by simp_all
  obtain cells w' where 1: "CreateDefaultPaths kvs SortBy1st T iv (\<lambda>tx p v. xNew X tx p 0 1 0 v) (Has X)
      (\<lambda>tx p v. Write X tx p v None) 1 (encode a) w = Some ((cells, None), w')" "accountInv X T w'"
    "\<forall>b \<in> set builtinPaths. Has X (ETH_ACCOUNT_PREFIX @ encode a @ b) w'" "\<forall>q. Has X q w \<longrightarrow> Has X q w'"
    "committedStore (fst w') = committedStore (fst w)"
    using CreateDefaultPaths_store [OF assms(1,2) a Cons.prems(1) assms(3), of iv "\<lambda>tx p v. xNew X tx p 0 1 0 v" 1] assms(5) by blast
  obtain w1 where "createAccounts X kvs SortBy1st T iv encode accts w' = Some (None, w1)" "accountInv X T w1"
    "\<forall>q. Has X q w' \<longrightarrow> Has X q w1" "\<forall>a \<in> set accts. \<forall>b \<in> set builtinPaths. Has X (ETH_ACCOUNT_PREFIX @ encode a @ b) w1"
    "committedStore (fst w1) = committedStore (fst w')"
    using Cons.IH [OF 1(2)] Cons.prems(2) by auto
  then show ?case using 1 by auto
qed

lemma Export_typed:
  assumes "accountInv X T w" "values_law X" "sorter_law X"
  shows "\<exists>ts. Export X [Some (xSorter X)] w = (ts, w) \<and> distinct ts \<and>
    set ts = {r \<in> ran (localCells (fst w)). \<not> xPathLookupOnly X (cellAt (snd w) r)} \<and>
    (\<forall>r \<in> set ts. pathAt (xCell X) (snd w) r \<noteq> None \<and> typedAt (xCell X) (snd w) r)"
proof -
  have inv: "cell_law (xCell X)" "storeWf X w" "typedStore X w" "pendingWildcardDeletes (fst w) = []"
    using assms(1) by (simp_all add: accountInv_def exec_law_def)
  show ?thesis using Export_transitions [OF inv(1) assms(2,3) inv(2,4)] inv(3) by (fastforce simp: typedStore_def ran_def)
qed


text \<open>\<open>StateCells.To\<close> turns importable cells into importable transitions, which can be encoded and decoded.\<close>

definition interproc_law :: "('c, 'v) cell_api \<Rightarrow> ('v, 'c, 't, 'd, 'b, 'cs) harness_lib \<Rightarrow> bool" where
  "interproc_law A N \<longleftrightarrow>
     (\<forall>rs h ts h'. nToInterProc N rs h = (ts, h') \<and> distinct rs \<and> (\<forall>r \<in> set rs. pathAt A h r \<noteq> None \<and> typedAt A h r) \<longrightarrow>
        distinct ts \<and> (\<forall>r \<in> set ts. pathAt A h' r \<noteq> None \<and> typedAt A h' r)) \<and>
     (\<forall>h ts. \<exists>b. nEncode N h ts = Some b \<and> nDecode N b = Some ())"

text \<open>
  Creating any accounts in a new execution store over an in-memory proxy succeeds: all eight built-in paths of every account
  exist. What the store exports, converted to transitions, is committed to the writers of the proxy if the generation is
  admissible.
\<close>

lemma CreateAccountInStore_ok:
  assumes "committer_law L" "lCell L = hCell H" "moveif_keeps L" "ethw_law H" "engine_law (hCell H) K S" "path_law (hCell H) V"
    and "kvs_law kvs" "sort1st_law SortBy1st" "ids_law ids" "\<forall>t v. defaultValue ids iv t = Some v \<longrightarrow> isCRDT (hCell H) v \<and> xTypeID X v \<noteq> 0"
    and "xCell X = hCell H" "exec_law X" "fresh_set_law X" "values_law X" "sorter_law X" "interproc_law (hCell H) N"
    and "px = NewMemDBStoreProxy P (eTrie (hEth H)) ids db disks" "cs_law X (Some (nView N px))" "nProxy N (Some (nView N px)) = Some px"
    and "world = NewParallelEthMemDataStore (eTrie (hEth H)) db disks" "inj_on (keccak (eTrie (hEth H))) D" "pBackend P (pxStore px) \<noteq> None"
    and "c0 = NewStateCommitter L (nodeOps H K S) [0..<3] (proxyWriters P (hCell H) V px world)"
    and "\<forall>a \<in> set accts. length (hexEncode (eTrie (hEth H)) a) = 42 \<and> CHR ''/'' \<notin> set (hexEncode (eTrie (hEth H)) a)"
  shows "\<exists>w1 raw ts h'. createAccounts X kvs SortBy1st ids iv (hexEncode (eTrie (hEth H))) accts
      (NewDefaultExecutionStateStore ids (Some (nView N px)), h) = Some (None, w1) \<and>
    (\<forall>a \<in> set accts. \<forall>b \<in> set builtinPaths. Has X (ETH_ACCOUNT_PREFIX @ hexEncode (eTrie (hEth H)) a @ b) w1) \<and>
    Export X [Some (xSorter X)] w1 = (raw, w1) \<and> nToInterProc N raw (snd w1) = (ts, h') \<and>
    ((\<forall>c1 h1. Import L (nodeOps H K S) ts (c0, h') = Some (c1, h1) \<longrightarrow> nodeAdmissible H D [] h1 [1] ts) \<longrightarrow>
     (\<exists>c c1 c2 h1 h2. CreateAccountInStore H K S L P V N X kvs SortBy1st ids iv db disks accts h =
          Some ((Some (fst w1), None, Some c), h2) \<and> Import L (nodeOps H K S) ts (c0, h') = Some (c1, h1) \<and> sameMeta (hCell H) h' h1 \<and>
        DebugPrecommit L (nodeOps H K S) [1] (c1, h1) = Some (c2, h2) \<and>
        (\<forall>i < 3. \<exists>e. wCommit (nodeOps H K S) 10 h2 (wobj c2 i) = Some (wobj c i, e) \<and>
           nodeOutcome H K S [\<lparr>genHeap = h1, genTxs = [1], genTrans = ts, genDone = h2\<rparr>] (proxyWriters P (hCell H) V px world i) e (wobj c i))))"
proof -
  let ?store = "NewDefaultExecutionStateStore ids (Some (nView N px))" and ?enc = "hexEncode (eTrie (hEth H))"
  have inv: "accountInv X ids (?store, h)" using assms(12,13,18)
    by (simp add: accountInv_def storeWf_def typedStore_def NewDefaultExecutionStateStore_def NewExecutionStateStore_def)
  obtain w1 where 1: "createAccounts X kvs SortBy1st ids iv ?enc accts (?store, h) = Some (None, w1)" "accountInv X ids w1"
    "\<forall>a \<in> set accts. \<forall>b \<in> set builtinPaths. Has X (ETH_ACCOUNT_PREFIX @ ?enc a @ b) w1"
    "committedStore (fst w1) = Some (nView N px)"
    using createAccounts_ok [OF assms(7-9) inv, of iv accts ?enc] assms(10,11,24)
    by (auto simp: NewDefaultExecutionStateStore_def NewExecutionStateStore_def)
  obtain raw where raw: "Export X [Some (xSorter X)] w1 = (raw, w1)" "distinct raw"
    "\<forall>r \<in> set raw. pathAt (hCell H) (snd w1) r \<noteq> None \<and> typedAt (hCell H) (snd w1) r"
    using Export_typed [OF 1(2) assms(14,15)] assms(11) by auto
  obtain ts h' where to: "nToInterProc N raw (snd w1) = (ts, h')" by fastforce
  then have ts: "distinct ts" "\<forall>r \<in> set ts. pathAt (hCell H) h' r \<noteq> None \<and> typedAt (hCell H) h' r"
    using assms(16) raw(2,3) unfolding interproc_law_def by blast+
  obtain b where b: "nEncode N h' ts = Some b" "nDecode N b = Some ()" using assms(16) unfolding interproc_law_def by blast
  have px: "ethStorage px = Some world" "settled H D {} world"
    using settled_new [OF _ assms(21)] assms(4,17,20) by (simp_all add: NewMemDBStoreProxy_def ethw_law_def)
  have "\<exists>c c1 c2 h1 h2. CreateAccountInStore H K S L P V N X kvs SortBy1st ids iv db disks accts h =
          Some ((Some (fst w1), None, Some c), h2) \<and> Import L (nodeOps H K S) ts (c0, h') = Some (c1, h1) \<and> sameMeta (hCell H) h' h1 \<and>
        DebugPrecommit L (nodeOps H K S) [1] (c1, h1) = Some (c2, h2) \<and>
        (\<forall>i < 3. \<exists>e. wCommit (nodeOps H K S) 10 h2 (wobj c2 i) = Some (wobj c i, e) \<and>
           nodeOutcome H K S [\<lparr>genHeap = h1, genTxs = [1], genTrans = ts, genDone = h2\<rparr>] (proxyWriters P (hCell H) V px world i) e (wobj c i))"
    if adm: "\<forall>c1 h1. Import L (nodeOps H K S) ts (c0, h') = Some (c1, h1) \<longrightarrow> nodeAdmissible H D [] h1 [1] ts"
  proof -
    obtain c c1 c2 h1 h2 where "commitTransitions L (nodeOps H K S) [0..<3] (proxyWriters P (hCell H) V px world) ts h' = Some (c, h2)"
      "Import L (nodeOps H K S) ts (c0, h') = Some (c1, h1)" "sameMeta (hCell H) (h') h1"
      "DebugPrecommit L (nodeOps H K S) [1] (c1, h1) = Some (c2, h2)"
      "\<forall>i < 3. \<exists>e. wCommit (nodeOps H K S) 10 h2 (wobj c2 i) = Some (wobj c i, e) \<and>
         nodeOutcome H K S [\<lparr>genHeap = h1, genTxs = [1], genTrans = ts, genDone = h2\<rparr>] (proxyWriters P (hCell H) V px world i) e (wobj c i)" using commitTransitions_ok [OF assms(1-6) px(2) assms(22,23) ts adm] by blast
    then show ?thesis using 1(1,4) raw(1) to b px(1) assms(17,19)
      by (intro exI [of _ c] exI [of _ c1] exI [of _ c2] exI [of _ h1] exI [of _ h2]) (cases w1, simp add: CreateAccountInStore_def)
  qed
  then show ?thesis using 1(1,3) raw(1) to by blast
qed

section \<open>A concrete run\<close>















end
