(* ===== verification/EthProof.thy ===== *)
theory EthProof
  imports EthWorldProps
begin

text \<open>
  Merkle proofs of accounts and storage slots: \<open>ethtrie_storage_proof.go\<close> (producing them),
  \<open>ethtrie_types.go\<close> (validating a result), \<open>ethtrie_proof_cache.go\<close> (the cache of opened tries) and
  \<open>src/op\<close>, the conversion to Optimism's format and Optimism's verifier.

  \<open>hexutil.Big\<close> and \<open>hexutil.Bytes\<close> are integers and byte slices; a \<open>*hexutil.Big\<close> may be nil.
  The texts of the errors leave out the positions, keys and hashes that the code formats into them.
\<close>

section \<open>Results (ethtrie_types.go)\<close>

record StorageResult =
  srKey :: string
  srValue :: "int option"
  srProof :: "string list"

record AccountResult =
  arAddress :: bytes
  arAccountProof :: "string list"
  arBalance :: "int option"
  arCodeHash :: bytes
  arNonce :: u64
  arStorageHash :: bytes
  arStorageProof :: "StorageResult list"

text \<open>The database of a storage entry: the length that decides whether a node is hashed is that of
  the hexadecimal string, and a small node gets the nil key.\<close>

fun storageProofDB :: "('t, 'n, 'd, 'b) trie_lib \<Rightarrow> string list \<Rightarrow> (bytes \<rightharpoonup> bytes) \<Rightarrow> (bytes \<rightharpoonup> bytes) option" where
  "storageProofDB T [] db = Some db"
| "storageProofDB T (s # ss) db = do {
     nodeKey \<leftarrow> if 32 \<le> length s then map_option (keccak T) (MustDecode T s) else Some [];
     node \<leftarrow> MustDecode T s;
     storageProofDB T ss (db(nodeKey \<mapsto> node))
   }"

fun validateStorage :: "('t, 'n, 'd, 'b) trie_lib \<Rightarrow> bytes \<Rightarrow> StorageResult list \<Rightarrow> err option" where
  "validateStorage T root [] = Some None"
| "validateStorage T root (entry # es) = do {
     db \<leftarrow> storageProofDB T (srProof entry) Map.empty;
     decoded \<leftarrow> MustDecode T (srKey entry);
     let (val, e) = verifyProof T root (keccak T decoded) db;
     if e \<noteq> None \<or> val = None then Some (Some (''failed to verify storage value with key '' @ srKey entry))
     else validateStorage T root es
   }"

definition Validate :: "('t, 'n, 'd, 'b) trie_lib \<Rightarrow> bytes \<Rightarrow> AccountResult \<Rightarrow> err option" where
  "Validate T rootHash this = do {
     proofdb \<leftarrow> ProofArrayToDB T (arAccountProof this) Map.empty;
     let (v, e) = verifyProof T rootHash (keccak T (arAddress this)) proofdb;
     if e \<noteq> None \<or> length (case v of None \<Rightarrow> [] | Some b \<Rightarrow> b) = 0
     then Some (Some ''Failed to find the validate the account proof!!!'')
     else validateStorage T (arStorageHash this) (arStorageProof this)
   }"

section \<open>ProofProvider (ethtrie_storage_proof.go)\<close>

record ('t, 'd, 'b) ProofProvider =
  ppRoot :: bytes
  ppTotalVisits :: u64
  ppVisits :: "64 word"
  ppStore :: "('t, 'd, 'b) EthWorldState"

definition NewProofProvider ::
  "('t, 'n, 'd, 'b) trie_lib \<Rightarrow> nat list \<Rightarrow> (nat \<Rightarrow> 'b) \<Rightarrow> 'd \<Rightarrow> bytes \<Rightarrow> ('t, 'd, 'b) ProofProvider option \<times> err" where
  "NewProofProvider T shards disks ethdb root =
     (case LoadEthTrieByRoot T shards disks ethdb root of
        (_, Some e) \<Rightarrow> (None, Some e)
      | (store, None) \<Rightarrow>
          (map_option (\<lambda>s. \<lparr>ppRoot = root, ppTotalVisits = 1, ppVisits = 1, ppStore = s\<rparr>) store, None))"

definition ProofProvider_Root :: "('t, 'd, 'b) ProofProvider \<Rightarrow> bytes \<times> ('t, 'd, 'b) ProofProvider" where
  "ProofProvider_Root this = (ppRoot this, this\<lparr>ppVisits := ppVisits this + 1\<rparr>)"

text \<open>\<open>decInto\<close> is \<open>rlp.DecodeBytes\<close> into an empty byte slice: what the slice holds afterwards, and the
  error. The error is collected and never returned.\<close>

definition slotValue :: "('t, 'n, 'd, 'b) trie_lib \<Rightarrow> (bytes \<Rightarrow> bytes \<times> err) \<Rightarrow> bytes \<Rightarrow> int" where
  "slotValue T decInto v = bytesVal (toHash T (fst (decInto v)))"

definition outputKey :: "('t, 'n, 'd, 'b) trie_lib \<Rightarrow> bytes \<Rightarrow> nat \<Rightarrow> string" where
  "outputKey T key keyLength =
     (if keyLength \<noteq> 32 then hexEncodeBig T (bytesVal key) else hexEncode T key)"

fun storageProofs ::
  "('v, 't, 'n, 'd, 'b) eth_lib \<Rightarrow> (bytes \<Rightarrow> bytes \<times> err) \<Rightarrow> 't option \<Rightarrow> string list \<Rightarrow> string + StorageResult list" where
  "storageProofs E decInto storageTrie [] = Inr []"
| "storageProofs E decInto storageTrie (hexKey # keys) =
     (case decodeHash (eTrie E) hexKey of
        (_, _, Some e) \<Rightarrow> Inl e
      | (key, keyLength, None) \<Rightarrow>
          let out = outputKey (eTrie E) key keyLength;
              here = (case storageTrie of
                        None \<Rightarrow> Inr \<lparr>srKey = out, srValue = Some 0, srProof = []\<rparr>
                      | Some t \<Rightarrow>
                          let storageKey = keccak (eTrie E) key in
                          (case tProve (eTrie E) storageKey t of
                             (_, Some e) \<Rightarrow> Inl e
                           | (ps, None) \<Rightarrow>
                               Inr \<lparr>srKey = out, srValue = Some (slotValue (eTrie E) decInto (fst (tGet (eTrie E) t storageKey))),
                                    srProof = proofList (eTrie E) ps\<rparr>))
          in (case here of
                Inl e \<Rightarrow> Inl e
              | Inr x \<Rightarrow> (case storageProofs E decInto storageTrie keys of Inl e \<Rightarrow> Inl e | Inr xs \<Rightarrow> Inr (x # xs))))"

definition GetProof ::
  "('v, 't, 'n, 'd, 'b) eth_lib \<Rightarrow> (bytes \<Rightarrow> bytes \<times> err) \<Rightarrow> bytes \<Rightarrow> string list \<Rightarrow> ('t, 'd, 'b) ProofProvider \<Rightarrow>
   ((AccountResult option \<times> err) \<times> ('t, 'd, 'b) ProofProvider) option" where
  "GetProof E decInto acctAddr storageKeys this = do {
     let this = this\<lparr>ppVisits := ppVisits this + 1\<rparr>;
     ((acct, e), w) \<leftarrow> GetAccount E acctAddr (ppStore this);
     let this = this\<lparr>ppStore := w\<rparr>;
     case (acct, e) of
       (Some r, None) \<Rightarrow>
         let account = acctAt w r in
         (case storageProofs E decInto (acTrie account) storageKeys of
            Inl e \<Rightarrow> Some ((None, Some e), this)
          | Inr storageProof \<Rightarrow> do {
              (accountProof, proofErr) \<leftarrow> GetAccountProof E acctAddr w;
              case proofErr of
                Some e \<Rightarrow> Some ((None, Some e), this)
              | None \<Rightarrow> do {
                  trie \<leftarrow> worldStateTrie w;
                  _ \<leftarrow> VerifyProof (eTrie E) (tHash (eTrie E) trie) accountProof acctAddr;
                  Some ((Some \<lparr>arAddress = acctAddr, arAccountProof = accountProof,
                               arBalance = Some (uint (saBalance (acState account))),
                               arCodeHash = GetCodeHash E account, arNonce = saNonce (acState account),
                               arStorageHash = GetStorageRoot E account, arStorageProof = storageProof\<rparr>, None), this)
                }
            })
     | _ \<Rightarrow> Some ((None, e), this)
   }"

text \<open>Here the proof goes to an in-memory database under the keys the trie gives.\<close>

definition IsAccountProvable ::
  "('t, 'n, 'd, 'b) trie_lib \<Rightarrow> string \<Rightarrow> bytes \<Rightarrow> 't \<Rightarrow> bytes option \<times> err" where
  "IsAccountProvable T addr acctRoot worldTrie =
     (let keyHash = keccak T (fst (hexDecode T addr)) in
      if length (fst (tGet T worldTrie keyHash)) > 0
      then case tProve T keyHash worldTrie of
             (_, Some e) \<Rightarrow> (None, Some e)
           | (ps, None) \<Rightarrow>
               (case verifyProof T acctRoot keyHash (fold (\<lambda>(k, n) db. db(k \<mapsto> n)) ps Map.empty) of
                  (v, e) \<Rightarrow>
                    if e \<noteq> None \<or> length (case v of None \<Rightarrow> [] | Some b \<Rightarrow> b) = 0
                    then (v, Some ''Failed to verify the proof'') else (v, None))
      else (None, Some ''Failed to get the proof''))"

section \<open>MerkleProofCache (ethtrie_proof_cache.go)\<close>

text \<open>
  Providers are handed out by pointer. The ratio of two counters is a \<open>float64\<close>, of type \<open>'f\<close> here;
  \<open>mcExtreme\<close> is \<open>slice.Extreme\<close> with the order given, \<open>mcKVs\<close> the map's entries in iteration order.
\<close>

record ('t, 'd, 'b) MerkleProofCache =
  maxCached :: int
  merkleDict :: "(bytes \<times> ref) list"
  providers :: "('t, 'd, 'b) ProofProvider heap"
  mcDb :: 'd

record 'f mcache_lib =
  mcRatio :: "64 word \<Rightarrow> u64 \<Rightarrow> 'f"
  mcLess :: "'f \<Rightarrow> 'f \<Rightarrow> bool"
  mcExtreme :: "'f list \<Rightarrow> ('f \<Rightarrow> 'f \<Rightarrow> bool) \<Rightarrow> nat \<times> 'f"
  mcKVs :: "(bytes \<times> ref) list \<Rightarrow> bytes list \<times> ref list"

definition mcache_law :: "'f mcache_lib \<Rightarrow> bool" where
  "mcache_law M \<longleftrightarrow>
     (\<forall>xs l. xs \<noteq> [] \<longrightarrow> fst (mcExtreme M xs l) < length xs) \<and>
     (\<forall>kvs. distinct (map fst kvs) \<longrightarrow>
        (case mcKVs M kvs of (ks, vs) \<Rightarrow> length ks = length vs \<and> mset (zip ks vs) = mset kvs))"

definition NewMerkleProofCache ::
  "int \<Rightarrow> 'd \<Rightarrow> ('t, 'd, 'b) ProofProvider heap \<Rightarrow> ('t, 'd, 'b) MerkleProofCache" where
  "NewMerkleProofCache n db heap = \<lparr>maxCached = n, merkleDict = [], providers = heap, mcDb = db\<rparr>"

definition evictMerkle :: "'f mcache_lib \<Rightarrow> ('t, 'd, 'b) MerkleProofCache \<Rightarrow> ('t, 'd, 'b) MerkleProofCache" where
  "evictMerkle M this =
     (if int (length (merkleDict this)) > maxCached this
      then let (keys, merkles) = mcKVs M (merkleDict this);
               ratios = map (\<lambda>r. let v = cellAt (providers this) r in mcRatio M (ppVisits v) (ppTotalVisits v)) merkles;
               idx = fst (mcExtreme M ratios (mcLess M))
           in this\<lparr>merkleDict := AList.delete (keys ! idx) (merkleDict this)\<rparr>
      else this)"

definition touchAll :: "('t, 'd, 'b) MerkleProofCache \<Rightarrow> ('t, 'd, 'b) MerkleProofCache" where
  "touchAll this =
     this\<lparr>providers := fold (\<lambda>r. upd r (\<lambda>p. p\<lparr>ppTotalVisits := ppTotalVisits p + 1\<rparr>))
            (map snd (merkleDict this)) (providers this)\<rparr>"

definition GetProofProvider ::
  "('t, 'n, 'd, 'b) trie_lib \<Rightarrow> 'f mcache_lib \<Rightarrow> nat list \<Rightarrow> (nat \<Rightarrow> 'b) \<Rightarrow> bytes \<Rightarrow> ('t, 'd, 'b) MerkleProofCache \<Rightarrow>
   (ref option \<times> err) \<times> ('t, 'd, 'b) MerkleProofCache" where
  "GetProofProvider T M shards disks rootHash this =
     (case map_of (merkleDict this) rootHash of
        Some r \<Rightarrow> ((Some r, None), touchAll this)
      | None \<Rightarrow>
          (case LoadEthTrieByRoot T shards disks (mcDb this) rootHash of
             (Some datastore, None) \<Rightarrow>
               let (r, h) = alloc \<lparr>ppRoot = rootHash, ppTotalVisits = 1, ppVisits = 1, ppStore = datastore\<rparr> (providers this);
                   this = this\<lparr>merkleDict := AList.update rootHash r (merkleDict this), providers := h\<rparr>
               in ((Some r, None), touchAll (evictMerkle M this))
           | (_, e) \<Rightarrow> ((None, e), this)))"

section \<open>Optimism's verifier (src/op)\<close>

record OptimismStorageProof =
  ospKey :: bytes
  ospValue :: int
  ospProof :: "bytes list"

record OptimismAccountResult =
  oaAccountProof :: "bytes list"
  oaAddress :: bytes
  oaBalance :: "int option"
  oaCodeHash :: bytes
  oaNonce :: u64
  oaStorageHash :: bytes
  oaStorageProof :: "OptimismStorageProof list"

text \<open>The third-party encoder of the claimed account, \<open>rlp.EncodeToBytes\<close> of a list of nonce, balance,
  storage root and code hash. \<open>beBytes\<close> is \<open>big.Int.Bytes\<close>.\<close>

type_synonym claim_enc = "u64 \<Rightarrow> bytes \<Rightarrow> bytes \<Rightarrow> bytes \<Rightarrow> bytes \<times> err"

definition verifyEntry ::
  "('t, 'n, 'd, 'b) trie_lib \<Rightarrow> rlp_api \<Rightarrow> bytes \<Rightarrow> OptimismStorageProof \<Rightarrow> err" where
  "verifyEntry T R storageHash entry =
     (let db = fold (\<lambda>n db. db(nodeKey T n \<mapsto> n)) (ospProof entry) Map.empty;
          (val, e) = verifyProof T storageHash (keccak T (ospKey entry)) db
      in case e of
           Some e \<Rightarrow> Some (''failed to verify storage value: '' @ e)
         | None \<Rightarrow>
             if val = None \<and> ospValue entry = 0 then None
             else case encBytes R (beBytes (nat \<bar>ospValue entry\<bar>)) of
                    (_, Some e) \<Rightarrow> Some (''failed to encode storage value: '' @ e)
                  | (comparison, None) \<Rightarrow>
                      if (case val of None \<Rightarrow> [] | Some b \<Rightarrow> b) \<noteq> comparison
                      then Some ''value in storage proof does not match proven value'' else None)"

definition Verify ::
  "('t, 'n, 'd, 'b) trie_lib \<Rightarrow> rlp_api \<Rightarrow> claim_enc \<Rightarrow> bytes \<Rightarrow> OptimismAccountResult \<Rightarrow> err option" where
  "Verify T R encClaim stateRoot res =
     (case find (\<lambda>x. verifyEntry T R (oaStorageHash res) x \<noteq> None) (oaStorageProof res) of
        Some x \<Rightarrow> Some (verifyEntry T R (oaStorageHash res) x)
      | None \<Rightarrow> do {
          balance \<leftarrow> oaBalance res;
          case encClaim (oaNonce res) (beBytes (nat \<bar>balance\<bar>)) (oaStorageHash res) (oaCodeHash res) of
            (_, Some e) \<Rightarrow> Some (Some (''failed to encode account from retrieved values: '' @ e))
          | (claimed, None) \<Rightarrow>
              let db = fold (\<lambda>n db. db(nodeKey T n \<mapsto> n)) (oaAccountProof res) Map.empty in
              (case verifyProof T stateRoot (keccak T (oaAddress res)) db of
                 (_, Some e) \<Rightarrow> Some (Some (''failed to verify account value: '' @ e))
               | (v, None) \<Rightarrow>
                   if claimed \<noteq> (case v of None \<Rightarrow> [] | Some b \<Rightarrow> b)
                   then Some (Some ''L1 RPC is tricking us, account proof does not match provided deserialized values'')
                   else Some None)
        })"

definition toOpEntry :: "('t, 'n, 'd, 'b) trie_lib \<Rightarrow> StorageResult \<Rightarrow> OptimismStorageProof option" where
  "toOpEntry T res = do {
     key \<leftarrow> MustDecode T (srKey res);
     v \<leftarrow> srValue res;
     ps \<leftarrow> those (map (MustDecode T) (srProof res));
     Some \<lparr>ospKey = toHash T key, ospValue = v, ospProof = ps\<rparr>
   }"

definition ToStorageProof :: "('t, 'n, 'd, 'b) trie_lib \<Rightarrow> StorageResult list \<Rightarrow> OptimismStorageProof list option" where
  "ToStorageProof T res = those (map (toOpEntry T) res)"

definition Convertible_New :: "('t, 'n, 'd, 'b) trie_lib \<Rightarrow> AccountResult \<Rightarrow> OptimismAccountResult option" where
  "Convertible_New T this = do {
     accountProof \<leftarrow> those (map (MustDecode T) (arAccountProof this));
     storageProof \<leftarrow> ToStorageProof T (arStorageProof this);
     Some \<lparr>oaAccountProof = accountProof, oaAddress = arAddress this, oaBalance = arBalance this,
           oaCodeHash = arCodeHash this, oaNonce = arNonce this, oaStorageHash = arStorageHash this,
           oaStorageProof = storageProof\<rparr>
   }"

section \<open>What a verified result proves\<close>

lemma verifyProof_value:
  assumes "proof_law T" "verifyProof T (tHash T t) k db = (v, None)"
  shows "v = (if tLookup T t k = [] then None else Some (tLookup T t k))"
proof -
  have "\<forall>t k db v. verifyProof T (tHash T t) k db = (v, None) \<longrightarrow> v = (if tLookup T t k = [] then None else Some (tLookup T t k))"
    using assms(1) unfolding proof_law_def by (elim conjE) assumption
  then show ?thesis using assms(2) by blast
qed

text \<open>What an accepted result says of the tries, in terms of their entries.\<close>

lemma Verify_entries:
  assumes "proof_law T" "Verify T R encClaim (tHash T wt) res = Some None"
  obtains bal where "oaBalance res = Some bal"
    "encClaim (oaNonce res) (beBytes (nat \<bar>bal\<bar>)) (oaStorageHash res) (oaCodeHash res) = (tLookup T wt (keccak T (oaAddress res)), None)"
    "\<And>st entry. tHash T st = oaStorageHash res \<Longrightarrow> entry \<in> set (oaStorageProof res) \<Longrightarrow>
      tLookup T st (keccak T (ospKey entry)) = [] \<and> ospValue entry = 0 \<or>
      encBytes R (beBytes (nat \<bar>ospValue entry\<bar>)) = (tLookup T st (keccak T (ospKey entry)), None)"
proof -
  have none: "find (\<lambda>x. verifyEntry T R (oaStorageHash res) x \<noteq> None) (oaStorageProof res) = None"
    using assms(2) by (auto simp: Verify_def find_Some_iff split: option.splits)
  then obtain bal claimed v where acct: "oaBalance res = Some bal"
    "encClaim (oaNonce res) (beBytes (nat \<bar>bal\<bar>)) (oaStorageHash res) (oaCodeHash res) = (claimed, None)"
    "verifyProof T (tHash T wt) (keccak T (oaAddress res)) (fold (\<lambda>n db. db(nodeKey T n \<mapsto> n)) (oaAccountProof res) Map.empty) = (v, None)"
    "claimed = (case v of None \<Rightarrow> [] | Some b \<Rightarrow> b)"
    using assms(2) by (auto simp: Verify_def Let_def split: bind_splits prod.splits option.splits if_splits)
  have "claimed = tLookup T wt (keccak T (oaAddress res))"
    using acct(4) verifyProof_value [OF assms(1) acct(3)] by (simp split: if_splits)
  moreover have "tLookup T st (keccak T (ospKey entry)) = [] \<and> ospValue entry = 0 \<or>
      encBytes R (beBytes (nat \<bar>ospValue entry\<bar>)) = (tLookup T st (keccak T (ospKey entry)), None)"
    if st: "tHash T st = oaStorageHash res" "entry \<in> set (oaStorageProof res)" for st entry
  proof -
    let ?db = "fold (\<lambda>n db. db(nodeKey T n \<mapsto> n)) (ospProof entry) Map.empty"
    have ok: "verifyEntry T R (tHash T st) entry = None" using none st by (simp add: find_None_iff)
    then obtain v where v: "verifyProof T (tHash T st) (keccak T (ospKey entry)) ?db = (v, None)"
      by (auto simp: verifyEntry_def Let_def split: prod.splits option.splits)
    show ?thesis using ok verifyProof_value [OF assms(1) v]
      by (auto simp: verifyEntry_def v Let_def split: prod.splits option.splits if_splits)
  qed
  ultimately show ?thesis using acct(1,2) by (intro that) blast+
qed

text \<open>The remaining laws of RLP: an account is encoded as the list of its fields, and a byte string is
  read back; reading from nothing leaves the target empty.\<close>

definition claim_law :: "('v, 't, 'n, 'd, 'b) eth_lib \<Rightarrow> (bytes \<Rightarrow> bytes \<times> err) \<Rightarrow> claim_enc \<Rightarrow> bool" where
  "claim_law E decInto encClaim \<longleftrightarrow>
     (\<forall>n b r c. encClaim n (beBytes (unat b)) r c = (eStateEnc E \<lparr>saNonce = n, saBalance = b, saRoot = r, saCodeHash = c\<rparr>, None)) \<and>
     (\<forall>b. snd (encBytes (rlpOf (eCodec E)) b) = None \<and> decInto (fst (encBytes (rlpOf (eCodec E)) b)) = (b, None)) \<and>
     fst (decInto []) = []"

text \<open>The encoding of an account determines its fields, whatever number stands for the balance.\<close>

definition claim_inj :: "claim_enc \<Rightarrow> bool" where
  "claim_inj encClaim \<longleftrightarrow> (\<forall>n b r c n' b' r' c' x. encClaim n (beBytes b) r c = (x, None) \<and> encClaim n' (beBytes b') r' c' = (x, None) \<longrightarrow>
     n = n' \<and> b = b' \<and> r = r' \<and> c = c')"

text \<open>The number that a storage trie holds under a key: an entry is the encoding of its bytes, a missing one is zero.\<close>

definition slotNumber :: "('t, 'n, 'd, 'b) trie_lib \<Rightarrow> (bytes \<Rightarrow> bytes \<times> err) \<Rightarrow> 't \<Rightarrow> bytes \<Rightarrow> int" where
  "slotNumber T decInto st key = bytesVal (fst (decInto (tLookup T st (keccak T key))))"

text \<open>
  C5. The verifier is sound up to signs: if it accepts a result for the root of a world trie in which the address has the
  account \<open>s\<close>, then the claimed nonce, code hash and storage root are those of \<open>s\<close> and the absolute value of the claimed balance is
  the balance of \<open>s\<close>; and in every storage trie with the root of \<open>s\<close> the absolute value of each claimed slot value is the number
  that the trie holds there, where a missing slot counts as zero. So balances and slot values that are claimed as non-negative are the true
  ones. What nodes the proofs consist of does not matter. Of RLP this uses that lists of these fields are encoded injectively.
\<close>
theorem Verify_sound:
  assumes "proof_law (eTrie E)" "claim_law E decInto encClaim" "claim_inj encClaim"
    and "Verify (eTrie E) (rlpOf (eCodec E)) encClaim (tHash (eTrie E) wt) res = Some None"
    and "tLookup (eTrie E) wt (keccak (eTrie E) (oaAddress res)) = eStateEnc E s" "tHash (eTrie E) st = saRoot s"
  shows "oaNonce res = saNonce s \<and> (\<exists>bal. oaBalance res = Some bal \<and> \<bar>bal\<bar> = uint (saBalance s)) \<and>
    oaStorageHash res = saRoot s \<and> oaCodeHash res = saCodeHash s \<and>
    (\<forall>entry \<in> set (oaStorageProof res). \<bar>ospValue entry\<bar> = slotNumber (eTrie E) decInto st (ospKey entry))"
proof -
  let ?T = "eTrie E" and ?R = "rlpOf (eCodec E)"
  obtain bal where ver: "oaBalance res = Some bal"
    "encClaim (oaNonce res) (beBytes (nat \<bar>bal\<bar>)) (oaStorageHash res) (oaCodeHash res) = (eStateEnc E s, None)"
    "\<And>st entry. tHash ?T st = oaStorageHash res \<Longrightarrow> entry \<in> set (oaStorageProof res) \<Longrightarrow>
      tLookup ?T st (keccak ?T (ospKey entry)) = [] \<and> ospValue entry = 0 \<or>
      encBytes ?R (beBytes (nat \<bar>ospValue entry\<bar>)) = (tLookup ?T st (keccak ?T (ospKey entry)), None)"
    by (rule Verify_entries [OF assms(1,4), unfolded assms(5)]) blast
  have "encClaim (saNonce s) (beBytes (unat (saBalance s))) (saRoot s) (saCodeHash s) =
      (eStateEnc E \<lparr>saNonce = saNonce s, saBalance = saBalance s, saRoot = saRoot s, saCodeHash = saCodeHash s\<rparr>, None)"
    using assms(2) unfolding claim_law_def by blast
  then have "encClaim (saNonce s) (beBytes (unat (saBalance s))) (saRoot s) (saCodeHash s) = (eStateEnc E s, None)" by (cases s) simp
  then have f: "oaNonce res = saNonce s \<and> nat \<bar>bal\<bar> = unat (saBalance s) \<and> oaStorageHash res = saRoot s \<and> oaCodeHash res = saCodeHash s"
    using assms(3) ver(2) unfolding claim_inj_def by blast
  then have bal: "\<bar>bal\<bar> = uint (saBalance s)" by (metis abs_ge_zero int_nat_eq uint_nat)
  have dec: "fst (decInto []) = []" "decInto (fst (encBytes ?R b)) = (b, None)" for b using assms(2) unfolding claim_law_def by blast+
  have "\<bar>ospValue entry\<bar> = slotNumber ?T decInto st (ospKey entry)" if "entry \<in> set (oaStorageProof res)" for entry
  proof -
    have "fst (decInto (tLookup ?T st (keccak ?T (ospKey entry)))) = [] \<and> ospValue entry = 0 \<or>
        fst (decInto (tLookup ?T st (keccak ?T (ospKey entry)))) = beBytes (nat \<bar>ospValue entry\<bar>)"
      using ver(3) [OF _ that, of st] f assms(6) dec by (metis fst_conv)
    then show ?thesis by (auto simp: slotNumber_def bytesVal_beBytes) (simp add: bytesVal_def)
  qed
  then show ?thesis using f ver(1) bal by blast
qed

text \<open>
  C12. The signs are not verified: whichever of the claimed balance and slot values are negated, the verifier gives the same answer. So with a
  result that states the true account it also accepts the one that states the negated balance.
\<close>
theorem Verify_ignores_signs:
  "Verify T R encClaim root (res\<lparr>oaBalance := map_option (\<lambda>b. if neg then - b else b) (oaBalance res),
     oaStorageProof := map (\<lambda>e. if negSlot (ospKey e) then e\<lparr>ospValue := - ospValue e\<rparr> else e) (oaStorageProof res)\<rparr>) =
   Verify T R encClaim root res"
proof -
  let ?neg = "\<lambda>e. if negSlot (ospKey e) then e\<lparr>ospValue := - ospValue e\<rparr> else e"
  have sel: "ospValue (e\<lparr>ospValue := x\<rparr>) = x" "ospKey (e\<lparr>ospValue := x\<rparr>) = ospKey e" "ospProof (e\<lparr>ospValue := x\<rparr>) = ospProof e"
    for e :: OptimismStorageProof and x by simp_all
  have "verifyEntry T R h (e\<lparr>ospValue := - ospValue e\<rparr>) = verifyEntry T R h e" for h e
    unfolding verifyEntry_def sel abs_minus_cancel neg_equal_0_iff_equal ..
  then have e: "verifyEntry T R h (?neg e) = verifyEntry T R h e" for h e by simp
  have f: "find (\<lambda>x. verifyEntry T R h x \<noteq> None) (map ?neg xs) = map_option ?neg (find (\<lambda>x. verifyEntry T R h x \<noteq> None) xs)" for h xs
    using e by (induction xs) (simp_all del: not_None_eq)
  show ?thesis
    by (cases "find (\<lambda>x. verifyEntry T R (oaStorageHash res) x \<noteq> None) (oaStorageProof res)"; cases "oaBalance res")
       (simp_all add: Verify_def f e del: not_None_eq)
qed

section \<open>Producing a proof\<close>

text \<open>Native storage: a slot is empty or holds the encoding of a 256-bit number.\<close>

definition nativeSlot :: "rlp_api \<Rightarrow> bytes \<Rightarrow> bool" where
  "nativeSlot R v \<longleftrightarrow> v = [] \<or> (\<exists>n < 256 ^ 32. v = fst (encBytes R (beBytes n)))"

lemma slotValue_entry:
  assumes "hexutil_law T" "proof_law T" "goodProof T st (keccak T key) ps"
    and "\<forall>b. snd (encBytes R b) = None \<and> decInto (fst (encBytes R b)) = (b, None)" "fst (decInto []) = []"
    and "nativeSlot R (tLookup T st (keccak T key))"
  shows "verifyEntry T R (tHash T st) \<lparr>ospKey = key, ospValue = slotValue T decInto (tLookup T st (keccak T key)), ospProof = map snd ps\<rparr> = None"
proof -
  let ?v = "tLookup T st (keccak T key)"
  have pad: "length b \<le> 32 \<Longrightarrow> bytesVal (toHash T b) = bytesVal b" for b using assms(1) by (simp add: hexutil_law_def)
  have ver: "verifyProof T (tHash T st) (keccak T key) (fold (\<lambda>n db. db(nodeKey T n \<mapsto> n)) (map snd ps) Map.empty) =
      (if ?v = [] then None else Some ?v, None)" using verify_nodes [OF assms(2,3)] by (simp only: nodesDB_def)
  show ?thesis
  proof (cases "?v = []")
    case True
    then have "slotValue T decInto ?v = 0" using assms(5) pad [of "[]"] by (simp add: slotValue_def bytesVal_def)
    then show ?thesis using ver True by (simp add: verifyEntry_def)
  next
    case False
    then obtain n where n: "n < 256 ^ 32" "?v = fst (encBytes R (beBytes n))" using assms(6) by (auto simp: nativeSlot_def)
    then have "slotValue T decInto ?v = int n"
      using assms(4) pad [OF length_beBytes [OF n(1)]] by (simp add: slotValue_def bytesVal_beBytes)
    moreover have "encBytes R (beBytes n) = (?v, None)" using n(2) assms(4) by (metis prod.collapse)
    ultimately show ?thesis using ver False by (simp add: verifyEntry_def)
  qed
qed

lemma MustDecode_proofList:
  assumes "hexutil_law T"
  shows "those (map (MustDecode T) (proofList T ps)) = Some (map snd ps)"
proof -
  have "MustDecode T (hexEncode T n) = Some n" for n using assms by (simp add: MustDecode_def hexutil_law_def)
  then show ?thesis by (induction ps) (auto simp: proofList_def)
qed

lemma proof_law_prove:
  assumes "proof_law T"
  obtains ps where "tProve T k t = (ps, None)" "secureTrie T t \<Longrightarrow> length k = 32 \<Longrightarrow> goodProof T t k ps"
proof -
  have "\<forall>t k. \<exists>ps. tProve T k t = (ps, None) \<and> (secureTrie T t \<and> length k = 32 \<longrightarrow> goodProof T t k ps)"
    using assms unfolding proof_law_def by (elim conjE) assumption
  then show thesis using that by blast
qed

text \<open>A storage key with all its 32 bytes.\<close>

definition fullKey :: "('t, 'n, 'd, 'b) trie_lib \<Rightarrow> string \<Rightarrow> bytes \<Rightarrow> bool" where
  "fullKey T s key \<longleftrightarrow> decodeHash T s = (key, 32, None)"

lemma storageProofs_verify:
  assumes "eth_law E" "proof_law (eTrie E)" "claim_law E decInto encClaim" "secureTrie (eTrie E) st"
    and "\<forall>s \<in> set keys. \<exists>key. fullKey (eTrie E) s key \<and> nativeSlot (rlpOf (eCodec E)) (tLookup (eTrie E) st (keccak (eTrie E) key))"
  shows "\<exists>xs ys. storageProofs E decInto (Some st) keys = Inr xs \<and> ToStorageProof (eTrie E) xs = Some ys \<and>
    (\<forall>y \<in> set ys. verifyEntry (eTrie E) (rlpOf (eCodec E)) (tHash (eTrie E) st) y = None)"
  using assms(5)
proof (induction keys)
  case Nil
  then show ?case by (simp add: ToStorageProof_def)
next
  case (Cons s keys)
  let ?T = "eTrie E"
  have hex: "hexutil_law ?T" and law: "trie_law ?T" using assms(1) by (simp_all add: eth_law_def)
  obtain key where key: "decodeHash ?T s = (key, 32, None)" "nativeSlot (rlpOf (eCodec E)) (tLookup ?T st (keccak ?T key))"
    using Cons.prems by (auto simp: fullKey_def)
  have len: "length (keccak ?T key) = 32" "MustDecode ?T (hexEncode ?T key) = Some key" "length key = 32 \<longrightarrow> toHash ?T key = key"
    using hex by (simp_all add: hexutil_law_def MustDecode_def)
  have key32: "length key = 32" using key(1) hex by (auto simp: decodeHash_def Let_def hexutil_law_def split: sum.splits if_splits)
  obtain ps where ps: "tProve ?T (keccak ?T key) st = (ps, None)" "goodProof ?T st (keccak ?T key) ps"
    using proof_law_prove [OF assms(2)] assms(4) len(1) by metis
  let ?x = "\<lparr>srKey = hexEncode ?T key, srValue = Some (slotValue ?T decInto (tLookup ?T st (keccak ?T key))), srProof = proofList ?T ps\<rparr>"
  let ?y = "\<lparr>ospKey = key, ospValue = slotValue ?T decInto (tLookup ?T st (keccak ?T key)), ospProof = map snd ps\<rparr>"
  have y: "toOpEntry ?T ?x = Some ?y" using len key32 by (simp add: toOpEntry_def MustDecode_proofList [OF hex])
  have ok: "verifyEntry ?T (rlpOf (eCodec E)) (tHash ?T st) ?y = None"
    by (rule slotValue_entry [OF hex assms(2) ps(2)]) (use assms(3) key(2) in \<open>simp_all add: claim_law_def\<close>)
  obtain xs ys where "storageProofs E decInto (Some st) keys = Inr xs" "ToStorageProof ?T xs = Some ys"
    "\<forall>y \<in> set ys. verifyEntry ?T (rlpOf (eCodec E)) (tHash ?T st) y = None" using Cons by auto
  then show ?case using key(1) ps(1) y ok
    by (intro exI [of _ "?x # xs"] exI [of _ "?y # ys"]) (simp add: outputKey_def trie_law_get [OF law] ToStorageProof_def)
qed

text \<open>An account in a snapshot: its entry in the world trie, and its storage in the database.\<close>

definition provable :: "('v, 't, 'n, 'd, 'b) eth_lib \<Rightarrow> ('t, 'd, 'b) EthWorldState \<Rightarrow> 't \<Rightarrow> bytes \<Rightarrow> StateAccount \<Rightarrow> (bytes \<Rightarrow> bytes) \<Rightarrow> bool" where
  "provable E w wt addr s c \<longleftrightarrow> accountCache w addr = None \<and> worldStateTrie w = Some wt \<and> secureTrie (eTrie E) wt \<and>
     tLookup (eTrie E) wt (keccak (eTrie E) addr) = eStateEnc E s \<and> dRoots (eTrie E) (mainTrieDB (trieDB w)) (saRoot s) = Some c \<and>
     (\<forall>k. c k \<noteq> [] \<longrightarrow> length k = 32)"

text \<open>Slots that can be proved: the keys are full, the slots are empty or native, and unless nothing is asked for, the storage is
  not empty, since there is no proof for an empty trie.\<close>

definition provableSlots :: "('v, 't, 'n, 'd, 'b) eth_lib \<Rightarrow> (bytes \<Rightarrow> bytes) \<Rightarrow> string list \<Rightarrow> bool" where
  "provableSlots E c keys \<longleftrightarrow> (keys \<noteq> [] \<longrightarrow> (\<exists>k. c k \<noteq> [])) \<and>
     (\<forall>s \<in> set keys. \<exists>key. fullKey (eTrie E) s key \<and> nativeSlot (rlpOf (eCodec E)) (c (keccak (eTrie E) key)))"

lemma GetAccount_provable:
  assumes "eth_law E" "provable E w wt addr s c"
  obtains r w' u where "GetAccount E addr w = Some ((Some r, None), w')" "acState (acctAt w' r) = s" "acTrie (acctAt w' r) = Some u"
    "tLookup (eTrie E) u = c" "tHash (eTrie E) u = saRoot s" "worldStateTrie w' = Some wt"
proof -
  have law: "trie_law (eTrie E)" and enc: "eStateEnc E s \<noteq> []" "eStateDec E (eStateEnc E s) = Inr s"
    using assms(1) by (simp_all add: eth_law_def)
  obtain u where u: "tNew (eTrie E) (saRoot s) (mainTrieDB (trieDB w)) = (Some u, None)" "tLookup (eTrie E) u = c"
    "tHash (eTrie E) u = saRoot s" using trie_law_open [OF law] assms(2) unfolding provable_def by metis
  show ?thesis using assms(2) u
    by (intro that [of "nextRef (acctHeap w)" _ u])
       (auto simp: GetAccount_def provable_def trie_law_get [OF law] enc alloc_def)
qed

lemma GetAccountProof_provable:
  assumes "eth_law E" "proof_law (eTrie E)" "worldStateTrie w = Some wt" "secureTrie (eTrie E) wt"
    and "tLookup (eTrie E) wt (keccak (eTrie E) addr) \<noteq> []"
  obtains ps where "GetAccountProof E addr w = Some (proofList (eTrie E) ps, None)"
    "VerifyProof (eTrie E) (tHash (eTrie E) wt) (proofList (eTrie E) ps) addr = Some ()"
    "verifyProof (eTrie E) (tHash (eTrie E) wt) (keccak (eTrie E) addr) (nodesDB (eTrie E) (map snd ps)) =
       (Some (tLookup (eTrie E) wt (keccak (eTrie E) addr)), None)"
proof -
  let ?T = "eTrie E" and ?k = "keccak (eTrie E) addr"
  have hex: "hexutil_law ?T" and law: "trie_law ?T" using assms(1) by (simp_all add: eth_law_def)
  have "length ?k = 32" using hex by (simp add: hexutil_law_def)
  then obtain ps where ps: "tProve ?T ?k wt = (ps, None)" "goodProof ?T wt ?k ps"
    using proof_law_prove [OF assms(2)] assms(4) by metis
  have ver: "verifyProof ?T (tHash ?T wt) ?k (nodesDB ?T (map snd ps)) = (Some (tLookup ?T wt ?k), None)"
    using verify_nodes [OF assms(2) ps(2)] assms(5) by simp
  have pl: "proofList ?T ps = map (hexEncode ?T) (map snd ps)" by (simp add: proofList_def case_prod_beta)
  have db: "ProofArrayToDB ?T (proofList ?T ps) Map.empty = Some (nodesDB ?T (map snd ps))"
    unfolding pl nodesDB_def by (rule ProofArrayToDB_encoded [OF hex])
  show ?thesis
    by (rule that [OF _ _ ver]) (use ps(1) ver db assms(3,5) in \<open>simp_all add: GetAccountProof_def VerifyProof_def trie_law_get [OF law]\<close>)
qed

text \<open>
  C16. Proofs are accepted: for an account in the world trie of a snapshot, not cached, whose storage can be opened, and for keys with all
  their 32 bytes whose slots are empty or hold a native 256-bit number (the storage as a whole being not empty if any key is given),
  \<open>GetProof\<close> returns a result without error, the result converts to Optimism's format, and the
  verifier accepts it against the hash of the world trie. Other entries of the storage may hold anything. With shorter keys the conversion may panic.
\<close>
theorem GetProof_verifies:
  assumes "eth_law E" "proof_law (eTrie E)" "claim_law E decInto encClaim" "provable E (ppStore pp) wt addr s c"
    and "provableSlots E c keys"
  shows "\<exists>res pp' op. GetProof E decInto addr keys pp = Some ((Some res, None), pp') \<and>
    Convertible_New (eTrie E) res = Some op \<and>
    Verify (eTrie E) (rlpOf (eCodec E)) encClaim (tHash (eTrie E) wt) op = Some None"
proof -
  let ?T = "eTrie E" and ?R = "rlpOf (eCodec E)"
  have hex: "hexutil_law ?T" and enc: "eStateEnc E s \<noteq> []" using assms(1) by (simp_all add: eth_law_def)
  obtain r w' u where a: "GetAccount E addr (ppStore pp) = Some ((Some r, None), w')" "acState (acctAt w' r) = s"
    "acTrie (acctAt w' r) = Some u" "tLookup ?T u = c" "tHash ?T u = saRoot s" "worldStateTrie w' = Some wt"
    by (rule GetAccount_provable [OF assms(1,4)])
  have wt: "secureTrie ?T wt" "tLookup ?T wt (keccak ?T addr) = eStateEnc E s" using assms(4) by (simp_all add: provable_def)
  obtain ps where p: "GetAccountProof E addr w' = Some (proofList ?T ps, None)" "VerifyProof ?T (tHash ?T wt) (proofList ?T ps) addr = Some ()"
    "verifyProof ?T (tHash ?T wt) (keccak ?T addr) (nodesDB ?T (map snd ps)) = (Some (tLookup ?T wt (keccak ?T addr)), None)"
    using GetAccountProof_provable [OF assms(1,2) a(6) wt(1)] wt(2) enc by metis
  have slots: "secureTrie ?T u" if "keys \<noteq> []" using that assms(4,5) a(4) by (simp add: provable_def provableSlots_def secureTrie_def)
  have native: "\<forall>s \<in> set keys. \<exists>key. fullKey ?T s key \<and> nativeSlot ?R (tLookup ?T u (keccak ?T key))"
    using assms(5) a(4) by (simp add: provableSlots_def)
  have "\<exists>xs ys. storageProofs E decInto (Some u) keys = Inr xs \<and> ToStorageProof ?T xs = Some ys \<and>
      (\<forall>y \<in> set ys. verifyEntry ?T ?R (tHash ?T u) y = None)"
    using storageProofs_verify [OF assms(1-3) slots native] by (cases "keys = []") (simp_all add: ToStorageProof_def)
  then obtain xs ys where sp: "storageProofs E decInto (Some u) keys = Inr xs" "ToStorageProof ?T xs = Some ys"
    "\<forall>y \<in> set ys. verifyEntry ?T ?R (tHash ?T u) y = None" by blast
  let ?res = "\<lparr>arAddress = addr, arAccountProof = proofList ?T ps, arBalance = Some (uint (saBalance s)), arCodeHash = saCodeHash s,
    arNonce = saNonce s, arStorageHash = saRoot s, arStorageProof = xs\<rparr>"
  let ?op = "\<lparr>oaAccountProof = map snd ps, oaAddress = addr, oaBalance = Some (uint (saBalance s)), oaCodeHash = saCodeHash s,
    oaNonce = saNonce s, oaStorageHash = saRoot s, oaStorageProof = ys\<rparr>"
  have get: "GetProof E decInto addr keys pp = Some ((Some ?res, None), pp\<lparr>ppVisits := ppVisits pp + 1, ppStore := w'\<rparr>)"
    using a p sp(1) by (simp add: GetProof_def GetCodeHash_def GetStorageRoot_def)
  have conv: "Convertible_New ?T ?res = Some ?op" using sp(2) by (simp add: Convertible_New_def MustDecode_proofList [OF hex])
  have claim: "encClaim n (beBytes (unat b)) r c = (eStateEnc E \<lparr>saNonce = n, saBalance = b, saRoot = r, saCodeHash = c\<rparr>, None)"
    for n b r c using assms(3) by (simp add: claim_law_def)
  have rec: "\<lparr>saNonce = saNonce s, saBalance = saBalance s, saRoot = saRoot s, saCodeHash = saCodeHash s\<rparr> = s" by (cases s) simp
  have "find (\<lambda>x. verifyEntry ?T ?R (saRoot s) x \<noteq> None) ys = None" using sp(3) a(5) by (simp add: find_None_iff)
  moreover have "encClaim (saNonce s) (beBytes (unat (saBalance s))) (saRoot s) (saCodeHash s) = (eStateEnc E s, None)"
    by (rule claim [of "saNonce s" "saBalance s" "saRoot s" "saCodeHash s", unfolded rec])
  ultimately have "Verify ?T ?R encClaim (tHash ?T wt) ?op = Some None"
    using p(3) wt(2) by (simp add: Verify_def nodesDB_def)
  then show ?thesis using get conv by blast
qed

section \<open>Short keys\<close>

lemma storageProofs_keys:
  "storageProofs E decInto st keys = Inr xs \<Longrightarrow> s \<in> set keys \<Longrightarrow> decodeHash (eTrie E) s = (key, n, None) \<Longrightarrow>
   \<exists>x \<in> set xs. srKey x = outputKey (eTrie E) key n"
proof (induction keys arbitrary: xs)
  case (Cons k keys)
  from Cons.prems(1) obtain x ys where x: "xs = x # ys" "storageProofs E decInto st keys = Inr ys"
    "\<forall>key n. decodeHash (eTrie E) k = (key, n, None) \<longrightarrow> srKey x = outputKey (eTrie E) key n"
    by (auto simp: Let_def split: prod.splits option.splits sum.splits)
  show ?case
  proof (cases "s = k")
    case True
    then show ?thesis using x Cons.prems(3) by simp
  next
    case False
    then show ?thesis using x Cons.IH [OF x(2)] Cons.prems by auto
  qed
qed simp

text \<open>
  C36. The two formats do not fit together: a storage key of fewer than 32 bytes whose number has an
  odd number of hexadecimal digits is printed by \<open>GetProof\<close> without a leading zero, and converting the result
  panics.
\<close>
theorem short_keys_panic:
  assumes "hexutil_law (eTrie E)" "GetProof E decInto addr keys pp = Some ((Some res, e), pp')"
    and "s \<in> set keys" "decodeHash (eTrie E) s = (key, n, None)" "n \<noteq> 32"
    and "bytesVal key = 0 \<or> 16 ^ (2 * j) \<le> bytesVal key \<and> bytesVal key < 16 ^ Suc (2 * j)"
  shows "Convertible_New (eTrie E) res = None"
proof -
  let ?T = "eTrie E"
  from assms(2) obtain st where sp: "storageProofs E decInto st keys = Inr (arStorageProof res)"
    by (auto simp: GetProof_def Let_def split: bind_splits prod.splits option.splits sum.splits)
  obtain x where x: "x \<in> set (arStorageProof res)" "srKey x = hexEncodeBig ?T (bytesVal key)"
    using storageProofs_keys [OF sp assms(3,4)] assms(5) unfolding outputKey_def by auto
  have "odd (length (hexEncodeBig ?T (bytesVal key)))" using assms(1,6) by (auto simp: hexutil_law_def)
  moreover have "\<forall>s b. hexDecode ?T s = (b, None) \<longrightarrow> length s = 2 + 2 * length b"
    using assms(1) unfolding hexutil_law_def by (elim conjE) assumption
  ultimately have "hexDecode ?T (srKey x) \<noteq> (b, None)" for b unfolding x(2) by fastforce
  then have "MustDecode ?T (srKey x) = None" by (auto simp: MustDecode_def split: prod.split option.split)
  then have "toOpEntry ?T x = None" by (simp add: toOpEntry_def)
  then have "ToStorageProof ?T (arStorageProof res) = None" unfolding ToStorageProof_def using x(1) by (rule those_None [rotated])
  then show ?thesis by (auto simp: Convertible_New_def split: bind_splits)
qed

section \<open>The cache of providers\<close>

text \<open>Every cached provider has the root it is filed under, once.\<close>

definition mcacheOk :: "('t, 'd, 'b) MerkleProofCache \<Rightarrow> bool" where
  "mcacheOk this \<longleftrightarrow> distinct (map fst (merkleDict this)) \<and>
     (\<forall>(root, r) \<in> set (merkleDict this). r < nextRef (providers this) \<and> ppRoot (cellAt (providers this) r) = root)"

lemma touchAll_simps [simp]: "merkleDict (touchAll this) = merkleDict this" "maxCached (touchAll this) = maxCached this"
  by (simp_all add: touchAll_def)

lemma touch_fold:
  "nextRef (fold (\<lambda>r. upd r (\<lambda>p. p\<lparr>ppTotalVisits := ppTotalVisits p + 1\<rparr>)) rs h) = nextRef h \<and>
   ppRoot (cellAt (fold (\<lambda>r. upd r (\<lambda>p. p\<lparr>ppTotalVisits := ppTotalVisits p + 1\<rparr>)) rs h) x) = ppRoot (cellAt h x)"
  by (induction rs arbitrary: h) simp_all

lemma touchAll_heap [simp]: "nextRef (providers (touchAll this)) = nextRef (providers this)"
  "ppRoot (cellAt (providers (touchAll this)) r) = ppRoot (cellAt (providers this) r)"
  by (simp_all add: touchAll_def touch_fold)

lemma touchAll_ok [simp]: "mcacheOk (touchAll this) = mcacheOk this"
  by (simp add: mcacheOk_def)

lemma evictMerkle_ok:
  assumes "mcache_law M" "mcacheOk this" "int (length (merkleDict this)) \<le> maxCached this + 1" "0 \<le> maxCached this"
  shows "mcacheOk (evictMerkle M this) \<and> int (length (merkleDict (evictMerkle M this))) \<le> maxCached this \<and>
    maxCached (evictMerkle M this) = maxCached this \<and> providers (evictMerkle M this) = providers this"
proof (cases "int (length (merkleDict this)) > maxCached this")
  case False
  then show ?thesis using assms by (simp add: evictMerkle_def)
next
  case True
  obtain ks rs where kv: "mcKVs M (merkleDict this) = (ks, rs)" by fastforce
  have dist: "distinct (map fst (merkleDict this))" using assms(2) by (simp add: mcacheOk_def)
  have ext: "\<forall>xs l. xs \<noteq> [] \<longrightarrow> fst (mcExtreme M xs l) < length xs"
    and kvs: "\<forall>kvs. distinct (map fst kvs) \<longrightarrow>
        (case mcKVs M kvs of (ks, vs) \<Rightarrow> length ks = length vs \<and> mset (zip ks vs) = mset kvs)"
    using assms(1) by (simp_all add: mcache_law_def)
  have z: "length ks = length rs" "mset (zip ks rs) = mset (merkleDict this)"
    using kvs [rule_format, OF dist] kv by simp_all
  define i where "i = fst (mcExtreme M (map (\<lambda>r. let v = cellAt (providers this) r in mcRatio M (ppVisits v) (ppTotalVisits v)) rs) (mcLess M))"
  have "length ks = length (merkleDict this)" using z by (metis length_zip min.idem size_mset)
  then have "rs \<noteq> []" using True assms(4) z(1) by auto
  then have "i < length (map (\<lambda>r. let v = cellAt (providers this) r in mcRatio M (ppVisits v) (ppTotalVisits v)) rs)"
    unfolding i_def by (intro ext [rule_format]) simp
  then have "i < length ks" using z(1) by simp
  then have "ks ! i \<in> set (map fst (zip ks rs))" using z(1) by simp
  then have k: "ks ! i \<in> fst ` set (merkleDict this)" using z(2) by (metis mset_eq_setD set_map)
  have e: "evictMerkle M this = this\<lparr>merkleDict := AList.delete (ks ! i) (merkleDict this)\<rparr>"
    using True kv by (simp add: evictMerkle_def i_def)
  have "int (length (AList.delete (ks ! i) (merkleDict this))) \<le> maxCached this"
    using length_delete_key [OF dist k] assms(3) True assms(4) by linarith
  moreover have "set (AList.delete (ks ! i) (merkleDict this)) \<subseteq> set (merkleDict this)" by (auto simp: AList.delete_eq)
  ultimately show ?thesis using assms(2) unfolding e mcacheOk_def by (auto simp: AList.distinct_delete)
qed

lemma set_update_subset: "set (AList.update k v xs) \<subseteq> insert (k, v) (set xs)"
  by (induction xs) auto

text \<open>
  C22. The cache of providers keeps its invariant and its bound: every provider is filed once, under its own
  root, there are never more than \<open>maxCached\<close> of them after a call, and a provider that is returned has the
  root that was asked for, even if it was evicted at once.
\<close>
theorem GetProofProvider_inv:
  assumes "mcache_law M" "mcacheOk this" "int (length (merkleDict this)) \<le> maxCached this"
    and "GetProofProvider T M shards disks root this = ((r, e), this')"
  shows "mcacheOk this' \<and> int (length (merkleDict this')) \<le> maxCached this' \<and>
    (case r of None \<Rightarrow> e \<noteq> None | Some p \<Rightarrow> e = None \<and> ppRoot (cellAt (providers this') p) = root)"
proof (cases "map_of (merkleDict this) root")
  case (Some p)
  then have "(root, p) \<in> set (merkleDict this)" by (rule map_of_SomeD)
  then show ?thesis using Some assms by (auto simp: GetProofProvider_def mcacheOk_def)
next
  case None
  show ?thesis
  proof (cases "LoadEthTrieByRoot T shards disks (mcDb this) root")
    case (Pair store err)
    show ?thesis
    proof (cases "store \<noteq> None \<and> err = None")
      case False
      then show ?thesis using None Pair assms
        by (auto simp: GetProofProvider_def LoadEthTrieByRoot_def joinErrors_def split: prod.splits option.splits)
    next
      case True
      then obtain ds where ds: "LoadEthTrieByRoot T shards disks (mcDb this) root = (Some ds, None)" using Pair by auto
      let ?p = "\<lparr>ppRoot = root, ppTotalVisits = 1, ppVisits = 1, ppStore = ds\<rparr>"
      define this1 where "this1 = this\<lparr>merkleDict := AList.update root (nextRef (providers this)) (merkleDict this),
        providers := snd (alloc ?p (providers this))\<rparr>"
      have res: "r = Some (nextRef (providers this))" "e = None" "this' = touchAll (evictMerkle M this1)"
        using assms(4) None ds by (auto simp: GetProofProvider_def alloc_def this1_def)
      have upd: "set (AList.update root v (merkleDict this)) \<subseteq> insert (root, v) (set (merkleDict this))" for v
        by (rule set_update_subset)
      have ok: "mcacheOk this1" using assms(2) upd by (fastforce simp: mcacheOk_def this1_def distinct_update)
      have "int (length (merkleDict this1)) \<le> maxCached this1 + 1" "0 \<le> maxCached this1"
        using assms(3) length_update [of root "nextRef (providers this)" "merkleDict this"] by (simp_all add: this1_def)
      from evictMerkle_ok [OF assms(1) ok this] show ?thesis unfolding res by (simp add: this1_def)
    qed
  qed
qed

section \<open>Closed instances\<close>

text \<open>An account with one native slot, in a world trie of its own.\<close>

definition slotTrie :: ftrie where
  "slotTrie = fmupd slot5 [0, 9] fmempty"

definition slotState :: StateAccount where
  "slotState = (EmptyAccountState fin_eth)\<lparr>saRoot := fHash slotTrie, saBalance := 3\<rparr>"

definition worldTrie1 :: ftrie where
  "worldTrie1 = fmupd (keccak fin_lib zeroAddr) (eStateEnc fin_eth slotState) fmempty"

definition provider1 :: "(ftrie, bytes list, bytes \<rightharpoonup> bytes) ProofProvider" where
  "provider1 = \<lparr>ppRoot = fHash worldTrie1, ppTotalVisits = 1, ppVisits = 1,
     ppStore = NewEthDataStore (Some worldTrie1) (NewEthShardTrieMemDB [fHash slotTrie] (\<lambda>_. Map.empty))\<rparr>"

definition tagDecInto :: "bytes \<Rightarrow> bytes \<times> err" where
  "tagDecInto b = (case b of [] \<Rightarrow> ([], Some ''EOF'') | _ # r \<Rightarrow> (r, None))"

definition tagClaim :: claim_enc where
  "tagClaim n b r c =
     (if bytesVal b < 2 ^ 256
      then (eStateEnc fin_eth \<lparr>saNonce = n, saBalance = of_int (bytesVal b), saRoot = r, saCodeHash = c\<rparr>, None)
      else ([], Some ''balance too large''))"

lemma tag_claim_law: "claim_law fin_eth tagDecInto tagClaim" "claim_inj tagClaim"
proof -
  have "uint b < 2 ^ LENGTH(256)" for b :: "256 word" by (rule unsigned_less)
  then have lt: "int (unat b) < 2 ^ 256" for b :: "256 word" by simp
  show "claim_law fin_eth tagDecInto tagClaim"
    using lt by (simp add: claim_law_def tagClaim_def tagDecInto_def bytesVal_beBytes tagged_codec_def tagged_rlp_def)
  have "eStateDec fin_eth (eStateEnc fin_eth s) = Inr s" for s using fin_eth_law by (simp only: eth_law_def)
  then have inj: "s = s'" if "eStateEnc fin_eth s = eStateEnc fin_eth s'" for s s' using that by (metis sum.inject(2))
  have num: "b = b'" if "(of_nat b :: 256 word) = of_nat b'" "int b < 2 ^ 256" "int b' < 2 ^ 256" for b b'
    using that by (simp add: word_of_nat_eq_iff take_bit_nat_eq_self nat_less_numeral_power_cancel_iff)
  show "claim_inj tagClaim"
    unfolding claim_inj_def
  proof (intro allI impI, goal_cases)
    case (1 n b r c n' b' r' c' x)
    then have lt: "int b < 2 ^ 256" "int b' < 2 ^ 256" by (auto simp: tagClaim_def bytesVal_beBytes split: if_splits)
    then have "eStateEnc fin_eth \<lparr>saNonce = n, saBalance = of_nat b, saRoot = r, saCodeHash = c\<rparr> =
        eStateEnc fin_eth \<lparr>saNonce = n', saBalance = of_nat b', saRoot = r', saCodeHash = c'\<rparr>"
      using 1 by (simp add: tagClaim_def bytesVal_beBytes)
    from inj [OF this] show ?case using num [OF _ lt] by simp
  qed
qed

lemma slotTrie_lookup: "fLookup slotTrie k = (if k = slot5 then [0, 9] else [])"
  by (simp add: slotTrie_def fLookup_def)

lemma beBytes9: "[0, 9] = fst (encBytes (rlpOf tagged_codec) (beBytes 9))"
  by (simp add: tagged_codec_def tagged_rlp_def beBytes.simps)

lemma provider1_ok: "provable fin_eth (ppStore provider1) worldTrie1 zeroAddr slotState (fLookup slotTrie)"
proof -
  have enc: "eStateEnc fin_eth s \<noteq> []" for s by (simp add: fin_eth_def)
  have hash: "fHash (fOpen (fHash slotTrie)) = fHash slotTrie" "fLookup (fOpen (fHash slotTrie)) = fLookup slotTrie" by simp_all
  have "secureTrie fin_lib worldTrie1" by (auto simp: secureTrie_def worldTrie1_def fLookup_def enc split: if_splits)
  moreover have "tLookup fin_lib worldTrie1 (keccak fin_lib zeroAddr) = eStateEnc fin_eth slotState"
    by (simp add: worldTrie1_def fLookup_def)
  moreover have "saRoot slotState = fHash slotTrie" by (simp add: slotState_def)
  ultimately show ?thesis
    using hash by (auto simp: provable_def provider1_def NewEthDataStore_def NewEthShardTrieMemDB_def slotTrie_lookup)
qed

definition key5 :: string where
  "key5 = ''0x'' @ hexBytes (replicate 31 0 @ [5])"

lemma key5_full: "fullKey fin_lib key5 (replicate 31 0 @ [5])"
proof -
  have "length (hexBytes b) = 2 * length b" for b by (induction b) (simp_all add: hexBytes_def)
  then show ?thesis
    by (simp add: fullKey_def key5_def decodeHash_def HasPrefix_def hexBytes_roundtrip leftPad_props)
qed

theorem GetProof_verifies_witness:
  "\<exists>res pp' op. GetProof fin_eth tagDecInto zeroAddr [key5] provider1 = Some ((Some res, None), pp') \<and>
    Convertible_New fin_lib res = Some op \<and> Verify fin_lib tagged_rlp tagClaim (fHash worldTrie1) op = Some None"
proof -
  have law: "proof_law (eTrie fin_eth)" by (simp add: fin_proof_law)
  have "nativeSlot (rlpOf tagged_codec) (fLookup slotTrie k)" for k
    using beBytes9 by (auto simp: nativeSlot_def slotTrie_lookup intro!: exI [of _ 9])
  then have keys: "provableSlots fin_eth (fLookup slotTrie) [key5]"
    using key5_full by (auto simp: provableSlots_def simp del: fin_sel(16) intro!: exI [of "\<lambda>k. fLookup slotTrie k \<noteq> []" slot5]) (simp add: slotTrie_lookup)
  have rlp: "rlpOf (eCodec fin_eth) = tagged_rlp" by (simp add: tagged_codec_def)
  show ?thesis using GetProof_verifies [OF fin_eth_law law tag_claim_law(1) provider1_ok keys] unfolding rlp by simp
qed

text \<open>A claim about that account with its slot, as its own verifier sees it.\<close>

definition claim1 :: OptimismAccountResult where
  "claim1 = \<lparr>oaAccountProof = [], oaAddress = zeroAddr, oaBalance = Some 3, oaCodeHash = saCodeHash slotState, oaNonce = 0,
     oaStorageHash = fHash slotTrie, oaStorageProof = [\<lparr>ospKey = replicate 31 0 @ [5], ospValue = 9, ospProof = []\<rparr>]\<rparr>"

theorem Verify_sound_witness:
  "Verify fin_lib tagged_rlp tagClaim (fHash worldTrie1) claim1 = Some None \<and> oaNonce claim1 = saNonce slotState \<and>
   uint (saBalance slotState) = 3 \<and> slotNumber fin_lib tagDecInto slotTrie (replicate 31 0 @ [5]) = 9"
proof -
  have slot: "keccak fin_lib (replicate 31 0 @ [5]) = slot5" by (simp add: numeral_eq_Suc)
  have e9: "encBytes tagged_rlp (beBytes 9) = ([0, 9], None)" by (simp add: tagged_rlp_def beBytes.simps)
  have entry: "verifyEntry fin_lib tagged_rlp (fHash slotTrie) \<lparr>ospKey = replicate 31 0 @ [5], ospValue = 9, ospProof = []\<rparr> = None"
    by (simp add: verifyEntry_def slotTrie_lookup e9 del: fin_sel(16)) (simp add: slot slotTrie_lookup del: fin_sel(16))
  have state: "slotState = \<lparr>saNonce = 0, saBalance = 3, saRoot = fHash slotTrie, saCodeHash = saCodeHash slotState\<rparr>"
    by (simp add: slotState_def EmptyAccountState_def)
  have three: "of_int (bytesVal (beBytes 3)) = (3 :: 256 word)" by (simp add: bytesVal_beBytes)
  have claim: "tagClaim 0 (beBytes 3) (fHash slotTrie) (saCodeHash slotState) = (eStateEnc fin_eth slotState, None)"
    unfolding tagClaim_def three using state by (simp add: bytesVal_beBytes)
  have world: "verifyProof fin_lib (fHash worldTrie1) (keccak fin_lib zeroAddr) db = (Some (eStateEnc fin_eth slotState), None)" for db
    by (simp add: worldTrie1_def fLookup_def) (simp add: fin_eth_def)
  have ver: "Verify fin_lib tagged_rlp tagClaim (tHash fin_lib worldTrie1) claim1 = Some None"
    unfolding Verify_def claim1_def by (simp add: entry claim world del: fin_sel(9,16))
  have ver': "Verify (eTrie fin_eth) (rlpOf (eCodec fin_eth)) tagClaim (tHash (eTrie fin_eth) worldTrie1) claim1 = Some None"
    using ver by (simp add: tagged_codec_def)
  have acct: "tLookup (eTrie fin_eth) worldTrie1 (keccak (eTrie fin_eth) (oaAddress claim1)) = eStateEnc fin_eth slotState"
    "tHash (eTrie fin_eth) slotTrie = saRoot slotState"
    by (simp_all add: worldTrie1_def fLookup_def claim1_def) (simp add: slotState_def)
  have law: "proof_law (eTrie fin_eth)" by (simp add: fin_proof_law)
  from Verify_sound [OF law tag_claim_law ver' acct] ver show ?thesis
    unfolding claim1_def by (auto simp del: fin_sel(16))
qed

theorem short_keys_panic_witness:
  "\<exists>res pp'. GetProof fin_eth tagDecInto zeroAddr [''0x5''] provider1 = Some ((Some res, None), pp') \<and> Convertible_New fin_lib res = None"
proof -
  have key: "decodeHash fin_lib ''0x5'' = (replicate 31 0 @ [5], 1, None)"
    by (simp add: decodeHash_def HasPrefix_def hexDigit_def leftPad_def)
  have val: "bytesVal (replicate 31 0 @ [5]) = 5" by (simp add: bytesVal_pad) (simp add: bytesVal_def)
  obtain r w' u where a: "GetAccount fin_eth zeroAddr (ppStore provider1) = Some ((Some r, None), w')" "acTrie (acctAt w' r) = Some u"
    "worldStateTrie w' = Some worldTrie1"
    using GetAccount_provable [OF fin_eth_law provider1_ok] by metis
  have wt: "secureTrie fin_lib worldTrie1" "fLookup worldTrie1 (keccak fin_lib zeroAddr) \<noteq> []"
    using provider1_ok by (simp_all add: provable_def) (simp add: fin_eth_def)
  obtain ps where p: "GetAccountProof fin_eth zeroAddr w' = Some (proofList fin_lib ps, None)"
    "VerifyProof fin_lib (fHash worldTrie1) (proofList fin_lib ps) zeroAddr = Some ()"
    using GetAccountProof_provable [OF fin_eth_law _ a(3), of zeroAddr] wt fin_proof_law by (metis fin_eth_sel(1) fin_sel(3,12))
  have "\<exists>xs. storageProofs fin_eth tagDecInto (Some u) [''0x5''] = Inr xs" using key by simp
  then have "\<exists>res pp'. GetProof fin_eth tagDecInto zeroAddr [''0x5''] provider1 = Some ((Some res, None), pp')"
    using a p by (auto simp: GetProof_def Let_def)
  then obtain res pp' where get: "GetProof fin_eth tagDecInto zeroAddr [''0x5''] provider1 = Some ((Some res, None), pp')" by blast
  have "Convertible_New (eTrie fin_eth) res = None"
    by (rule short_keys_panic [OF _ get, of "''0x5''" "replicate 31 0 @ [5]" 1 0]) (simp_all add: fin_hexutil_law key val)
  then show ?thesis using get by auto
qed

definition natCache :: "nat mcache_lib" where
  "natCache = \<lparr>mcRatio = (\<lambda>v t. unat v div unat t), mcLess = (<), mcExtreme = (\<lambda>xs l. (0, hd xs)), mcKVs = (\<lambda>kvs. (map fst kvs, map snd kvs))\<rparr>"

theorem GetProofProvider_inv_witness:
  "\<exists>p this'. GetProofProvider fin_lib natCache [] (\<lambda>_. Map.empty) (fHash fmempty)
      (NewMerkleProofCache 1 [] \<lparr>cellAt = (\<lambda>_. provider1), nextRef = 0\<rparr>) = ((Some p, None), this') \<and>
    mcacheOk this' \<and> int (length (merkleDict this')) \<le> 1 \<and> ppRoot (cellAt (providers this') p) = fHash fmempty"
proof -
  let ?start = "NewMerkleProofCache 1 [] \<lparr>cellAt = (\<lambda>_. provider1), nextRef = 0\<rparr>"
  have law: "mcache_law natCache" by (simp add: mcache_law_def natCache_def zip_map_fst_snd)
  have start: "mcacheOk ?start" "int (length (merkleDict ?start)) \<le> maxCached ?start"
    by (simp_all add: mcacheOk_def NewMerkleProofCache_def)
  have "\<exists>p this'. GetProofProvider fin_lib natCache [] (\<lambda>_. Map.empty) (fHash fmempty) ?start = ((Some p, None), this') \<and> maxCached this' = 1"
    by (simp add: GetProofProvider_def NewMerkleProofCache_def LoadEthTrieByRoot_def alloc_def evictMerkle_def)
  then obtain p this' where run: "GetProofProvider fin_lib natCache [] (\<lambda>_. Map.empty) (fHash fmempty) ?start = ((Some p, None), this')"
    "maxCached this' = 1" by blast
  from GetProofProvider_inv [OF law start run(1)] run show ?thesis by auto
qed

end
